(* ===== verification/Prelude.thy ===== *)
theory Prelude
  imports Main "HOL-Library.Word" "HOL-Library.AList"
begin

text \<open>
  Shared vocabulary of the development: bytes and the big-endian integers of
  Go's \<^verbatim>\<open>encoding/binary\<close>, error values, \<^verbatim>\<open>io.ReadFull\<close> over the bytes a peer will
  send, the source of random draws, and Go maps as association lists with distinct keys.
  The locale \<open>framing\<close> is the contract of every wire format of the program: what the
  encoder appends, the decoder takes off the front of the stream, and it always makes progress.
\<close>

unbundle bit_operations_syntax

named_theorems wire_simps \<open>encoding and decoding of wire fields\<close>
named_theorems gomap_simps \<open>lookup, store and delete in Go maps\<close>

section \<open>Bytes and big-endian integers\<close>

type_synonym byte = "8 word"
type_synonym bytes = "byte list"

definition put16 :: "16 word \<Rightarrow> bytes" where
  "put16 w = [ucast (drop_bit 8 w), ucast w]"

definition get16 :: "byte \<Rightarrow> byte \<Rightarrow> 16 word" where
  "get16 a b = push_bit 8 (ucast a) OR ucast b"

definition put32 :: "32 word \<Rightarrow> bytes" where
  "put32 w = [ucast (drop_bit 24 w), ucast (drop_bit 16 w), ucast (drop_bit 8 w), ucast w]"

definition get32 :: "byte \<Rightarrow> byte \<Rightarrow> byte \<Rightarrow> byte \<Rightarrow> 32 word" where
  "get32 a b c d = push_bit 24 (ucast a) OR push_bit 16 (ucast b) OR push_bit 8 (ucast c) OR ucast d"

definition put64 :: "64 word \<Rightarrow> bytes" where
  "put64 w = [ucast (drop_bit 56 w), ucast (drop_bit 48 w), ucast (drop_bit 40 w),
     ucast (drop_bit 32 w), ucast (drop_bit 24 w), ucast (drop_bit 16 w), ucast (drop_bit 8 w),
     ucast w]"

lemma length_put [simp]:
  "length (put16 w) = 2" "length (put32 x) = 4" "length (put64 y) = 8"
  by (simp_all add: put16_def put32_def put64_def)

lemma byte_bit_ge: "8 \<le> n \<Longrightarrow> \<not> bit (b::byte) n"
  using bit_imp_le_length [of b n] by auto

lemma get16_put16 [simp, wire_simps]: "get16 (ucast (drop_bit 8 w)) (ucast w) = w"
  unfolding get16_def by (rule bit_word_eqI) (auto simp: bit_simps not_le less_diff_conv2)

lemma get32_put32 [simp, wire_simps]:
  "get32 (ucast (drop_bit 24 w)) (ucast (drop_bit 16 w)) (ucast (drop_bit 8 w)) (ucast w) = w"
  unfolding get32_def
proof (rule bit_word_eqI)
  fix n assume "n < LENGTH(32)"
  then show "bit (push_bit 24 (ucast (ucast (drop_bit 24 w) :: byte)) OR
      push_bit 16 (ucast (ucast (drop_bit 16 w) :: byte)) OR
      push_bit 8 (ucast (ucast (drop_bit 8 w) :: byte)) OR ucast (ucast w :: byte) :: 32 word) n
      = bit w n"
    by (cases "n < 8"; cases "n < 16"; cases "n < 24") (auto simp: bit_simps)
qed

lemma put16_get16 [simp, wire_simps]: "put16 (get16 a b) = [a, b]"
  unfolding get16_def put16_def
  by (auto intro!: bit_word_eqI simp: bit_simps byte_bit_ge)

lemma unat_get16: "unat (get16 a b) = unat a * 256 + unat b"
proof -
  have d: "push_bit 8 (ucast a) AND ucast b = (0 :: 16 word)"
    by (rule bit_word_eqI) (auto simp: bit_simps byte_bit_ge)
  have "get16 a b = ucast a * 256 + ucast b"
    unfolding get16_def
    using disjunctive_add_eq_or [OF d] by (simp add: push_bit_eq_mult)
  moreover have lt: "unat a < 256" "unat b < 256"
    using unsigned_less [of a] unsigned_less [of b] by simp_all
  moreover have "unat (ucast a :: 16 word) = unat a" "unat (ucast b :: 16 word) = unat b"
    using lt by (simp_all add: unsigned_ucast_eq take_bit_nat_eq_self)
  ultimately show ?thesis by (simp add: unat_word_ariths)
qed

lemma unat_of_nat16 [simp]: "n < 65536 \<Longrightarrow> unat (of_nat n :: 16 word) = n"
  by (simp add: unat_of_nat)

section \<open>Errors and streams\<close>

lemma put64_inject: "put64 v = put64 w \<Longrightarrow> v = w"
proof (rule bit_word_eqI)
  fix n assume e: "put64 v = put64 w" and n: "n < LENGTH(64)"
  have "ucast (drop_bit (8 * k) v) = (ucast (drop_bit (8 * k) w) :: byte)" if k8: "k < 8" for k :: nat
  proof -
    consider "k = 0" | "k = 1" | "k = 2" | "k = 3" | "k = 4" | "k = 5" | "k = 6" | "k = 7" using k8 by linarith
    then show ?thesis using e by cases (simp_all add: put64_def)
  qed
  moreover have "n div 8 < 8" using n by (simp add: less_mult_imp_div_less)
  ultimately have "ucast (drop_bit (8 * (n div 8)) v) = (ucast (drop_bit (8 * (n div 8)) w) :: byte)" by blast
  then have "bit (ucast (drop_bit (8 * (n div 8)) v) :: byte) (n mod 8) = bit (ucast (drop_bit (8 * (n div 8)) w) :: byte) (n mod 8)"
    by (simp only:)
  then show "bit v n = bit w n" by (simp add: bit_ucast_iff bit_drop_bit_eq)
qed

text \<open>Go errors as values: the sentinels of \<^verbatim>\<open>io\<close> and messages made by \<^verbatim>\<open>errors.New\<close>.\<close>

datatype go_error = EOF | ErrUnexpectedEOF | ErrClosedPipe | ErrNew string

text \<open>
  \<^verbatim>\<open>io.ReadFull(r, buf)\<close> with \<^verbatim>\<open>len(buf) = n\<close>, where the reader holds exactly the bytes
  \<open>bs\<close> before it ends: the filled buffer or the error, and what is left unread.
\<close>

definition read_full :: "nat \<Rightarrow> bytes \<Rightarrow> (go_error + bytes) \<times> bytes" where
  "read_full n bs =
     (if n \<le> length bs then (Inr (take n bs), drop n bs)
      else (Inl (if bs = [] then EOF else ErrUnexpectedEOF), []))"

lemma read_full_append [simp, wire_simps]: "length xs = n \<Longrightarrow> read_full n (xs @ ys) = (Inr xs, ys)"
  by (simp add: read_full_def)

lemma read_full_InrD: "read_full n bs = (Inr x, r) \<Longrightarrow> bs = x @ r \<and> length x = n"
  by (auto simp: read_full_def split: if_splits)

lemma read_full_length: "read_full n bs = (x, r) \<Longrightarrow> length r \<le> length bs"
  by (auto simp: read_full_def split: if_splits)

section \<open>Random draws\<close>

text \<open>
  \<^verbatim>\<open>math/rand\<close> as an unknown sequence of draws: every sequence of results of the real
  generator is one \<open>src\<close>, so a theorem for all \<open>rng\<close> holds whatever is drawn.
\<close>

record rng =
  src :: "nat \<Rightarrow> nat"
  pos :: nat

definition rng_draw :: "rng \<Rightarrow> nat \<times> rng" where
  "rng_draw g = (src g (pos g), g\<lparr>pos := Suc (pos g)\<rparr>)"

text \<open>\<^verbatim>\<open>mrand.Intn(n)\<close> for \<open>0 < n\<close>: a value in \<open>[0, n)\<close>.\<close>

definition rng_intn :: "rng \<Rightarrow> int \<Rightarrow> int \<times> rng" where
  "rng_intn g n = (let (x, g') = rng_draw g in (int x mod n, g'))"

lemma rng_intn_range: "0 < n \<Longrightarrow> rng_intn g n = (x, g') \<Longrightarrow> 0 \<le> x \<and> x < n"
  by (auto simp: rng_intn_def split: prod.splits)

section \<open>Go maps\<close>

text \<open>
  A Go map is an association list with distinct keys. The order of the list stands for the
  iteration order, which Go leaves unspecified.
\<close>

type_synonym ('k, 'v) gomap = "('k \<times> 'v) list"

definition gm_ok :: "('k, 'v) gomap \<Rightarrow> bool" where
  "gm_ok m \<longleftrightarrow> distinct (map fst m)"

definition gm_get :: "('k, 'v) gomap \<Rightarrow> 'k \<Rightarrow> 'v option" where
  "gm_get m k = map_of m k"

definition gm_put :: "'k \<Rightarrow> 'v \<Rightarrow> ('k, 'v) gomap \<Rightarrow> ('k, 'v) gomap" where
  "gm_put k v m = AList.update k v m"

definition gm_del :: "'k \<Rightarrow> ('k, 'v) gomap \<Rightarrow> ('k, 'v) gomap" where
  "gm_del k m = AList.delete k m"

lemma gm_get_Nil [simp, gomap_simps]: "gm_get [] k = None"
  by (simp add: gm_get_def)

lemma gm_get_put [simp, gomap_simps]: "gm_get (gm_put k v m) k' = (if k' = k then Some v else gm_get m k')"
  by (simp add: gm_get_def gm_put_def update_conv')

lemma gm_get_del [simp, gomap_simps]: "gm_get (gm_del k m) k' = (if k' = k then None else gm_get m k')"
  by (simp add: gm_get_def gm_del_def delete_conv')

lemma gm_ok_Nil [simp]: "gm_ok []"
  by (simp add: gm_ok_def)

lemma gm_ok_put [simp, intro]: "gm_ok m \<Longrightarrow> gm_ok (gm_put k v m)"
  unfolding gm_ok_def gm_put_def by (rule distinct_update)

lemma gm_ok_del [simp, intro]: "gm_ok m \<Longrightarrow> gm_ok (gm_del k m)"
  unfolding gm_ok_def gm_del_def by (rule distinct_delete)

lemma gm_ok_filter [simp, intro]: "gm_ok m \<Longrightarrow> gm_ok (filter P m)"
  unfolding gm_ok_def by (induction m) auto

lemma length_gm_put: "length (gm_put k v m) = (if gm_get m k = None then Suc (length m) else length m)"
  unfolding gm_put_def gm_get_def by (induction m) (auto split: prod.splits)

lemma gm_del_absent: "gm_get m k = None \<Longrightarrow> gm_del k m = m"
  unfolding gm_del_def gm_get_def map_of_eq_None_iff by (rule delete_id)

lemma length_gm_del:
  "gm_ok m \<Longrightarrow> length (gm_del k m) = (if gm_get m k = None then length m else length m - 1)"
proof (induction m)
  case (Cons a m)
  have ok: "gm_ok m" and nin: "gm_get m (fst a) = None"
    using Cons.prems by (auto simp: gm_ok_def gm_get_def map_of_eq_None_iff)
  show ?case
  proof (cases "k = fst a")
    case True
    then have "gm_del k (a # m) = gm_del k m" by (cases a) (simp add: gm_del_def)
    then show ?thesis using True nin by (simp add: gm_del_absent gm_get_def)
  next
    case False
    then have del: "gm_del k (a # m) = a # gm_del k m" and get: "gm_get (a # m) k = gm_get m k"
      by (cases a; auto simp: gm_del_def gm_get_def)+
    have "gm_get m k \<noteq> None \<Longrightarrow> 0 < length m" by (cases m) auto
    then show ?thesis using Cons.IH [OF ok] by (auto simp: del get)
  qed
qed (simp add: gm_del_def)

lemma gm_get_filter:
  "gm_ok m \<Longrightarrow> gm_get (filter P m) k =
     (case gm_get m k of None \<Rightarrow> None | Some v \<Rightarrow> if P (k, v) then Some v else None)"
  unfolding gm_ok_def gm_get_def
  by (induction m) (auto simp: map_of_eq_None_iff rev_image_eqI split: option.splits)

lemma gm_get_in: "gm_ok m \<Longrightarrow> gm_get m k = Some v \<longleftrightarrow> (k, v) \<in> set m"
  unfolding gm_ok_def gm_get_def by simp

lemma gm_get_Cons: "gm_get ((k, v) # m) k' = (if k' = k then Some v else gm_get m k')"
  by (simp add: gm_get_def)

lemma set_gm_put: "set (gm_put k v m) \<subseteq> insert (k, v) (set m)"
  unfolding gm_put_def by (induction m) (auto split: prod.splits)

lemma fst_set_gm_put: "fst ` set (gm_put k v m) = insert k (fst ` set m)"
  unfolding gm_put_def by (simp add: dom_update)

lemma set_gm_del: "set (gm_del k m) \<subseteq> set m"
  by (auto simp: gm_del_def AList.delete_eq)

lemma gm_get_map_val: "gm_get (map (\<lambda>(k, v). (k, f k v)) m) k = map_option (f k) (gm_get m k)"
  unfolding gm_get_def by (induction m) auto

lemma gm_ok_map_val: "gm_ok (map (\<lambda>(k, v). (k, f k v)) m) = gm_ok m"
  unfolding gm_ok_def by (simp add: o_def case_prod_beta)

text \<open>
  Maps of maps, as for the sessions of a key: lookup and size. Deleting an inner entry drops the
  inner map when it becomes empty.
\<close>

definition nm_get :: "('a, ('b, 'v) gomap) gomap \<Rightarrow> 'a \<Rightarrow> 'b \<Rightarrow> 'v option" where
  "nm_get m k s = (case gm_get m k of None \<Rightarrow> None | Some km \<Rightarrow> gm_get km s)"

definition nm_count :: "('a, ('b, 'v) gomap) gomap \<Rightarrow> nat" where
  "nm_count m = sum_list (map (\<lambda>(k, km). length km) m)"

definition nm_ok :: "('a, ('b, 'v) gomap) gomap \<Rightarrow> bool" where
  "nm_ok m \<longleftrightarrow> gm_ok m \<and> (\<forall>k km. gm_get m k = Some km \<longrightarrow> gm_ok km)"

definition nm_del :: "'a \<Rightarrow> 'b \<Rightarrow> ('a, ('b, 'v) gomap) gomap \<Rightarrow> ('a, ('b, 'v) gomap) gomap" where
  "nm_del k s m =
     (case gm_get m k of None \<Rightarrow> m
      | Some km \<Rightarrow> let km = gm_del s km in if km = [] then gm_del k m else gm_put k km m)"

lemma nm_count_del: "gm_ok m \<Longrightarrow>
    nm_count (gm_del k m) + (case gm_get m k of None \<Rightarrow> 0 | Some km \<Rightarrow> length km) = nm_count m"
proof (induction m)
  case (Cons a m)
  obtain k' km where a: "a = (k', km)" by (cases a)
  have "gm_ok m" "k' = k \<Longrightarrow> gm_get m k = None"
    using Cons.prems a by (auto simp: gm_ok_def gm_get_def map_of_eq_None_iff)
  then show ?case using Cons.IH a
    by (auto simp: gm_get_Cons nm_count_def gm_del_def)
qed (simp add: nm_count_def gm_del_def)

lemma nm_count_put: "gm_ok m \<Longrightarrow>
    nm_count (gm_put k km m) + (case gm_get m k of None \<Rightarrow> 0 | Some old \<Rightarrow> length old) = nm_count m + length km"
proof (induction m)
  case (Cons a m)
  obtain k' km' where a: "a = (k', km')" by (cases a)
  have "gm_ok m" using Cons.prems by (simp add: gm_ok_def)
  then show ?case using Cons.IH a
    by (auto simp: gm_get_Cons nm_count_def gm_put_def)
qed (simp add: nm_count_def gm_put_def)

lemma nm_get_del:
  "gm_ok m \<Longrightarrow> nm_get (nm_del k s m) k' s' = (if k' = k \<and> s' = s then None else nm_get m k' s')"
proof -
  have e: "gm_del s km = [] \<Longrightarrow> gm_get km s' = (if s' = s then gm_get km s else None)" for km :: "('b, 'c) gomap"
    using gm_get_del [of s km s'] by auto
  show ?thesis
    by (auto simp: nm_get_def nm_del_def Let_def e split: option.splits)
qed

lemma nm_ok_del: "nm_ok m \<Longrightarrow> nm_ok (nm_del k s m)"
  by (auto simp: nm_ok_def nm_del_def Let_def split: option.splits if_splits)

lemma nm_count_nm_del: "nm_ok m \<Longrightarrow> nm_get m k s \<noteq> None \<Longrightarrow> Suc (nm_count (nm_del k s m)) = nm_count m"
proof -
  assume ok: "nm_ok m" and "nm_get m k s \<noteq> None"
  then obtain km where km: "gm_get m k = Some km" "gm_get km s \<noteq> None" "gm_ok km"
    by (auto simp: nm_get_def nm_ok_def split: option.splits)
  have "length km \<noteq> 0" "Suc (length (gm_del s km)) = length km"
    using km length_gm_del [OF km(3), of s] by (cases km; auto)+
  then show ?thesis
    using ok km nm_count_del [of m k] nm_count_put [of m k "gm_del s km"]
    by (auto simp: nm_del_def Let_def nm_ok_def)
qed

section \<open>The first match in a list\<close>

fun first_idx :: "('a \<Rightarrow> bool) \<Rightarrow> 'a list \<Rightarrow> nat option" where
  "first_idx P [] = None"
| "first_idx P (x # xs) = (if P x then Some 0 else map_option Suc (first_idx P xs))"

lemma first_idx_Some: "first_idx P xs = Some i \<longleftrightarrow> i < length xs \<and> P (xs ! i) \<and> (\<forall>j<i. \<not> P (xs ! j))"
proof (induction xs arbitrary: i)
  case (Cons x xs)
  show ?case by (cases i) (auto simp: Cons.IH less_Suc_eq_0_disj)
qed simp

lemma first_idx_None: "first_idx P xs = None \<longleftrightarrow> (\<forall>x \<in> set xs. \<not> P x)"
  by (induction xs) auto

lemma first_idx_snoc: "first_idx P (xs @ [x]) = (case first_idx P xs of Some i \<Rightarrow> Some i | None \<Rightarrow> if P x then Some (length xs) else None)"
  by (induction xs) (auto split: option.splits)

lemma first_idx_less: "first_idx P xs = Some i \<Longrightarrow> i < length xs"
  by (simp add: first_idx_Some)

lemma Min_first_idx:
  assumes "{i. i < length xs \<and> P (xs ! i)} \<noteq> {}"
  shows "first_idx P xs = Some (Min {i. i < length xs \<and> P (xs ! i)})"
proof -
  let ?I = "{i. i < length xs \<and> P (xs ! i)}"
  have fin: "finite ?I" by simp
  have "Min ?I \<in> ?I" using Min_in [OF fin assms] .
  then have m: "Min ?I < length xs" "P (xs ! Min ?I)" by blast+
  have "\<not> P (xs ! j)" if j: "j < Min ?I" for j
  proof
    assume "P (xs ! j)"
    then have "j \<in> ?I" using j m(1) by simp
    from Min_le [OF fin this] j show False by linarith
  qed
  with m show ?thesis unfolding first_idx_Some by blast
qed

lemma enumerate_snoc: "enumerate n (xs @ [x]) = enumerate n xs @ [(n + length xs, x)]"
  by (simp add: enumerate_append_eq)

section \<open>Framings\<close>

text \<open>
  Reading a whole stream of messages: decode until the decoder refuses or stops making
  progress. The rest is what could not be decoded.
\<close>

function decode_all :: "(bytes \<Rightarrow> ('m \<times> bytes) option) \<Rightarrow> bytes \<Rightarrow> 'm list \<times> bytes" where
  "decode_all dec bs =
     (case dec bs of None \<Rightarrow> ([], bs)
      | Some (m, r) \<Rightarrow>
          if length r < length bs then let (ms, t) = decode_all dec r in (m # ms, t) else ([], bs))"
  by pat_completeness auto
termination
  by (relation "measure (length \<circ> snd)") auto

declare decode_all.simps [simp del]

text \<open>
  The contract of a wire format: \<open>dec\<close> takes off exactly what \<open>enc\<close> put on, showing the
  receiver \<open>view m\<close> of a message \<open>m\<close> that satisfies \<open>ok\<close>, and every success makes progress.
\<close>

locale framing =
  fixes enc :: "'m \<Rightarrow> bytes"
    and dec :: "bytes \<Rightarrow> ('v \<times> bytes) option"
    and ok :: "'m \<Rightarrow> bool"
    and view :: "'m \<Rightarrow> 'v"
  assumes dec_enc: "ok m \<Longrightarrow> dec (enc m @ r) = Some (view m, r)"
    and dec_progress: "dec bs = Some (v, r) \<Longrightarrow> length r < length bs"
begin

lemma enc_nonempty: "ok m \<Longrightarrow> enc m \<noteq> []"
  using dec_enc [of m "[]"] dec_progress [of "enc m" "view m" "[]"] by auto

lemma decode_all_step: "ok m \<Longrightarrow>
    decode_all dec (enc m @ bs) = (view m # fst (decode_all dec bs), snd (decode_all dec bs))"
  by (subst decode_all.simps) (simp add: dec_enc enc_nonempty split: prod.splits)

text \<open>A stream of well-formed messages decodes to exactly those messages, in order.\<close>

lemma decode_all_concat:
  assumes "\<And>m. m \<in> set ms \<Longrightarrow> ok m"
  shows "decode_all dec (concat (map enc ms) @ bs)
    = (map view ms @ fst (decode_all dec bs), snd (decode_all dec bs))"
  using assms by (induction ms) (simp_all add: decode_all_step)

text \<open>No encoding is a proper prefix of another: the first message of a stream is determined.\<close>

lemma enc_prefix_free:
  assumes "ok m" and "ok m'" and "enc m @ r = enc m' @ r'"
  shows "view m = view m' \<and> r = r'"
  using assms dec_enc [of m r] dec_enc [of m' r'] by simp

end

end
