(* ===== verification/GoStrings.thy ===== *)
theory GoStrings
  imports Prelude "HOL-Library.Char_ord"
begin

text \<open>
  The functions of Go's \<^verbatim>\<open>strings\<close> and \<^verbatim>\<open>strconv\<close> packages the program uses, on byte strings.
  Case mapping and white space are those of ASCII.
\<close>

definition is_space :: "char \<Rightarrow> bool" where
  "is_space c \<longleftrightarrow> c \<in> {CHR 0x09, CHR 0x0A, CHR 0x0B, CHR 0x0C, CHR 0x0D, CHR '' ''}"

definition trim_space :: "string \<Rightarrow> string" where
  "trim_space s = rev (dropWhile is_space (rev (dropWhile is_space s)))"

definition is_digit :: "char \<Rightarrow> bool" where
  "is_digit c \<longleftrightarrow> CHR ''0'' \<le> c \<and> c \<le> CHR ''9''"

definition to_lower_char :: "char \<Rightarrow> char" where
  "to_lower_char c = (if CHR ''A'' \<le> c \<and> c \<le> CHR ''Z'' then char_of (of_char c + (32::nat)) else c)"

definition to_upper_char :: "char \<Rightarrow> char" where
  "to_upper_char c = (if CHR ''a'' \<le> c \<and> c \<le> CHR ''z'' then char_of (of_char c - (32::nat)) else c)"

definition to_lower :: "string \<Rightarrow> string" where "to_lower = map to_lower_char"
definition to_upper :: "string \<Rightarrow> string" where "to_upper = map to_upper_char"

fun has_prefix :: "'a list \<Rightarrow> 'a list \<Rightarrow> bool" where
  "has_prefix s [] = True"
| "has_prefix [] (p # ps) = False"
| "has_prefix (c # s) (p # ps) = (c = p \<and> has_prefix s ps)"

definition has_suffix :: "'a list \<Rightarrow> 'a list \<Rightarrow> bool" where
  "has_suffix s p = has_prefix (rev s) (rev p)"

fun str_contains :: "'a list \<Rightarrow> 'a list \<Rightarrow> bool" where
  "str_contains [] p = (p = [])"
| "str_contains (c # s) p = (has_prefix (c # s) p \<or> str_contains s p)"

fun index_byte :: "'a list \<Rightarrow> 'a \<Rightarrow> nat option" where
  "index_byte [] x = None"
| "index_byte (c # s) x = (if c = x then Some 0 else map_option Suc (index_byte s x))"

definition trim_prefix :: "'a list \<Rightarrow> 'a list \<Rightarrow> 'a list" where
  "trim_prefix s p = (if has_prefix s p then drop (length p) s else s)"

definition trim_suffix :: "'a list \<Rightarrow> 'a list \<Rightarrow> 'a list" where
  "trim_suffix s p = (if has_suffix s p then take (length s - length p) s else s)"

text \<open>\<^verbatim>\<open>strings.Split(s, sep)\<close> for a one-byte separator: at least one piece.\<close>

fun split_on :: "'a \<Rightarrow> 'a list \<Rightarrow> 'a list list" where
  "split_on x [] = [[]]"
| "split_on x (c # s) =
     (if c = x then [] # split_on x s
      else case split_on x s of [] \<Rightarrow> [[c]] | p # ps \<Rightarrow> (c # p) # ps)"

text \<open>\<^verbatim>\<open>strings.SplitN(s, sep, 2)\<close>: the part before the first separator and the rest.\<close>

definition split2 :: "'a \<Rightarrow> 'a list \<Rightarrow> 'a list list" where
  "split2 x s = (case index_byte s x of None \<Rightarrow> [s] | Some i \<Rightarrow> [take i s, drop (i + 1) s])"

fun digits_val :: "nat \<Rightarrow> string \<Rightarrow> nat option" where
  "digits_val acc [] = Some acc"
| "digits_val acc (c # s) =
     (if is_digit c then digits_val (acc * 10 + (of_char c - 48)) s else None)"

text \<open>\<^verbatim>\<open>strconv.Atoi\<close>: an optional sign and at least one digit, in the range of int64.\<close>

definition atoi :: "string \<Rightarrow> int option" where
  "atoi s =
     (let (neg, ds) = (case s of c # r \<Rightarrow> if c = CHR ''-'' then (True, r)
                                          else if c = CHR ''+'' then (False, r) else (False, s)
                       | [] \<Rightarrow> (False, [])) in
      if ds = [] then None else
      case digits_val 0 ds of None \<Rightarrow> None
      | Some n \<Rightarrow> let v = (if neg then - int n else int n)
                  in if - (2 ^ 63) \<le> v \<and> v < 2 ^ 63 then Some v else None)"

section \<open>Laws\<close>

lemma has_prefix_iff: "has_prefix s p \<longleftrightarrow> (\<exists>r. s = p @ r)"
  by (induction s p rule: has_prefix.induct) auto

lemma has_suffix_iff: "has_suffix s p \<longleftrightarrow> (\<exists>r. s = r @ p)"
proof -
  have "has_suffix s p \<longleftrightarrow> (\<exists>r. rev s = rev p @ r)"
    by (simp add: has_suffix_def has_prefix_iff)
  also have "\<dots> \<longleftrightarrow> (\<exists>r. s = r @ p)"
    by (metis rev_append rev_rev_ident)
  finally show ?thesis .
qed

lemma str_contains_iff: "str_contains s p \<longleftrightarrow> (\<exists>a b. s = a @ p @ b)"
proof (induction s)
  case (Cons c s)
  have "(\<exists>a b. c # s = a @ p @ b) \<longleftrightarrow> (\<exists>b. c # s = p @ b) \<or> (\<exists>a b. s = a @ p @ b)"
    by (auto simp: Cons_eq_append_conv)
  then show ?case using Cons.IH by (simp add: has_prefix_iff)
qed simp

lemma index_byte_Some:
  "index_byte s x = Some i \<longleftrightarrow> i < length s \<and> s ! i = x \<and> (\<forall>j<i. s ! j \<noteq> x)"
proof (induction s arbitrary: i)
  case (Cons c s)
  show ?case
    by (cases i) (auto simp: Cons.IH less_Suc_eq_0_disj)
qed simp

lemma index_byte_None: "index_byte s x = None \<longleftrightarrow> x \<notin> set s"
  by (induction s) auto

lemma split_on_nonempty [simp]: "split_on x s \<noteq> []"
  by (induction s) (auto split: list.splits)

end
