(* ===== verification/Framed.thy ===== *)
theory Framed
  imports Complex_Main Prelude GoStrings
begin

text \<open>
  The framed stream of \<^verbatim>\<open>core/protocol/framed.go\<close>: the shape knobs that steer record sizes
  and padding, the padding budget of a connection, the writer that cuts a byte stream into
  TLS-looking records, the reader that puts it together again, and the markers that end a
  stream or hand it over to the raw socket. The underlying connection is the list of bytes
  written so far with the outcome of every write as an unknown, and the bytes the peer sent.
\<close>

section \<open>Constants\<close>

definition framedWireTarget :: nat where "framedWireTarget = 5 + 16384 + 1 + 16"
definition framedPlainTarget :: nat where "framedPlainTarget = 16384"
definition framedMaxData :: nat where "framedMaxData = framedPlainTarget - 5 - 2"
definition framedSwitchMarker :: "16 word" where "framedSwitchMarker = 0xFFFF"
definition framedFillerMarker :: "16 word" where "framedFillerMarker = 0xFFFE"
definition chunkWireOverhead :: int where "chunkWireOverhead = 29"

lemmas framed_consts = framedWireTarget_def framedPlainTarget_def framedMaxData_def
  framedSwitchMarker_def framedFillerMarker_def chunkWireOverhead_def

definition errFramedBadRecord :: go_error where
  "errFramedBadRecord = ErrNew ''whispera: bad framed record''"
definition ErrSwitchRaw :: go_error where
  "ErrSwitchRaw = ErrNew ''whispera: framed switched to raw''"
definition errShapeRange :: go_error where
  "errShapeRange = ErrNew ''whispera: shape value out of range''"

lemmas framed_errs = errFramedBadRecord_def ErrSwitchRaw_def errShapeRange_def

section \<open>Shape knobs\<close>

text \<open>The fields are \<^verbatim>\<open>atomic.Int32\<close>: stores truncate an int to 32 bits, loads sign-extend.\<close>

record ShapeKnobs =
  sk_records :: "32 word"
  sk_min :: "32 word"
  sk_max :: "32 word"
  sk_fillIdle :: "32 word"
  sk_fillInterval :: "32 word"
  sk_fillMin :: "32 word"
  sk_fillMax :: "32 word"
  sk_chunkMin :: "32 word"
  sk_chunkMax :: "32 word"
  sk_chunkShaped :: bool

abbreviation (input) store32 :: "int \<Rightarrow> 32 word" where "store32 i \<equiv> word_of_int i"

definition chunkDefaults :: "string \<Rightarrow> int \<times> int" where
  "chunkDefaults env =
     (let mn = 4096; mx = int framedMaxData; v = trim_space env in
      if v = [] then (mn, mx) else
      let (lo, hi) = (case index_byte v (CHR ''-'') of
                        None \<Rightarrow> (v, v)
                      | Some i \<Rightarrow> if 0 < i then (take i v, drop (i + 1) v) else (v, v)) in
      case (atoi lo, atoi hi) of
        (Some a, Some b) \<Rightarrow>
          if a < 0 \<or> b < 0 \<or> b > int framedMaxData \<or> (b > 0 \<and> a > b) then (mn, mx) else (a, b)
      | _ \<Rightarrow> (mn, mx))"

definition newShapeKnobs :: "string \<Rightarrow> ShapeKnobs" where
  "newShapeKnobs env =
     (let (lo, hi) = chunkDefaults env in
      \<lparr> sk_records = store32 3, sk_min = store32 111, sk_max = store32 1111,
        sk_fillIdle = 0, sk_fillInterval = 0, sk_fillMin = 0, sk_fillMax = 0,
        sk_chunkMin = store32 lo, sk_chunkMax = store32 hi,
        sk_chunkShaped = (trim_space env = ''shape'') \<rparr>)"

definition Chunk :: "ShapeKnobs \<Rightarrow> int \<times> int" where
  "Chunk k = (sint (sk_chunkMin k), sint (sk_chunkMax k))"

definition SetChunk :: "int \<Rightarrow> int \<Rightarrow> ShapeKnobs \<Rightarrow> go_error + ShapeKnobs" where
  "SetChunk mn mx k =
     (if mn < 0 \<or> mx < 0 \<or> mx > int framedMaxData \<or> (mx > 0 \<and> mn > mx) then Inl errShapeRange
      else Inr (k\<lparr>sk_chunkMin := store32 mn, sk_chunkMax := store32 mx\<rparr>))"

definition Filler :: "ShapeKnobs \<Rightarrow> int \<times> int \<times> int \<times> int" where
  "Filler k = (sint (sk_fillIdle k), sint (sk_fillInterval k), sint (sk_fillMin k), sint (sk_fillMax k))"

definition SetFiller :: "int \<Rightarrow> int \<Rightarrow> int \<Rightarrow> int \<Rightarrow> ShapeKnobs \<Rightarrow> go_error + ShapeKnobs" where
  "SetFiller idleMs intervalMs mn mx k =
     (if idleMs < 0 \<or> intervalMs < 0 \<or> intervalMs > 60000 then Inl errShapeRange
      else if mn < 0 \<or> mx > int framedMaxData \<or> mn > mx then Inl errShapeRange
      else Inr (k\<lparr>sk_fillIdle := store32 idleMs, sk_fillInterval := store32 intervalMs,
                  sk_fillMin := store32 mn, sk_fillMax := store32 mx\<rparr>))"

definition SetShape :: "int \<Rightarrow> int \<Rightarrow> int \<Rightarrow> ShapeKnobs \<Rightarrow> go_error + ShapeKnobs" where
  "SetShape recs mn mx k =
     (if recs < 0 \<or> recs > 64 then Inl errShapeRange
      else if mn < 0 \<or> mx > int framedMaxData \<or> mn > mx then Inl errShapeRange
      else Inr (k\<lparr>sk_records := store32 recs, sk_min := store32 mn, sk_max := store32 mx\<rparr>))"

section \<open>Chunk lengths and padding\<close>

text \<open>
  \<^verbatim>\<open>chunkShape\<close>: wire-size bounds and weight in percent. Weights and the uniform draw are
  float64 in the source and exact rationals here.
\<close>

definition chunkShape :: "(int \<times> int \<times> rat) list" where
  "chunkShape =
     [(0, 64, 72/10), (64, 128, 23/10), (128, 256, 16/10), (256, 512, 31/10), (512, 1024, 41/10),
      (1024, 2048, 527/10), (2048, 4096, 12/10), (4096, 8192, 7), (8192, 16000, 1),
      (16000, int framedMaxData + chunkWireOverhead, 197/10)]"

text \<open>\<^verbatim>\<open>mrand.Float64()\<close>: a multiple of \<open>2 ^ -53\<close> in \<open>[0, 1)\<close>.\<close>

definition rng_float64 :: "rng \<Rightarrow> rat \<times> rng" where
  "rng_float64 g = (let (x, g') = rng_draw g in (of_nat (x mod 2 ^ 53) / 2 ^ 53, g'))"

fun shapedChunk_pick :: "(int \<times> int \<times> rat) list \<Rightarrow> rat \<Rightarrow> rng \<Rightarrow> int \<Rightarrow> int \<times> rng" where
  "shapedChunk_pick [] r g left = (left, g)"
| "shapedChunk_pick ((clo, chi, w) # cs) r g left =
     (let r = r - w in
      if r > 0 then shapedChunk_pick cs r g left else
      let lo = clo - chunkWireOverhead; hi = chi - chunkWireOverhead;
          lo = (if lo < 1 then 1 else lo);
          hi = (if hi > int framedMaxData then int framedMaxData else hi);
          hi = (if hi \<le> lo then lo + 1 else hi);
          (d, g) = rng_intn g (hi - lo);
          n = lo + d
      in (if n < left then n else left, g))"

definition shapedChunk :: "rng \<Rightarrow> int \<Rightarrow> int \<times> rng" where
  "shapedChunk g left =
     (let total = sum_list (map (\<lambda>(_, _, w). w) chunkShape); (u, g) = rng_float64 g
      in shapedChunk_pick chunkShape (u * total) g left)"

definition chunkLen :: "ShapeKnobs \<Rightarrow> rng \<Rightarrow> int \<Rightarrow> int \<times> rng" where
  "chunkLen k g left =
     (if sk_chunkShaped k then shapedChunk g left else
      let (mn, mx) = Chunk k in
      if mx \<le> 0 then (left, g) else
      let mn = (if mn < 1 then 1 else mn);
          (want, g) = (if mx > mn then let (d, g) = rng_intn g (mx - mn + 1) in (mn + d, g) else (mn, g))
      in (if want < left then want else left, g))"

definition ShapePadLen :: "ShapeKnobs \<Rightarrow> rng \<Rightarrow> int \<Rightarrow> int \<times> rng" where
  "ShapePadLen k g room =
     (if room \<le> 0 then (0, g) else
      let mn = sint (sk_min k); mx = sint (sk_max k) in
      if mx \<le> mn then (0, g) else
      let (d, g) = rng_intn g (mx - mn + 1); pad = mn + d
      in (if pad > room then room else pad, g))"

text \<open>The pad is filled eight random bytes at a time; the last draw is cut to what is left.\<close>

fun shape_pad :: "nat \<Rightarrow> rng \<Rightarrow> bytes \<times> rng" where
  "shape_pad n g =
     (if n = 0 then ([], g) else
      let (w, g) = rng_draw g; (rest, g) = shape_pad (n - 8) g
      in (take n (put64 (of_nat w)) @ rest, g))"

declare shape_pad.simps [simp del]

definition AppendShapePad :: "bytes \<Rightarrow> int \<Rightarrow> rng \<Rightarrow> bytes \<times> rng" where
  "AppendShapePad out n g =
     (if n \<le> 0 then (out, g) else let (p, g) = shape_pad (nat n) g in (out @ p, g))"

text \<open>The padding budget: \<open>None\<close> is the nil pointer.\<close>

definition NewShapeBudget :: "ShapeKnobs \<Rightarrow> int option" where
  "NewShapeBudget k = Some (sint (sk_records k))"

definition budget_take :: "int option \<Rightarrow> bool \<times> int option" where
  "budget_take b = (case b of None \<Rightarrow> (False, None)
     | Some v \<Rightarrow> if v \<le> 0 then (False, Some v) else (True, Some (v - 1)))"

section \<open>The connection\<close>

text \<open>
  The write half of a \<^verbatim>\<open>net.Conn\<close>: the bytes sent, the number of writes made, and for each
  write whether it fails and how much of it still goes out.
\<close>

record wconn =
  wire :: bytes
  wcount :: nat
  wfail :: "nat \<Rightarrow> (go_error \<times> nat) option"

definition conn_write :: "wconn \<Rightarrow> bytes \<Rightarrow> wconn \<times> go_error option" where
  "conn_write c b =
     (case wfail c (wcount c) of
        None \<Rightarrow> (c\<lparr>wire := wire c @ b, wcount := Suc (wcount c)\<rparr>, None)
      | Some (e, k) \<Rightarrow> (c\<lparr>wire := wire c @ take k b, wcount := Suc (wcount c)\<rparr>, Some e))"

record FramedConn =
  fc_out :: wconn
  fc_in :: bytes
  fc_rbuf :: bytes
  fc_done :: bool
  fc_batch :: bool
  fc_ended :: bool
  fc_endErr :: "go_error option"
  fc_switched :: bool
  fc_pad :: "int option"
  fc_lastWrite :: int
  fc_filling :: bool
  fc_stopped :: bool
  fc_rng :: rng

definition armFiller :: "ShapeKnobs \<Rightarrow> FramedConn \<Rightarrow> FramedConn" where
  "armFiller k c = (let (_, intervalMs, _, _) = Filler k in
     if intervalMs \<le> 0 then c else c\<lparr>fc_filling := True\<rparr>)"

definition NewFramedConn ::
    "ShapeKnobs \<Rightarrow> wconn \<Rightarrow> bytes \<Rightarrow> int option \<Rightarrow> int \<Rightarrow> rng \<Rightarrow> FramedConn" where
  "NewFramedConn k out inp pad now g = armFiller k
     \<lparr> fc_out = out, fc_in = inp, fc_rbuf = [], fc_done = False, fc_batch = False,
       fc_ended = False, fc_endErr = None, fc_switched = False, fc_pad = pad,
       fc_lastWrite = now, fc_filling = False, fc_stopped = False, fc_rng = g \<rparr>"

subsection \<open>Writing\<close>

text \<open>\<open>record_head body len\<close>: record type, TLS version, body length and data length.\<close>

definition record_head :: "16 word \<Rightarrow> 16 word \<Rightarrow> bytes" where
  "record_head body len = [0x17, 0x03, 0x03] @ put16 body @ put16 len"

definition WriteFillerRecord :: "wconn \<Rightarrow> int \<Rightarrow> rng \<Rightarrow> wconn \<times> rng \<times> go_error option" where
  "WriteFillerRecord w pad g =
     (let (out, g) = AppendShapePad (record_head (word_of_int (2 + pad)) framedFillerMarker) pad g;
          (w, e) = conn_write w out in (w, g, e))"

definition writeFiller :: "int \<Rightarrow> FramedConn \<Rightarrow> FramedConn \<times> go_error option" where
  "writeFiller pad c =
     (if fc_ended c then (c, Some ErrClosedPipe) else
      let (w, g, e) = WriteFillerRecord (fc_out c) pad (fc_rng c)
      in (c\<lparr>fc_out := w, fc_rng := g\<rparr>, e))"

definition FillerPad :: "ShapeKnobs \<Rightarrow> rng \<Rightarrow> (int \<times> bool) \<times> rng" where
  "FillerPad k g = (let (_, intervalMs, mn, mx) = Filler k in
     if intervalMs \<le> 0 then ((0, False), g) else
     if mx > mn then let (d, g) = rng_intn g (mx - mn + 1) in ((mn + d, True), g)
     else ((mn, True), g))"

text \<open>
  One round of \<^verbatim>\<open>fillLoop\<close> after its timer fired at time \<open>now\<close> (nanoseconds): the loop goes
  on while the result is \<open>True\<close>; on leaving it the \<open>filling\<close> flag is cleared.
\<close>

definition fillLoop_tick :: "ShapeKnobs \<Rightarrow> int \<Rightarrow> FramedConn \<Rightarrow> FramedConn \<times> bool" where
  "fillLoop_tick k now c =
     (let (idleMs, intervalMs, mn, mx) = Filler k in
      if intervalMs \<le> 0 \<or> fc_stopped c then (c\<lparr>fc_filling := False\<rparr>, False)
      else if now - fc_lastWrite c < idleMs * 1000000 then (c, True)
      else let (pad, g) = (if mx > mn then let (d, g) = rng_intn (fc_rng c) (mx - mn + 1) in (mn + d, g)
                           else (mn, fc_rng c));
               (c, e) = writeFiller pad (c\<lparr>fc_rng := g\<rparr>)
           in (case e of None \<Rightarrow> (c, True) | Some _ \<Rightarrow> (c\<lparr>fc_filling := False\<rparr>, False)))"

text \<open>One record of \<^verbatim>\<open>Write\<close>: how much of \<open>b\<close> it took, and the outcome of the write.\<close>

definition write_record :: "ShapeKnobs \<Rightarrow> FramedConn \<Rightarrow> bytes \<Rightarrow> FramedConn \<times> nat \<times> go_error option" where
  "write_record k c b =
     (let (n, g) = chunkLen k (fc_rng c) (int (length b));
          n = (if n > int framedMaxData then int framedMaxData else n);
          (tk, bud) = budget_take (fc_pad c);
          (pad, g) = (if tk then ShapePadLen k g (int framedMaxData - n) else (0, g));
          (out, g) = AppendShapePad
             (record_head (word_of_int (2 + n + pad)) (word_of_int n) @ take (nat n) b) pad g;
          (w, e) = conn_write (fc_out c) out
      in (c\<lparr>fc_out := w, fc_pad := bud, fc_rng := g\<rparr>, nat n, e))"

subsection \<open>Every record takes something\<close>

lemma shapedChunk_pick_range:
  "shapedChunk_pick cs r g left = (n, g') \<Longrightarrow> 1 \<le> left \<Longrightarrow> 1 \<le> n \<and> n \<le> left"
proof (induction cs r g left rule: shapedChunk_pick.induct)
  case (2 clo chi w cs r g left)
  show ?case
  proof (cases "r - w > 0")
    case True
    then show ?thesis using 2 by (simp add: Let_def)
  next
    case False
    define lo hi where "lo = max 1 (clo - chunkWireOverhead)"
      and "hi = (let h = min (int framedMaxData) (chi - chunkWireOverhead) in if h \<le> lo then lo + 1 else h)"
    obtain d g2 where d: "rng_intn g (hi - lo) = (d, g2)" by fastforce
    have "lo < hi" by (auto simp: hi_def Let_def)
    then have "0 \<le> d" using rng_intn_range [OF _ d] by simp
    moreover have "n = (if lo + d < left then lo + d else left)"
      using "2.prems"(1) False d
      by (simp add: Let_def lo_def hi_def max_def min_def split: prod.splits if_splits)
    moreover have "1 \<le> lo" by (simp add: lo_def)
    ultimately show ?thesis using "2.prems"(2) by auto
  qed
qed simp

lemma chunkLen_range: "chunkLen k g left = (n, g') \<Longrightarrow> 1 \<le> left \<Longrightarrow> 1 \<le> n \<and> n \<le> left"
proof -
  assume c: "chunkLen k g left = (n, g')" and l: "1 \<le> left"
  show ?thesis
  proof (cases "sk_chunkShaped k")
    case True
    then show ?thesis using c l
      by (auto simp: chunkLen_def shapedChunk_def Let_def split: prod.splits dest: shapedChunk_pick_range)
  next
    case False
    then show ?thesis using c l
      by (auto simp: chunkLen_def Chunk_def Let_def split: prod.splits if_splits dest!: rng_intn_range [rotated])
  qed
qed

lemma write_record_takes: "write_record k c b = (c', n, e) \<Longrightarrow> b \<noteq> [] \<Longrightarrow> 0 < n \<and> n \<le> length b"
proof -
  assume w: "write_record k c b = (c', n, e)" and b: "b \<noteq> []"
  obtain m g where m: "chunkLen k (fc_rng c) (int (length b)) = (m, g)" by fastforce
  have "1 \<le> m \<and> m \<le> int (length b)"
    using chunkLen_range [OF m] b by (cases b) auto
  moreover have "n = nat (if m > int framedMaxData then int framedMaxData else m)"
    using w m by (auto simp: write_record_def Let_def split: prod.splits)
  ultimately show ?thesis by (auto simp: framed_consts)
qed

function write_loop :: "ShapeKnobs \<Rightarrow> FramedConn \<Rightarrow> bytes \<Rightarrow> nat \<Rightarrow> FramedConn \<times> nat \<times> go_error option" where
  "write_loop k c b sent =
     (if b = [] then (c, sent, None) else
      let (c', n, e) = write_record k c b in
      case e of Some err \<Rightarrow> (c', sent, Some err)
      | None \<Rightarrow> write_loop k c' (drop n b) (sent + n))"
  by pat_completeness auto
termination
  by (relation "measure (\<lambda>(k, c, b, sent). length b)") (auto dest!: sym [THEN write_record_takes])

declare write_loop.simps [simp del]

definition framed_Write :: "ShapeKnobs \<Rightarrow> int \<Rightarrow> bytes \<Rightarrow> FramedConn \<Rightarrow> FramedConn \<times> nat \<times> go_error option" where
  "framed_Write k now b c =
     (if fc_ended c then (c, 0, Some ErrClosedPipe)
      else write_loop k (armFiller k (c\<lparr>fc_batch := True, fc_lastWrite := now\<rparr>)) b 0)"

definition writeMarker :: "ShapeKnobs \<Rightarrow> 16 word \<Rightarrow> FramedConn \<Rightarrow> FramedConn \<times> go_error option" where
  "writeMarker k marker c =
     (let (tk, bud) = budget_take (fc_pad c);
          (pad, g) = (if tk then ShapePadLen k (fc_rng c) (int framedMaxData) else (0, fc_rng c));
          (out, g) = AppendShapePad (record_head (word_of_int (2 + pad)) marker) pad g;
          (w, e) = conn_write (fc_out c) out
      in (c\<lparr>fc_out := w, fc_pad := bud, fc_rng := g\<rparr>, e))"

definition SwitchRaw :: "ShapeKnobs \<Rightarrow> FramedConn \<Rightarrow> FramedConn \<times> go_error option" where
  "SwitchRaw k c =
     (if fc_ended c then (c, None)
      else writeMarker k framedSwitchMarker (c\<lparr>fc_ended := True, fc_switched := True\<rparr>))"

definition releaseBatch :: "FramedConn \<Rightarrow> FramedConn" where
  "releaseBatch c = c\<lparr>fc_batch := False\<rparr>"

definition EndStream :: "ShapeKnobs \<Rightarrow> FramedConn \<Rightarrow> FramedConn \<times> go_error option" where
  "EndStream k c =
     (if fc_ended c then (c, fc_endErr c) else
      let (c, e) = writeMarker k 0 (c\<lparr>fc_ended := True\<rparr>)
      in (releaseBatch (c\<lparr>fc_endErr := e\<rparr>), e))"

subsection \<open>Reading\<close>

text \<open>\<^verbatim>\<open>readRecord\<close> on the bytes the peer sent: the data or an error, and the bytes left.\<close>

function readRecord :: "bytes \<Rightarrow> (go_error + bytes) \<times> bytes" where
  "readRecord bs =
     (case read_full 5 bs of
        (Inl e, r) \<Rightarrow> (Inl e, r)
      | (Inr hdr, r) \<Rightarrow>
          if hdr ! 0 \<noteq> 0x17 then (Inl errFramedBadRecord, r) else
          let body = unat (get16 (hdr ! 3) (hdr ! 4)) in
          if body < 2 \<or> body > framedWireTarget then (Inl errFramedBadRecord, r) else
          (case read_full body r of
             (Inl e, r) \<Rightarrow> (Inl e, r)
           | (Inr rec, r) \<Rightarrow>
               let dataLen = get16 (rec ! 0) (rec ! 1) in
               if dataLen = framedSwitchMarker then (Inl ErrSwitchRaw, r)
               else if dataLen = framedFillerMarker then readRecord r
               else if 2 + unat dataLen > body then (Inl errFramedBadRecord, r)
               else (Inr (take (unat dataLen) (drop 2 rec)), r)))"
  by pat_completeness auto
termination
  by (relation "measure length") (auto dest!: sym [THEN read_full_InrD])

declare readRecord.simps [simp del]

text \<open>\<^verbatim>\<open>Read\<close> with a buffer of \<open>cap\<close> bytes: the bytes copied into it, or the error.\<close>

definition framed_Read :: "nat \<Rightarrow> FramedConn \<Rightarrow> FramedConn \<times> (go_error + bytes)" where
  "framed_Read cap c =
     (if fc_rbuf c \<noteq> [] then (c\<lparr>fc_rbuf := drop cap (fc_rbuf c)\<rparr>, Inr (take cap (fc_rbuf c)))
      else if fc_done c then (c, Inl EOF)
      else case readRecord (fc_in c) of
        (Inl e, r) \<Rightarrow> (c\<lparr>fc_in := r\<rparr>, Inl e)
      | (Inr data, r) \<Rightarrow>
          if data = [] then (c\<lparr>fc_in := r, fc_done := True\<rparr>, Inl EOF)
          else (c\<lparr>fc_in := r, fc_rbuf := drop cap data\<rparr>, Inr (take cap data)))"

definition SkipFillerRecord :: "bytes \<Rightarrow> bool \<times> bytes" where
  "SkipFillerRecord bs =
     (case read_full 2 bs of
        (Inl e, r) \<Rightarrow> (False, r)
      | (Inr sz, r) \<Rightarrow>
          let body = unat (get16 (sz ! 0) (sz ! 1)) in
          if body < 2 \<or> body > framedWireTarget then (False, r) else
          (case read_full body r of
             (Inl e, r) \<Rightarrow> (False, r)
           | (Inr rec, r) \<Rightarrow> (get16 (rec ! 0) (rec ! 1) = framedFillerMarker, r)))"

subsection \<open>Ending and reusing a connection\<close>

definition StreamDone :: "FramedConn \<Rightarrow> bool" where "StreamDone c = fc_done c"

definition SwitchedRaw :: "FramedConn \<Rightarrow> bool" where "SwitchedRaw c = fc_switched c"

definition Reusable :: "FramedConn \<Rightarrow> bool" where
  "Reusable c \<longleftrightarrow> fc_done c \<and> fc_ended c \<and> \<not> fc_switched c"

definition stopFiller :: "FramedConn \<Rightarrow> FramedConn" where
  "stopFiller c = c\<lparr>fc_stopped := True\<rparr>"

definition framed_Close :: "ShapeKnobs \<Rightarrow> FramedConn \<Rightarrow> FramedConn \<times> go_error option" where
  "framed_Close k c = EndStream k (stopFiller c)"

definition framed_Reset :: "FramedConn \<Rightarrow> FramedConn" where
  "framed_Reset c = c\<lparr>fc_done := False, fc_rbuf := [], fc_ended := False\<rparr>"

section \<open>The shape of what is written\<close>

text \<open>
  \<open>data_rec d p\<close> is a record carrying \<open>d\<close> and \<open>p\<close> bytes of padding; \<open>filler_rec p\<close> and
  \<open>switch_rec p\<close> are the two markers. An empty data record ends a stream.
\<close>

definition data_rec :: "bytes \<Rightarrow> bytes \<Rightarrow> bytes" where
  "data_rec d p = record_head (of_nat (2 + length d + length p)) (of_nat (length d)) @ d @ p"

definition filler_rec :: "bytes \<Rightarrow> bytes" where
  "filler_rec p = record_head (of_nat (2 + length p)) framedFillerMarker @ p"

definition switch_rec :: "bytes \<Rightarrow> bytes" where
  "switch_rec p = record_head (of_nat (2 + length p)) framedSwitchMarker @ p"

definition rec_ok :: "bytes \<Rightarrow> bytes \<Rightarrow> bool" where
  "rec_ok d p \<longleftrightarrow> length d + length p \<le> framedMaxData"

lemma record_head_nth:
  "length (record_head b l) = 7" "record_head b l ! 0 = 0x17"
  "take 5 (record_head b l @ xs) = [0x17, 0x03, 0x03] @ put16 b"
  "drop 5 (record_head b l @ xs) = put16 l @ xs"
  by (simp_all add: record_head_def put16_def)

lemma readRecord_head:
  assumes "2 + length xs \<le> framedWireTarget"
  shows "readRecord (record_head (of_nat (2 + length xs)) l @ xs @ r) =
    (if l = framedSwitchMarker then (Inl ErrSwitchRaw, r)
     else if l = framedFillerMarker then readRecord r
     else if unat l > length xs then (Inl errFramedBadRecord, r)
     else (Inr (take (unat l) xs), r))"
proof -
  let ?b = "of_nat (2 + length xs) :: 16 word"
  have b: "unat ?b = 2 + length xs" using assms by (intro unat_of_nat16) (simp add: framed_consts)
  have h: "read_full 5 (record_head ?b l @ xs @ r) = (Inr ([0x17, 0x03, 0x03] @ put16 ?b), put16 l @ xs @ r)"
    by (simp add: read_full_def record_head_def put16_def del: of_nat_add)
  have n: "([0x17, 0x03, 0x03] @ put16 ?b) ! 0 = 0x17"
    "get16 (([0x17, 0x03, 0x03] @ put16 ?b) ! 3) (([0x17, 0x03, 0x03] @ put16 ?b) ! 4) = ?b"
    "get16 ((put16 l @ xs) ! 0) ((put16 l @ xs) ! 1) = l" "drop 2 (put16 l @ xs) = xs"
    by (simp_all add: put16_def del: of_nat_add)
  have t: "read_full (2 + length xs) (put16 l @ xs @ r) = (Inr (put16 l @ xs), r)"
    by (simp flip: append_assoc)
  show ?thesis
    using assms by (subst readRecord.simps) (simp only: h n prod.case sum.case Let_def b t, simp)
qed

lemma readRecord_data: "rec_ok d p \<Longrightarrow> readRecord (data_rec d p @ r) = (Inr d, r)"
proof -
  assume ok: "rec_ok d p"
  then have l: "2 + length (d @ p) \<le> 16379" by (simp add: rec_ok_def framed_consts)
  then have "of_nat (length d) \<noteq> framedSwitchMarker" "of_nat (length d) \<noteq> framedFillerMarker"
    by (auto simp: framed_consts dest!: arg_cong [where f = unat])
  with l show ?thesis
    using readRecord_head [of "d @ p" "of_nat (length d)" r]
    by (simp add: data_rec_def framedWireTarget_def add.assoc)
qed

lemma readRecord_filler: "length p \<le> framedMaxData \<Longrightarrow> readRecord (filler_rec p @ r) = readRecord r"
  using readRecord_head [of p framedFillerMarker r]
  by (simp add: filler_rec_def framed_consts)

lemma readRecord_switch: "length p \<le> framedMaxData \<Longrightarrow> readRecord (switch_rec p @ r) = (Inl ErrSwitchRaw, r)"
  using readRecord_head [of p framedSwitchMarker r]
  by (simp add: switch_rec_def framed_consts)

lemma readRecord_progress: "readRecord bs = (Inr d, r) \<Longrightarrow> length r + length d < length bs"
proof (induction bs arbitrary: d r rule: readRecord.induct)
  case (1 bs)
  from "1.prems" obtain hdr r1 where h: "read_full 5 bs = (Inr hdr, r1)"
    by (subst (asm) readRecord.simps) (auto split: prod.splits sum.splits)
  let ?body = "unat (get16 (hdr ! 3) (hdr ! 4))"
  have g: "hdr ! 0 = 0x17" "\<not> (?body < 2 \<or> ?body > framedWireTarget)"
    using "1.prems" by (subst (asm) readRecord.simps, auto simp: h Let_def split: if_splits)+
  from "1.prems" g obtain rec r2 where b: "read_full ?body r1 = (Inr rec, r2)"
    by (subst (asm) readRecord.simps) (auto simp: h Let_def split: prod.splits sum.splits if_splits)
  have len: "length bs = 5 + ?body + length r2" "length rec = ?body"
    using read_full_InrD [OF h] read_full_InrD [OF b] by auto
  show ?case
  proof (cases "get16 (rec ! 0) (rec ! 1) = framedFillerMarker")
    case True
    with "1.prems" g have "readRecord r2 = (Inr d, r)"
      by (subst (asm) readRecord.simps) (auto simp: h b Let_def framed_consts split: if_splits)
    then have "length r + length d < length r2"
      using "1.IH" [OF h [symmetric] refl _ refl _ b [symmetric] refl refl _ True] g True
      by (auto simp: framed_consts)
    then show ?thesis using len by simp
  next
    case False
    with "1.prems" g show ?thesis
      by (subst (asm) readRecord.simps) (auto simp: h b Let_def len split: if_splits)
  qed
qed


section \<open>Well-formed knobs\<close>

definition knobs_ok :: "ShapeKnobs \<Rightarrow> bool" where
  "knobs_ok k \<longleftrightarrow>
     0 \<le> sint (sk_records k) \<and> sint (sk_records k) \<le> 64 \<and>
     0 \<le> sint (sk_min k) \<and> sint (sk_min k) \<le> sint (sk_max k) \<and> sint (sk_max k) \<le> int framedMaxData \<and>
     0 \<le> sint (sk_fillInterval k) \<and> sint (sk_fillInterval k) \<le> 60000 \<and>
     0 \<le> sint (sk_fillMin k) \<and> sint (sk_fillMin k) \<le> sint (sk_fillMax k) \<and>
     sint (sk_fillMax k) \<le> int framedMaxData \<and>
     0 \<le> sint (sk_chunkMax k) \<and> sint (sk_chunkMax k) \<le> int framedMaxData \<and>
     (0 < sint (sk_chunkMax k) \<longrightarrow>
        0 \<le> sint (sk_chunkMin k) \<and> sint (sk_chunkMin k) \<le> sint (sk_chunkMax k))"

lemma sint_store32: "- (2 ^ 31) \<le> i \<Longrightarrow> i < 2 ^ 31 \<Longrightarrow> sint (word_of_int i :: 32 word) = i"
  by (simp add: signed_of_int signed_take_bit_int_eq_self)

lemma chunkDefaults_range:
  "chunkDefaults env = (lo, hi) \<Longrightarrow>
     0 \<le> hi \<and> hi \<le> int framedMaxData \<and> 0 \<le> lo \<and> (0 < hi \<longrightarrow> lo \<le> hi)"
  by (auto simp: chunkDefaults_def Let_def framed_consts split: if_splits option.splits prod.splits)

lemma newShapeKnobs_ok: "knobs_ok (newShapeKnobs env)"
proof -
  obtain lo hi where c: "chunkDefaults env = (lo, hi)" by fastforce
  from chunkDefaults_range [OF c] show ?thesis
    by (auto simp: newShapeKnobs_def knobs_ok_def c framed_consts sint_store32)
qed

lemma SetShape_ok: "knobs_ok k \<Longrightarrow> SetShape r mn mx k = Inr k' \<Longrightarrow> knobs_ok k'"
  by (auto simp: SetShape_def knobs_ok_def framed_consts sint_store32 split: if_splits)

lemma SetFiller_ok: "knobs_ok k \<Longrightarrow> SetFiller idle iv mn mx k = Inr k' \<Longrightarrow> knobs_ok k'"
  by (auto simp: SetFiller_def knobs_ok_def framed_consts sint_store32 split: if_splits)

lemma SetChunk_ok: "knobs_ok k \<Longrightarrow> SetChunk mn mx k = Inr k' \<Longrightarrow> knobs_ok k'"
  by (auto simp: SetChunk_def knobs_ok_def framed_consts sint_store32 split: if_splits)

section \<open>What the writer puts on the wire\<close>

lemma length_shape_pad: "shape_pad n g = (p, g') \<Longrightarrow> length p = n"
proof (induction n g arbitrary: p g' rule: shape_pad.induct)
  case (1 n g)
  show ?case
  proof (cases "n = 0")
    case False
    obtain w g1 where w: "rng_draw g = (w, g1)" by fastforce
    obtain q g2 where q: "shape_pad (n - 8) g1 = (q, g2)" by fastforce
    have "length q = n - 8" using "1.IH" [OF False w [symmetric] refl q] by simp
    moreover have "p = take n (put64 (of_nat w)) @ q"
      using "1.prems" False w q by (subst (asm) shape_pad.simps) (simp add: Let_def)
    ultimately show ?thesis by simp
  qed (use "1.prems" in \<open>simp add: shape_pad.simps\<close>)
qed

lemma AppendShapePad_spec:
  assumes "0 \<le> n" "AppendShapePad out n g = (out', g')"
  shows "\<exists>p. out' = out @ p \<and> int (length p) = n"
  using assms by (auto simp: AppendShapePad_def split: if_splits prod.splits dest!: length_shape_pad)

lemma ShapePadLen_range:
  "knobs_ok k \<Longrightarrow> 0 \<le> room \<Longrightarrow> ShapePadLen k g room = (p, g') \<Longrightarrow> 0 \<le> p \<and> p \<le> room"
  by (auto simp: ShapePadLen_def knobs_ok_def Let_def split: if_splits prod.splits
      dest!: rng_intn_range [rotated])

definition budget :: "FramedConn \<Rightarrow> nat" where
  "budget c = (case fc_pad c of None \<Rightarrow> 0 | Some v \<Rightarrow> nat v)"

lemma budget_take_spec:
  "budget_take b = (tk, b') \<Longrightarrow>
     (case b of None \<Rightarrow> 0 | Some v \<Rightarrow> nat v) = (case b' of None \<Rightarrow> 0 | Some v \<Rightarrow> nat v) + of_bool tk"
  by (auto simp: budget_take_def split: option.splits if_splits)

lemma write_record_spec:
  assumes k: "knobs_ok k" and b: "b \<noteq> []" and w: "write_record k c b = (c', n, e)"
  obtains p g v where
    "c' = c\<lparr>fc_out := fst (conn_write (fc_out c) (data_rec (take n b) p)), fc_pad := v, fc_rng := g\<rparr>"
    "e = snd (conn_write (fc_out c) (data_rec (take n b) p))"
    "rec_ok (take n b) p" "budget c' + of_bool (p \<noteq> []) \<le> budget c"
proof -
  obtain m0 g1 where m0: "chunkLen k (fc_rng c) (int (length b)) = (m0, g1)" by fastforce
  define m where "m = (if m0 > int framedMaxData then int framedMaxData else m0)"
  obtain tk v where tk: "budget_take (fc_pad c) = (tk, v)" by fastforce
  obtain pad g2 where pad: "(if tk then ShapePadLen k g1 (int framedMaxData - m) else (0, g1)) = (pad, g2)"
    by fastforce
  obtain out g3 where out: "AppendShapePad (record_head (word_of_int (2 + m + pad)) (word_of_int m)
      @ take (nat m) b) pad g2 = (out, g3)" by fastforce
  have m0r: "1 \<le> m0 \<and> m0 \<le> int (length b)" using chunkLen_range [OF m0] b by (cases b) auto
  then have m: "1 \<le> m" "m \<le> int (length b)" "m \<le> int framedMaxData" by (auto simp: m_def framed_consts)
  have padr: "0 \<le> pad" "pad \<le> int framedMaxData - m" "\<not> tk \<Longrightarrow> pad = 0"
    using pad m ShapePadLen_range [OF k, of "int framedMaxData - m" g1 pad g2]
    by (auto split: if_splits)
  have eq: "write_record k c b = (let (w, e) = conn_write (fc_out c) out
      in (c\<lparr>fc_out := w, fc_pad := v, fc_rng := g3\<rparr>, nat m, e))"
    by (simp only: write_record_def Let_def m0 prod.case m_def [symmetric] tk pad out)
  have n: "n = nat m" and c': "c' = c\<lparr>fc_out := fst (conn_write (fc_out c) out), fc_pad := v, fc_rng := g3\<rparr>"
    and e: "e = snd (conn_write (fc_out c) out)"
    using w unfolding eq by (auto split: prod.splits)
  obtain p where p: "out = (record_head (word_of_int (2 + m + pad)) (word_of_int m) @ take n b) @ p"
    "int (length p) = pad" using AppendShapePad_spec [OF padr(1) out] n by blast
  have len: "length (take n b) = n" using m n by simp
  have "2 + m + pad = int (2 + length (take n b) + length p)" using len n m p by simp
  then have "out = data_rec (take n b) p" using p(1) len n m by (simp add: data_rec_def add.assoc)
  moreover have "rec_ok (take n b) p" using m padr p(2) len n by (simp add: rec_ok_def)
  moreover have "budget c' + of_bool (p \<noteq> []) \<le> budget c"
    using budget_take_spec [OF tk] padr(3) p(2) by (cases tk) (auto simp: budget_def c')
  ultimately show ?thesis using that c' e by blast
qed

text \<open>
  The wire after a \<^verbatim>\<open>Write\<close>, failing or not: complete records that carry exactly the bytes
  reported as sent, then possibly a piece of the record whose write failed.
\<close>

definition recs_ok :: "(bytes \<times> bytes) list \<Rightarrow> bool" where
  "recs_ok rs \<longleftrightarrow> (\<forall>(d, p) \<in> set rs. rec_ok d p \<and> d \<noteq> [])"

definition recs_wire :: "(bytes \<times> bytes) list \<Rightarrow> bytes" where
  "recs_wire rs = concat (map (\<lambda>(d, p). data_rec d p) rs)"

definition recs_data :: "(bytes \<times> bytes) list \<Rightarrow> bytes" where
  "recs_data rs = concat (map fst rs)"

definition recs_padded :: "(bytes \<times> bytes) list \<Rightarrow> nat" where
  "recs_padded rs = length (filter (\<lambda>(d, p). p \<noteq> []) rs)"

lemmas recs_simps = recs_ok_def recs_wire_def recs_data_def recs_padded_def

lemma conn_write_wire:
  "wire (fst (conn_write w b)) = wire w @ (case wfail w (wcount w) of None \<Rightarrow> b | Some (e, j) \<Rightarrow> take j b)"
  "snd (conn_write w b) = map_option fst (wfail w (wcount w))"
  "wfail (fst (conn_write w b)) = wfail w" "wcount (fst (conn_write w b)) = Suc (wcount w)"
  by (auto simp: conn_write_def split: option.splits)

lemma write_loop_spec:
  assumes "knobs_ok k" and "write_loop k c b s = (c', s', e)"
  shows "\<exists>rs tail. wire (fc_out c') = wire (fc_out c) @ recs_wire rs @ tail \<and> recs_ok rs \<and>
      s \<le> s' \<and> recs_data rs = take (s' - s) b \<and> s' - s \<le> length b \<and>
      budget c' + recs_padded rs \<le> budget c \<and>
      (e = None \<longrightarrow> tail = [] \<and> s' = s + length b) \<and>
      (e \<noteq> None \<longrightarrow> (\<exists>d p j. rec_ok d p \<and> tail = take j (data_rec d p)))"
  using assms
proof (induction k c b s arbitrary: c' s' e rule: write_loop.induct)
  case (1 k c b s)
  show ?case
  proof (cases "b = []")
    case True
    then show ?thesis using "1.prems" by (subst (asm) write_loop.simps) (auto simp: recs_simps intro!: exI [of _ "[]"])
  next
    case False
    obtain c1 n e1 where w: "write_record k c b = (c1, n, e1)" by (cases "write_record k c b") auto
    obtain p g v where c1: "c1 = c\<lparr>fc_out := fst (conn_write (fc_out c) (data_rec (take n b) p)), fc_pad := v, fc_rng := g\<rparr>"
      and e1: "e1 = snd (conn_write (fc_out c) (data_rec (take n b) p))"
      and ok: "rec_ok (take n b) p" and bud: "budget c1 + of_bool (p \<noteq> []) \<le> budget c"
      using write_record_spec [OF "1.prems"(1) False w] by metis
    have n: "0 < n" "n \<le> length b" using write_record_takes [OF w False] by auto
    show ?thesis
    proof (cases e1)
      case None
      have wire1: "wire (fc_out c1) = wire (fc_out c) @ data_rec (take n b) p"
        using e1 None by (simp add: c1 conn_write_wire split: option.splits)
      have "write_loop k c1 (drop n b) (s + n) = (c', s', e)"
        using "1.prems"(2) False w None by (subst (asm) write_loop.simps) simp
      from "1.IH" [OF False w [symmetric] refl refl None "1.prems"(1) this]
      obtain rs tail where r: "wire (fc_out c') = wire (fc_out c1) @ recs_wire rs @ tail" "recs_ok rs"
        "s + n \<le> s'" "recs_data rs = take (s' - (s + n)) (drop n b)" "s' - (s + n) \<le> length (drop n b)"
        "budget c' + recs_padded rs \<le> budget c1"
        "e = None \<longrightarrow> tail = [] \<and> s' = s + n + length (drop n b)"
        "e \<noteq> None \<longrightarrow> (\<exists>d p j. rec_ok d p \<and> tail = take j (data_rec d p))"
        by (elim exE conjE) (rule that, assumption+)
      have "take n b @ recs_data rs = take (s' - s) b"
        using r(3,4) n(2) by (simp flip: take_add)
      moreover have "recs_ok ((take n b, p) # rs)" using r(2) ok n False by (auto simp: recs_ok_def)
      moreover have "recs_wire ((take n b, p) # rs) = data_rec (take n b) p @ recs_wire rs"
        "recs_padded ((take n b, p) # rs) = of_bool (p \<noteq> []) + recs_padded rs"
        "recs_data ((take n b, p) # rs) = take n b @ recs_data rs"
        by (auto simp: recs_simps)
      ultimately show ?thesis
        using r n wire1 bud by (intro exI [of _ "(take n b, p) # rs"] exI [of _ tail]) auto
    next
      case (Some err)
      have r: "c' = c1" "s' = s" "e = Some err"
        using "1.prems"(2) False w Some by (subst (asm) write_loop.simps; simp)+
      obtain j where "wire (fc_out c1) = wire (fc_out c) @ take j (data_rec (take n b) p)"
        using e1 Some by (cases "wfail (fc_out c) (wcount (fc_out c))") (auto simp: c1 conn_write_wire)
      then show ?thesis using r ok bud
        by (intro exI [of _ "[]"] exI [of _ "take j (data_rec (take n b) p)"]) (auto simp: recs_simps)
    qed
  qed
qed

section \<open>Records as a framing\<close>

text \<open>
  A message on the wire is a data record with the fillers the filler goroutine slipped in
  before it; the receiver sees the data only.
\<close>

type_synonym fmsg = "bytes list \<times> bytes \<times> bytes"

definition fmsg_enc :: "fmsg \<Rightarrow> bytes" where
  "fmsg_enc m = (case m of (fs, d, p) \<Rightarrow> concat (map filler_rec fs) @ data_rec d p)"

definition fmsg_ok :: "fmsg \<Rightarrow> bool" where
  "fmsg_ok m = (case m of (fs, d, p) \<Rightarrow> (\<forall>f \<in> set fs. length f \<le> framedMaxData) \<and> rec_ok d p)"

definition fmsg_data :: "fmsg \<Rightarrow> bytes" where
  "fmsg_data m = fst (snd m)"

definition record_dec :: "bytes \<Rightarrow> (bytes \<times> bytes) option" where
  "record_dec bs = (case readRecord bs of (Inr d, r) \<Rightarrow> Some (d, r) | (Inl _, _) \<Rightarrow> None)"

lemma readRecord_fillers:
  "\<forall>f \<in> set fs. length f \<le> framedMaxData \<Longrightarrow> readRecord (concat (map filler_rec fs) @ r) = readRecord r"
  by (induction fs) (auto simp: readRecord_filler)

lemma readRecord_fmsg: "fmsg_ok m \<Longrightarrow> readRecord (fmsg_enc m @ r) = (Inr (fmsg_data m), r)"
  by (cases m) (auto simp: fmsg_ok_def fmsg_enc_def fmsg_data_def readRecord_fillers readRecord_data)

interpretation records: framing fmsg_enc record_dec fmsg_ok fmsg_data
proof unfold_locales
  fix m r assume "fmsg_ok m"
  then show "record_dec (fmsg_enc m @ r) = Some (fmsg_data m, r)"
    by (simp add: record_dec_def readRecord_fmsg)
next
  fix bs d r assume "record_dec bs = Some (d, r)"
  then have "readRecord bs = (Inr d, r)"
    by (auto simp: record_dec_def split: prod.splits sum.splits)
  then show "length r < length bs" using readRecord_progress by fastforce
qed

section \<open>Reading a whole stream\<close>

text \<open>\<^verbatim>\<open>io.ReadAll\<close> over \<^verbatim>\<open>Read\<close> with a buffer of \<open>cap\<close> bytes: what was read and the final error.\<close>

lemma framed_Read_measure:
  assumes "framed_Read cap c = (c', Inr d)" and "0 < cap"
  shows "length (fc_in c') + length (fc_rbuf c') < length (fc_in c) + length (fc_rbuf c)"
proof (cases "fc_rbuf c = []")
  case True
  with assms obtain data r where rr: "readRecord (fc_in c) = (Inr data, r)" and ne: "data \<noteq> []"
    and c': "c' = c\<lparr>fc_in := r, fc_rbuf := drop cap data\<rparr>"
    by (auto simp: framed_Read_def split: if_splits prod.splits sum.splits)
  show ?thesis using readRecord_progress [OF rr] by (simp add: c' True)
next
  case False
  with assms have c': "c' = c\<lparr>fc_rbuf := drop cap (fc_rbuf c)\<rparr>" by (auto simp: framed_Read_def)
  show ?thesis using False assms(2) by (cases "fc_rbuf c") (auto simp: c')
qed

function drain :: "nat \<Rightarrow> FramedConn \<Rightarrow> bytes \<times> go_error \<times> FramedConn" where
  "drain cap c =
     (case framed_Read cap c of
        (c', Inl e) \<Rightarrow> ([], e, c')
      | (c', Inr d) \<Rightarrow> if cap = 0 then ([], ErrUnexpectedEOF, c') else
          let (ds, e, c'') = drain cap c' in (d @ ds, e, c''))"
  by pat_completeness auto
termination
  by (relation "measure (\<lambda>(cap, c). length (fc_in c) + length (fc_rbuf c))")
    (auto dest!: sym [THEN framed_Read_measure])

declare drain.simps [simp del]

lemma rbuf_empty [simp]: "fc_rbuf c = [] \<Longrightarrow> c\<lparr>fc_rbuf := []\<rparr> = c"
  by (cases c) simp

lemma drain_rbuf:
  assumes "0 < cap"
  shows "drain cap c = (fc_rbuf c @ fst (drain cap (c\<lparr>fc_rbuf := []\<rparr>)), snd (drain cap (c\<lparr>fc_rbuf := []\<rparr>)))"
proof (induction "length (fc_rbuf c)" arbitrary: c rule: less_induct)
  case less
  show ?case
  proof (cases "fc_rbuf c = []")
    case False
    let ?c = "c\<lparr>fc_rbuf := drop cap (fc_rbuf c)\<rparr>"
    have "drain cap c = (take cap (fc_rbuf c) @ fst (drain cap ?c), snd (drain cap ?c))"
      using False assms by (subst drain.simps) (simp add: framed_Read_def split: prod.splits)
    also have "length (fc_rbuf ?c) < length (fc_rbuf c)" using False assms by (cases "fc_rbuf c") auto
    note less [OF this]
    finally show ?thesis by simp
  qed simp
qed

lemma drain_fmsg:
  assumes "0 < cap" and "fmsg_ok m" and "fmsg_data m \<noteq> []" and "fc_rbuf c = []" and "\<not> fc_done c"
    and "fc_in c = fmsg_enc m @ r"
  shows "drain cap c = (fmsg_data m @ fst (drain cap (c\<lparr>fc_in := r\<rparr>)), snd (drain cap (c\<lparr>fc_in := r\<rparr>)))"
proof -
  let ?d = "fmsg_data m" and ?c = "c\<lparr>fc_in := r, fc_rbuf := drop cap (fmsg_data m)\<rparr>"
  have "drain cap c = (take cap ?d @ fst (drain cap ?c), snd (drain cap ?c))"
    using assms by (subst drain.simps) (simp add: framed_Read_def readRecord_fmsg split: prod.splits)
  also have "drain cap ?c = (drop cap ?d @ fst (drain cap (c\<lparr>fc_in := r\<rparr>)), snd (drain cap (c\<lparr>fc_in := r\<rparr>)))"
    using drain_rbuf [OF assms(1), of ?c] rbuf_empty [of "c\<lparr>fc_in := r\<rparr>"] assms(4) by simp
  finally show ?thesis by simp
qed

lemma drain_stream:
  assumes "0 < cap" and "fc_rbuf c = []" and "\<not> fc_done c"
    and "\<forall>m \<in> set ms. fmsg_ok m \<and> fmsg_data m \<noteq> []" and "fmsg_ok z" and "fmsg_data z = []"
    and "fc_in c = concat (map fmsg_enc ms) @ fmsg_enc z @ r"
  shows "drain cap c = (concat (map fmsg_data ms), EOF, c\<lparr>fc_in := r, fc_done := True\<rparr>)"
  using assms
proof (induction ms arbitrary: c)
  case Nil
  then show ?case by (subst drain.simps) (simp add: framed_Read_def readRecord_fmsg)
next
  case (Cons m ms)
  then have "drain cap c = (fmsg_data m @ fst (drain cap (c\<lparr>fc_in := concat (map fmsg_enc ms) @ fmsg_enc z @ r\<rparr>)),
      snd (drain cap (c\<lparr>fc_in := concat (map fmsg_enc ms) @ fmsg_enc z @ r\<rparr>)))"
    by (intro drain_fmsg) auto
  with Cons show ?case by simp
qed

text \<open>The same stream handed over to the raw socket: what follows the switch is left unread.\<close>

lemma drain_switch:
  assumes "0 < cap" and "fc_rbuf c = []" and "\<not> fc_done c"
    and "\<forall>m \<in> set ms. fmsg_ok m \<and> fmsg_data m \<noteq> []" and "\<forall>f \<in> set fs. length f \<le> framedMaxData"
    and "length p \<le> framedMaxData"
    and "fc_in c = concat (map fmsg_enc ms) @ concat (map filler_rec fs) @ switch_rec p @ r"
  shows "drain cap c = (concat (map fmsg_data ms), ErrSwitchRaw, c\<lparr>fc_in := r\<rparr>)"
  using assms
proof (induction ms arbitrary: c)
  case Nil
  then show ?case
    by (subst drain.simps) (simp add: framed_Read_def readRecord_fillers readRecord_switch)
next
  case (Cons m ms)
  let ?c = "c\<lparr>fc_in := concat (map fmsg_enc ms) @ concat (map filler_rec fs) @ switch_rec p @ r\<rparr>"
  have "drain cap c = (fmsg_data m @ fst (drain cap ?c), snd (drain cap ?c))"
    using Cons.prems by (intro drain_fmsg) auto
  with Cons show ?case by simp
qed

section \<open>Runs of the writer\<close>

text \<open>
  What happens to the write half of a connection: calls of \<^verbatim>\<open>Write\<close> (under the knobs of the
  moment) interleaved with records of the filler goroutine; both hold the write lock.
\<close>

datatype fevent = EvWrite ShapeKnobs int bytes | EvFiller int

fun run_event :: "fevent \<Rightarrow> FramedConn \<Rightarrow> FramedConn" where
  "run_event (EvWrite k now b) c = fst (framed_Write k now b c)"
| "run_event (EvFiller pad) c = fst (writeFiller pad c)"

definition run_writer :: "fevent list \<Rightarrow> FramedConn \<Rightarrow> FramedConn" where
  "run_writer evs c = fold run_event evs c"

fun event_data :: "fevent \<Rightarrow> bytes" where
  "event_data (EvWrite k now b) = b"
| "event_data (EvFiller pad) = []"

fun event_ok :: "fevent \<Rightarrow> bool" where
  "event_ok (EvWrite k now b) = knobs_ok k"
| "event_ok (EvFiller pad) = (0 \<le> pad \<and> pad \<le> int framedMaxData)"

definition writable :: "FramedConn \<Rightarrow> bool" where
  "writable c \<longleftrightarrow> \<not> fc_ended c \<and> (\<forall>i. wfail (fc_out c) i = None)"

lemma write_record_frame:
  "write_record k c b = (c', n, e) \<Longrightarrow> wfail (fc_out c') = wfail (fc_out c) \<and> fc_ended c' = fc_ended c \<and>
     ((\<forall>i. wfail (fc_out c) i = None) \<longrightarrow> e = None)"
  by (auto simp: write_record_def Let_def conn_write_def split: prod.splits option.splits)

lemma write_loop_frame:
  "write_loop k c b s = (c', s', e) \<Longrightarrow> wfail (fc_out c') = wfail (fc_out c) \<and> fc_ended c' = fc_ended c \<and>
     ((\<forall>i. wfail (fc_out c) i = None) \<longrightarrow> e = None)"
proof (induction k c b s arbitrary: c' s' e rule: write_loop.induct)
  case (1 k c b s)
  show ?case
  proof (cases "b = []")
    case False
    obtain c1 n e1 where w: "write_record k c b = (c1, n, e1)" by (cases "write_record k c b") auto
    note f = write_record_frame [OF w]
    show ?thesis
    proof (cases e1)
      case None
      then have "write_loop k c1 (drop n b) (s + n) = (c', s', e)"
        using "1.prems" False w by (subst (asm) write_loop.simps) simp
      from "1.IH" [OF False w [symmetric] refl refl None this] f show ?thesis by simp
    qed (use "1.prems" False w f in \<open>subst (asm) write_loop.simps, auto\<close>)
  qed (use "1.prems" in \<open>subst (asm) write_loop.simps, simp\<close>)
qed

lemma armFiller_frame [simp]:
  "fc_out (armFiller k c) = fc_out c" "fc_ended (armFiller k c) = fc_ended c"
  "fc_pad (armFiller k c) = fc_pad c" "budget (armFiller k c) = budget c"
  by (auto simp: armFiller_def budget_def split: prod.splits)

lemma framed_Write_spec:
  assumes "knobs_ok k" and "framed_Write k now b c = (c', n, e)" and "\<not> fc_ended c"
  shows "\<exists>rs tail. wire (fc_out c') = wire (fc_out c) @ recs_wire rs @ tail \<and> recs_ok rs \<and>
      recs_data rs = take n b \<and> n \<le> length b \<and> budget c' + recs_padded rs \<le> budget c \<and>
      (e = None \<longrightarrow> tail = [] \<and> n = length b) \<and>
      (e \<noteq> None \<longrightarrow> (\<exists>d p j. rec_ok d p \<and> tail = take j (data_rec d p)))"
proof -
  let ?c = "c\<lparr>fc_batch := True, fc_lastWrite := now\<rparr>"
  have "write_loop k (armFiller k ?c) b 0 = (c', n, e)"
    using assms(2,3) by (simp add: framed_Write_def)
  note write_loop_spec [OF assms(1) this]
  then show ?thesis by (simp add: budget_def)
qed

lemma framed_Write_writable:
  assumes "knobs_ok k" and "writable c" and "framed_Write k now b c = (c', n, e)"
  obtains rs where "wire (fc_out c') = wire (fc_out c) @ recs_wire rs" "recs_ok rs" "recs_data rs = b"
    "e = None" "n = length b" "writable c'"
proof -
  have ne: "\<not> fc_ended c" using assms(2) by (simp add: writable_def)
  then have "write_loop k (armFiller k (c\<lparr>fc_batch := True, fc_lastWrite := now\<rparr>)) b 0 = (c', n, e)"
    using assms(3) by (simp add: framed_Write_def)
  from write_loop_frame [OF this] have "e = None" "writable c'"
    using assms(2) by (auto simp: writable_def)
  with framed_Write_spec [OF assms(1,3) ne] that show ?thesis by force
qed

lemma writeFiller_writable:
  assumes "0 \<le> pad" "pad \<le> int framedMaxData" "writable c"
  obtains p where "wire (fc_out (fst (writeFiller pad c))) = wire (fc_out c) @ filler_rec p"
    "length p \<le> framedMaxData" "writable (fst (writeFiller pad c))"
proof -
  obtain out g where out: "AppendShapePad (record_head (word_of_int (2 + pad)) framedFillerMarker) pad (fc_rng c) = (out, g)"
    by fastforce
  obtain p where p: "out = record_head (word_of_int (2 + pad)) framedFillerMarker @ p" "int (length p) = pad"
    using AppendShapePad_spec [OF assms(1) out] by blast
  have "out = filler_rec p" unfolding p(1) filler_rec_def p(2) [symmetric] by simp
  moreover have "length p \<le> framedMaxData" using p(2) assms(2) by simp
  ultimately show ?thesis
    using that assms(3) out
    by (auto simp: writeFiller_def WriteFillerRecord_def writable_def conn_write_def)
qed

lemma concat_fmsg_plain: "concat (map fmsg_enc (map (\<lambda>(d, p). ([], d, p)) rs)) = recs_wire rs"
  "concat (map fmsg_data (map (\<lambda>(d, p). ([], d, p)) rs)) = recs_data rs"
  by (induction rs) (auto simp: recs_simps fmsg_enc_def fmsg_data_def)

lemma run_event_stream:
  assumes "event_ok ev" and "writable c" and "\<forall>f \<in> set fs. length f \<le> framedMaxData"
  obtains ms fs' delta where "wire (fc_out (run_event ev c)) = wire (fc_out c) @ delta"
    "concat (map filler_rec fs) @ delta = concat (map fmsg_enc ms) @ concat (map filler_rec fs')"
    "\<forall>m \<in> set ms. fmsg_ok m \<and> fmsg_data m \<noteq> []" "\<forall>f \<in> set fs'. length f \<le> framedMaxData"
    "concat (map fmsg_data ms) = event_data ev" "writable (run_event ev c)"
proof (cases ev)
  case (EvFiller pad)
  obtain p where p: "wire (fc_out (fst (writeFiller pad c))) = wire (fc_out c) @ filler_rec p"
    "length p \<le> framedMaxData" "writable (fst (writeFiller pad c))"
    using writeFiller_writable [OF _ _ assms(2)] assms(1) EvFiller by auto
  show ?thesis
    using that [of "filler_rec p" "[]" "fs @ [p]"] p assms(3) EvFiller by auto
next
  case (EvWrite k now b)
  obtain c' n e where w: "framed_Write k now b c = (c', n, e)" by (cases "framed_Write k now b c") auto
  obtain rs where rs: "wire (fc_out c') = wire (fc_out c) @ recs_wire rs" "recs_ok rs" "recs_data rs = b"
    "writable c'" using framed_Write_writable [OF _ assms(2) w] assms(1) EvWrite by auto
  show ?thesis
  proof (cases rs)
    case Nil
    then show ?thesis using that [of "[]" "[]" fs] rs w EvWrite assms(3) by (simp add: recs_simps)
  next
    case (Cons r rs')
    obtain d p where r: "r = (d, p)" by (cases r)
    let ?ms = "(fs, d, p) # map (\<lambda>(d, p). ([], d, p)) rs'"
    have "\<forall>m \<in> set ?ms. fmsg_ok m \<and> fmsg_data m \<noteq> []"
      using rs(2) assms(3) Cons r by (auto simp: recs_ok_def fmsg_ok_def fmsg_data_def)
    moreover have "concat (map filler_rec fs) @ recs_wire rs = concat (map fmsg_enc ?ms)"
      using Cons r concat_fmsg_plain(1) [of rs'] by (simp add: recs_wire_def fmsg_enc_def)
    moreover have "concat (map fmsg_data ?ms) = b"
      using Cons r rs(3) concat_fmsg_plain(2) [of rs'] by (simp add: recs_data_def fmsg_data_def)
    ultimately show ?thesis using that [of "recs_wire rs" ?ms "[]"] rs w EvWrite by simp
  qed
qed

lemma run_writer_stream:
  assumes "\<forall>ev \<in> set evs. event_ok ev" and "writable c" and "\<forall>f \<in> set fs. length f \<le> framedMaxData"
  shows "\<exists>ms fs' delta. wire (fc_out (run_writer evs c)) = wire (fc_out c) @ delta \<and>
    concat (map filler_rec fs) @ delta = concat (map fmsg_enc ms) @ concat (map filler_rec fs') \<and>
    (\<forall>m \<in> set ms. fmsg_ok m \<and> fmsg_data m \<noteq> []) \<and> (\<forall>f \<in> set fs'. length f \<le> framedMaxData) \<and>
    concat (map fmsg_data ms) = concat (map event_data evs) \<and> writable (run_writer evs c)"
  using assms
proof (induction evs arbitrary: c fs)
  case Nil
  then show ?case
    by (intro exI [of _ "[]"] exI [of _ fs]) (auto simp: run_writer_def)
next
  case (Cons ev evs)
  obtain ms1 fs1 d1 where 1: "wire (fc_out (run_event ev c)) = wire (fc_out c) @ d1"
    "concat (map filler_rec fs) @ d1 = concat (map fmsg_enc ms1) @ concat (map filler_rec fs1)"
    "\<forall>m \<in> set ms1. fmsg_ok m \<and> fmsg_data m \<noteq> []" "\<forall>f \<in> set fs1. length f \<le> framedMaxData"
    "concat (map fmsg_data ms1) = event_data ev" "writable (run_event ev c)"
    using run_event_stream [of ev c fs] Cons.prems by (metis list.set_intros(1))
  obtain ms2 fs2 d2 where 2: "wire (fc_out (run_writer evs (run_event ev c))) = wire (fc_out (run_event ev c)) @ d2"
    "concat (map filler_rec fs1) @ d2 = concat (map fmsg_enc ms2) @ concat (map filler_rec fs2)"
    "\<forall>m \<in> set ms2. fmsg_ok m \<and> fmsg_data m \<noteq> []" "\<forall>f \<in> set fs2. length f \<le> framedMaxData"
    "concat (map fmsg_data ms2) = concat (map event_data evs)" "writable (run_writer evs (run_event ev c))"
    using Cons.IH [OF _ 1(6,4)] Cons.prems(1) by (metis list.set_intros(2))
  have "run_writer (ev # evs) c = run_writer evs (run_event ev c)" by (simp add: run_writer_def)
  moreover have "concat (map filler_rec fs) @ d1 @ d2 =
      concat (map fmsg_enc (ms1 @ ms2)) @ concat (map filler_rec fs2)"
    using 1(2) 2(2) by (metis append_assoc concat_append map_append)
  ultimately show ?case
    using 1 2 by (intro exI [of _ "ms1 @ ms2"] exI [of _ fs2] exI [of _ "d1 @ d2"]) auto
qed

lemma writeMarker_writable:
  assumes "knobs_ok k" and "\<forall>i. wfail (fc_out c) i = None" and "writeMarker k l c = (c', e)"
  obtains p where "wire (fc_out c') = wire (fc_out c) @ record_head (of_nat (2 + length p)) l @ p"
    "length p \<le> framedMaxData" "e = None"
proof -
  obtain tk bud where tk: "budget_take (fc_pad c) = (tk, bud)" by fastforce
  obtain pad g where pad: "(if tk then ShapePadLen k (fc_rng c) (int framedMaxData) else (0, fc_rng c)) = (pad, g)"
    by fastforce
  obtain out g' where out: "AppendShapePad (record_head (word_of_int (2 + pad)) l) pad g = (out, g')" by fastforce
  have padr: "0 \<le> pad" "pad \<le> int framedMaxData"
    using pad ShapePadLen_range [OF assms(1), of "int framedMaxData" "fc_rng c" pad g] by (auto split: if_splits)
  obtain p where p: "out = record_head (word_of_int (2 + pad)) l @ p" "int (length p) = pad"
    using AppendShapePad_spec [OF padr(1) out] by blast
  have "out = record_head (of_nat (2 + length p)) l @ p" unfolding p(1) p(2) [symmetric] by simp
  moreover have "writeMarker k l c = (c\<lparr>fc_out := fst (conn_write (fc_out c) out), fc_pad := bud, fc_rng := g'\<rparr>,
      snd (conn_write (fc_out c) out))"
    by (simp only: writeMarker_def Let_def tk pad out prod.case) (simp split: prod.splits)
  moreover have "length p \<le> framedMaxData" using padr(2) p(2) by simp
  ultimately show ?thesis using that assms(2,3) by (auto simp: conn_write_wire)
qed

section \<open>Properties\<close>

text \<open>
  C1: Whatever sizes and padding the knobs and the random draws choose, and however the
  filler goroutine interleaves with the writer, a peer that reads the stream with any buffer
  size gets exactly the bytes handed to \<^verbatim>\<open>Write\<close>, in order, then EOF, and leaves the bytes
  after the end marker unread for the next stream on the connection.
\<close>

theorem framed_stream_roundtrip:
  assumes "0 < cap" and "writable c" and "wire (fc_out c) = []"
    and "\<forall>ev \<in> set evs. event_ok ev" and "knobs_ok k"
    and "EndStream k (run_writer evs c) = (c2, e)"
    and "fc_rbuf r = []" and "\<not> fc_done r" and "fc_in r = wire (fc_out c2) @ rest"
  shows "e = None \<and>
    drain cap r = (concat (map event_data evs), EOF, r\<lparr>fc_in := rest, fc_done := True\<rparr>)"
proof -
  obtain ms fs where w: "wire (fc_out (run_writer evs c)) = concat (map fmsg_enc ms) @ concat (map filler_rec fs)"
    "\<forall>m \<in> set ms. fmsg_ok m \<and> fmsg_data m \<noteq> []" "\<forall>f \<in> set fs. length f \<le> framedMaxData"
    "concat (map fmsg_data ms) = concat (map event_data evs)" "writable (run_writer evs c)"
    using run_writer_stream [OF assms(4,2), of "[]"] assms(3) by auto
  let ?c1 = "run_writer evs c\<lparr>fc_ended := True\<rparr>"
  obtain c' e' where m: "writeMarker k 0 ?c1 = (c', e')" by fastforce
  obtain p where p: "wire (fc_out c') = wire (fc_out ?c1) @ record_head (of_nat (2 + length p)) 0 @ p"
    "length p \<le> framedMaxData" "e' = None"
    using writeMarker_writable [OF assms(5) _ m] w(5) by (auto simp: writable_def)
  have c2: "wire (fc_out c2) = wire (fc_out c')" "e = None"
    using assms(6) w(5) m p(3) by (auto simp: EndStream_def writable_def releaseBatch_def)
  have "fc_in r = concat (map fmsg_enc ms) @ fmsg_enc (fs, [], p) @ rest"
    using assms(9) c2 p(1) w(1) by (simp add: fmsg_enc_def data_rec_def)
  moreover have "fmsg_ok (fs, [], p)" "fmsg_data (fs, [], p) = []"
    using w(3) p(2) by (simp_all add: fmsg_ok_def rec_ok_def fmsg_data_def)
  ultimately show ?thesis using drain_stream [OF assms(1,7,8) w(2)] w(4) c2(2) by simp
qed

definition demo_knobs :: ShapeKnobs where "demo_knobs = newShapeKnobs ''2-4''"

definition demo_conn :: "bytes \<Rightarrow> FramedConn" where
  "demo_conn inp = NewFramedConn demo_knobs \<lparr>wire = [], wcount = 0, wfail = \<lambda>_. None\<rparr> inp
     (NewShapeBudget demo_knobs) 0 \<lparr>src = \<lambda>i. 7 * i + 3, pos = 0\<rparr>"

lemma demo_conn_writable: "writable (demo_conn inp)" "wire (fc_out (demo_conn inp)) = []"
  "fc_rbuf (demo_conn inp) = []" "\<not> fc_done (demo_conn inp)" "fc_in (demo_conn inp) = inp"
  "\<not> fc_ended (demo_conn inp)"
  by (auto simp: demo_conn_def NewFramedConn_def writable_def armFiller_def split: prod.splits)

theorem framed_stream_roundtrip_witness:
  "fst (drain 2 (demo_conn (wire (fc_out (fst (EndStream demo_knobs
      (run_writer [EvWrite demo_knobs 0 [1, 2, 3, 4, 5], EvFiller 3] (demo_conn []))))) @ [9]))) = [1, 2, 3, 4, 5]"
proof -
  let ?evs = "[EvWrite demo_knobs 0 [1, 2, 3, 4, 5], EvFiller 3]"
  obtain c2 e where e: "EndStream demo_knobs (run_writer ?evs (demo_conn [])) = (c2, e)" by fastforce
  have k: "knobs_ok demo_knobs" by (simp add: demo_knobs_def newShapeKnobs_ok)
  then have evs: "\<forall>ev \<in> set ?evs. event_ok ev" by (simp add: framed_consts)
  show ?thesis
    using framed_stream_roundtrip [OF _ demo_conn_writable(1,2) evs k e demo_conn_writable(3,4,5),
        of 2 "[9]"] e by simp
qed



text \<open>
  C3: Handing the connection over: after \<^verbatim>\<open>SwitchRaw\<close> the reader gets all data written before it,
  then the switch error, and every raw byte that follows on the socket is still unread.
\<close>

theorem framed_switch_handover:
  assumes "0 < cap" and "writable c" and "wire (fc_out c) = []"
    and "\<forall>ev \<in> set evs. event_ok ev" and "knobs_ok k"
    and "SwitchRaw k (run_writer evs c) = (c2, e)"
    and "fc_rbuf r = []" and "\<not> fc_done r" and "fc_in r = wire (fc_out c2) @ raw"
  shows "e = None \<and> SwitchedRaw c2 \<and> \<not> Reusable c2 \<and>
    drain cap r = (concat (map event_data evs), ErrSwitchRaw, r\<lparr>fc_in := raw\<rparr>)"
proof -
  obtain ms fs where w: "wire (fc_out (run_writer evs c)) = concat (map fmsg_enc ms) @ concat (map filler_rec fs)"
    "\<forall>m \<in> set ms. fmsg_ok m \<and> fmsg_data m \<noteq> []" "\<forall>f \<in> set fs. length f \<le> framedMaxData"
    "concat (map fmsg_data ms) = concat (map event_data evs)" "writable (run_writer evs c)"
    using run_writer_stream [OF assms(4,2), of "[]"] assms(3) by auto
  let ?c1 = "run_writer evs c\<lparr>fc_ended := True, fc_switched := True\<rparr>"
  have m: "writeMarker k framedSwitchMarker ?c1 = (c2, e)"
    using assms(6) w(5) by (simp add: SwitchRaw_def writable_def)
  obtain p where p: "wire (fc_out c2) = wire (fc_out ?c1) @ record_head (of_nat (2 + length p)) framedSwitchMarker @ p"
    "length p \<le> framedMaxData" "e = None"
    using writeMarker_writable [OF assms(5) _ m] w(5) by (auto simp: writable_def)
  have sw: "fc_switched c2" using m by (auto simp: writeMarker_def Let_def split: prod.splits)
  have "fc_in r = concat (map fmsg_enc ms) @ concat (map filler_rec fs) @ switch_rec p @ raw"
    using assms(9) p(1) w(1) by (simp add: switch_rec_def)
  from drain_switch [OF assms(1,7,8) w(2,3) p(2) this] w(4) p(3) sw show ?thesis
    by (simp add: SwitchedRaw_def Reusable_def)
qed

theorem framed_switch_handover_witness:
  "fc_in (snd (snd (drain 3 (demo_conn (wire (fc_out (fst (SwitchRaw demo_knobs
      (run_writer [EvWrite demo_knobs 0 [1, 2, 3, 4]] (demo_conn []))))) @ [7, 8]))))) = [7, 8]"
proof -
  let ?evs = "[EvWrite demo_knobs 0 [1, 2, 3, 4]]"
  obtain c2 e where e: "SwitchRaw demo_knobs (run_writer ?evs (demo_conn [])) = (c2, e)" by fastforce
  have k: "knobs_ok demo_knobs" by (simp add: demo_knobs_def newShapeKnobs_ok)
  then have evs: "\<forall>ev \<in> set ?evs. event_ok ev" by simp
  show ?thesis
    using framed_switch_handover [OF _ demo_conn_writable(1,2) evs k e demo_conn_writable(3,4,5),
        of 3 "[7, 8]"] e by simp
qed

text \<open>
  C4: The knobs stay in range: the start-up knobs are well-formed for every value of the
  environment variable, and every setter either refuses with the range error or keeps them
  so; in particular no 32-bit store of a length limit wraps around.
\<close>

theorem shape_knobs_invariant:
  "knobs_ok (newShapeKnobs env) \<and>
   (knobs_ok k \<longrightarrow>
      (\<forall>k'. SetShape recs mn mx k = Inr k' \<longrightarrow> knobs_ok k' \<and> sint (sk_max k') = mx) \<and>
      (\<forall>k'. SetFiller idle iv mn mx k = Inr k' \<longrightarrow> knobs_ok k' \<and> sint (sk_fillMax k') = mx) \<and>
      (\<forall>k'. SetChunk mn mx k = Inr k' \<longrightarrow> knobs_ok k' \<and> Chunk k' = (if mx = 0 then fst (Chunk k') else mn, mx)))"
  by (auto simp: newShapeKnobs_ok intro: SetShape_ok SetFiller_ok SetChunk_ok)
    (auto simp: SetShape_def SetFiller_def SetChunk_def Chunk_def framed_consts sint_store32 split: if_splits)

theorem shape_knobs_invariant_witness:
  "\<exists>k'. SetChunk 100 2000 (newShapeKnobs ''x'') = Inr k' \<and> knobs_ok k' \<and> Chunk k' = (100, 2000)"
proof -
  obtain k' where k': "SetChunk 100 2000 (newShapeKnobs ''x'') = Inr k'"
    by (auto simp: SetChunk_def framed_consts)
  with shape_knobs_invariant [of "''x''" "newShapeKnobs ''x''" 0 100 2000 0 0] show ?thesis by auto
qed

end
