(* ===== verification/Fec.thy ===== *)
theory Fec
  imports Prelude "HOL-Library.Monad_Syntax"
begin

text \<open>
  The datagram lane of \<^verbatim>\<open>core/protocol/quic\<close>: the forward-error-correction encoder and decoder
  of \<^verbatim>\<open>fec.go\<close> and the sender, receiver and sweep of \<^verbatim>\<open>datagram.go\<close>. The Reed-Solomon code
  itself is a third-party package and a parameter (\<open>rs_code\<close>). A run-time panic (a slice or
  index out of range) is \<open>None\<close>.
\<close>

record rs_code =
  rs_new :: "nat \<Rightarrow> nat \<Rightarrow> bool"
  rs_encode :: "nat \<Rightarrow> nat \<Rightarrow> bytes list \<Rightarrow> bytes list option"
  rs_reconstruct :: "nat \<Rightarrow> nat \<Rightarrow> bytes option list \<Rightarrow> bytes list option"

definition packetPoolSize :: nat where "packetPoolSize = 2048"
definition fecK :: nat where "fecK = 10"
definition fecM :: nat where "fecM = 4"
definition datagramMaxProtected :: nat where "datagramMaxProtected = 1100"
definition fecBlockWait :: int where "fecBlockWait = 30 * 1000000"
definition markerFEC :: byte where "markerFEC = 0xFF"
definition markerRaw :: byte where "markerRaw = 0xFE"

lemmas fec_consts = packetPoolSize_def fecK_def fecM_def datagramMaxProtected_def
  fecBlockWait_def markerFEC_def markerRaw_def

section \<open>Encoder\<close>

record FECEncoder =
  fe_k :: nat
  fe_m :: nat
  fe_shards :: "bytes option list"
  fe_shardSize :: nat
  fe_idx :: nat

definition NewFECEncoder :: "rs_code \<Rightarrow> nat \<Rightarrow> nat \<Rightarrow> FECEncoder option" where
  "NewFECEncoder rs k m =
     (if rs_new rs k m
      then Some \<lparr>fe_k = k, fe_m = m, fe_shards = replicate (k + m) None, fe_shardSize = 0, fe_idx = 0\<rparr>
      else None)"

text \<open>
  \<^verbatim>\<open>EncodeFEC\<close>: the packet and the encoder, or a panic when the block is already full.
  \<open>head\<close> is the headroom the caller asked for, with whatever the pooled buffer held.
\<close>

definition EncodeFEC :: "bytes \<Rightarrow> 32 word \<Rightarrow> bytes \<Rightarrow> FECEncoder \<Rightarrow> (FECEncoder \<times> bytes) option" where
  "EncodeFEC data seqNum head fe =
     (let shard = put16 (of_nat (length data)) @ data;
          buf = head @ [0xFF] @ put32 seqNum @ [of_nat (fe_k fe), of_nat (fe_m fe)] @ shard
      in if fe_idx fe < length (fe_shards fe)
         then Some (fe\<lparr>fe_shards := (fe_shards fe)[fe_idx fe := Some shard],
                       fe_shardSize := max (fe_shardSize fe) (length shard),
                       fe_idx := Suc (fe_idx fe)\<rparr>, buf)
         else None)"

text \<open>
  Extending a shard to the block's shard size reslices the pooled buffer under it, whose
  capacity is at least the pool's buffer size: beyond the capacity the reslice panics.
\<close>

definition extend_shard :: "nat \<Rightarrow> bytes option \<Rightarrow> bytes option" where
  "extend_shard sz sh =
     (case sh of
        None \<Rightarrow> if 0 < sz then None else Some []
      | Some s \<Rightarrow> if length s < sz
                  then if sz \<le> max packetPoolSize (length s) then Some (s @ replicate (sz - length s) 0) else None
                  else Some s)"

fun extend_all :: "nat \<Rightarrow> bytes option list \<Rightarrow> bytes list option" where
  "extend_all sz [] = Some []"
| "extend_all sz (sh # shs) = do { s \<leftarrow> extend_shard sz sh; ss \<leftarrow> extend_all sz shs; Some (s # ss) }"

definition fec_reset :: "FECEncoder \<Rightarrow> FECEncoder" where
  "fec_reset fe = fe\<lparr>fe_shards := replicate (length (fe_shards fe)) None, fe_idx := 0, fe_shardSize := 0\<rparr>"

definition parity_packet :: "FECEncoder \<Rightarrow> 32 word \<Rightarrow> bytes \<Rightarrow> nat \<Rightarrow> bytes \<Rightarrow> bytes" where
  "parity_packet fe baseSeq head i parity =
     head @ [0xFF] @ put32 (baseSeq + of_nat i) @ [of_nat (fe_k fe), of_nat (fe_m fe)] @ parity"

definition GetParityPackets ::
    "rs_code \<Rightarrow> 32 word \<Rightarrow> bytes \<Rightarrow> FECEncoder \<Rightarrow> (FECEncoder \<times> bytes list) option" where
  "GetParityPackets rs baseSeq head fe =
     (if fe_idx fe < fe_k fe then Some (fe, []) else
      do { ds \<leftarrow> extend_all (fe_shardSize fe) (take (fe_k fe) (fe_shards fe));
           case rs_encode rs (fe_k fe) (fe_m fe) ds of
             None \<Rightarrow> Some (fec_reset fe, [])
           | Some ps \<Rightarrow> Some (fec_reset fe,
               map (\<lambda>(i, p). parity_packet fe baseSeq head i p) (enumerate 0 ps)) })"

section \<open>Decoder\<close>

record FECDecoder =
  fd_k :: nat
  fd_m :: nat
  fd_packetBuffer :: "(32 word, bytes) gomap"
  fd_totalPackets :: int

definition NewFECDecoder :: "nat \<Rightarrow> nat \<Rightarrow> FECDecoder" where
  "NewFECDecoder k m = \<lparr>fd_k = k, fd_m = m, fd_packetBuffer = [], fd_totalPackets = 0\<rparr>"

text \<open>\<^verbatim>\<open>binary.BigEndian.Uint32(packet[1:5])\<close>.\<close>

definition packet_seq :: "bytes \<Rightarrow> 32 word" where
  "packet_seq p = get32 (p ! 1) (p ! 2) (p ! 3) (p ! 4)"

definition DecodeFEC :: "bytes \<Rightarrow> FECDecoder \<Rightarrow> FECDecoder \<times> bytes option \<times> bool" where
  "DecodeFEC packet fd =
     (let fd = fd\<lparr>fd_totalPackets := fd_totalPackets fd + 1\<rparr> in
      if length packet < 7 then (fd, None, False)
      else if packet ! 0 \<noteq> 0xFF then (fd, Some (drop 7 packet), False)
      else (fd\<lparr>fd_packetBuffer := gm_put (packet_seq packet) (drop 7 packet) (fd_packetBuffer fd)\<rparr>, None, False))"

definition Forget :: "32 word \<Rightarrow> nat \<Rightarrow> nat \<Rightarrow> FECDecoder \<Rightarrow> FECDecoder" where
  "Forget blockStart k m fd =
     fd\<lparr>fd_packetBuffer := fold (\<lambda>i. gm_del (blockStart + of_nat i)) [0..<k + m] (fd_packetBuffer fd)\<rparr>"

definition pad_to :: "nat \<Rightarrow> bytes \<Rightarrow> bytes" where
  "pad_to n s = s @ replicate (n - length s) 0"

text \<open>The payload inside a reconstructed shard, when its length field makes sense.\<close>

definition shard_payload :: "bytes \<Rightarrow> bytes list" where
  "shard_payload shard =
     (if length shard < 2 then [] else
      let dataLen = unat (get16 (shard ! 0) (shard ! 1)) in
      if dataLen + 2 > length shard then [] else [take dataLen (drop 2 shard)])"

definition Reconstruct :: "rs_code \<Rightarrow> 32 word \<Rightarrow> nat \<Rightarrow> nat \<Rightarrow> FECDecoder \<Rightarrow> bytes list" where
  "Reconstruct rs blockStart k m fd =
     (let look = (\<lambda>i. gm_get (fd_packetBuffer fd) (blockStart + of_nat i));
          shards = map look [0..<k + m];
          have = length (filter (\<lambda>s. s \<noteq> None) shards);
          maxLen = foldr (\<lambda>s n. case s of None \<Rightarrow> n | Some d \<Rightarrow> max (length d) n) shards 0
      in if have < k then [] else
         let padded = map (map_option (pad_to maxLen)) shards in
         if \<not> rs_new rs k m then [] else
         case rs_reconstruct rs k m padded of
           None \<Rightarrow> []
         | Some full \<Rightarrow> concat (map (\<lambda>i. if look i = None then shard_payload (full ! i) else []) [0..<k]))"

section \<open>Sender\<close>

record fecSender =
  fs_enc :: "FECEncoder option"
  fs_blockStart :: "32 word"
  fs_cnt :: nat
  fs_lastAt :: int

definition newRTFECSender :: "rs_code \<Rightarrow> fecSender" where
  "newRTFECSender rs = \<lparr>fs_enc = NewFECEncoder rs fecK fecM, fs_blockStart = 0, fs_cnt = 0, fs_lastAt = 0\<rparr>"

text \<open>One \<^verbatim>\<open>EncodeFEC\<close> of the sender, with the block position as sequence number.\<close>

definition send_data :: "FECEncoder \<Rightarrow> bytes \<Rightarrow> fecSender \<Rightarrow> (fecSender \<times> FECEncoder \<times> bytes) option" where
  "send_data enc data s =
     do { (enc, pkt) \<leftarrow> EncodeFEC data (fs_blockStart s + of_nat (fs_cnt s)) [] enc;
          Some (s\<lparr>fs_enc := Some enc, fs_cnt := Suc (fs_cnt s)\<rparr>, enc, pkt) }"

text \<open>The parity of a full block; the next block starts after it.\<close>

definition send_parity :: "rs_code \<Rightarrow> FECEncoder \<Rightarrow> fecSender \<Rightarrow> (fecSender \<times> bytes list) option" where
  "send_parity rs enc s =
     do { (enc, pkts) \<leftarrow> GetParityPackets rs (fs_blockStart s + of_nat fecK) [] enc;
          Some (s\<lparr>fs_enc := Some enc, fs_blockStart := fs_blockStart s + of_nat (fecK + fecM), fs_cnt := 0\<rparr>, pkts) }"

fun flush_fill :: "nat \<Rightarrow> FECEncoder \<Rightarrow> fecSender \<Rightarrow> (fecSender \<times> FECEncoder \<times> bytes list) option" where
  "flush_fill 0 enc s = Some (s, enc, [])"
| "flush_fill (Suc n) enc s =
     do { (s, enc, pkt) \<leftarrow> send_data enc [] s;
          (s, enc, pkts) \<leftarrow> flush_fill n enc s;
          Some (s, enc, pkt # pkts) }"

definition flushLocked :: "rs_code \<Rightarrow> fecSender \<Rightarrow> (fecSender \<times> bytes list) option" where
  "flushLocked rs s =
     (if fs_cnt s = 0 then Some (s, []) else
      case fs_enc s of None \<Rightarrow> None
      | Some enc \<Rightarrow>
          do { (s, enc, pkts) \<leftarrow> flush_fill (fecK - fs_cnt s) enc s;
               (s, parity) \<leftarrow> send_parity rs enc s;
               Some (s, pkts @ parity) })"

definition fec_encode :: "rs_code \<Rightarrow> int \<Rightarrow> bytes \<Rightarrow> fecSender \<Rightarrow> (fecSender \<times> bytes list) option" where
  "fec_encode rs now payload s =
     (if length payload > datagramMaxProtected \<or> fs_enc s = None
      then Some (s, [markerRaw # payload]) else
      do { (s, flushed) \<leftarrow> (if fs_cnt s > 0 \<and> now - fs_lastAt s \<ge> fecBlockWait then flushLocked rs s
                            else Some (s, []));
           enc \<leftarrow> fs_enc s;
           (s, enc, pkt) \<leftarrow> send_data enc payload (s\<lparr>fs_lastAt := now\<rparr>);
           if fs_cnt s = fecK
           then do { (s, parity) \<leftarrow> send_parity rs enc s; Some (s, flushed @ [pkt] @ parity) }
           else Some (s, flushed @ [pkt]) })"

section \<open>Receiver\<close>

record fecReceiver =
  fr_dec :: FECDecoder
  fr_received :: "(32 word, bytes) gomap"
  fr_firstAt :: "(32 word, int) gomap"
  fr_pending :: bool

definition newRTFECReceiver :: fecReceiver where
  "newRTFECReceiver = \<lparr>fr_dec = NewFECDecoder fecK fecM, fr_received = [], fr_firstAt = [], fr_pending = False\<rparr>"

definition block_of :: "32 word \<Rightarrow> 32 word" where
  "block_of seq = (let blockSize = of_nat (fecK + fecM) in (seq div blockSize) * blockSize)"

definition ingest :: "int \<Rightarrow> bytes \<Rightarrow> fecReceiver \<Rightarrow> fecReceiver" where
  "ingest now packet r =
     (if length packet < 9 \<or> packet ! 0 \<noteq> markerFEC then r else
      let seq = packet_seq packet;
          blockStart = block_of seq;
          posInBlock = seq - blockStart;
          fresh = (gm_get (fr_firstAt r) blockStart = None);
          r = (if fresh then r\<lparr>fr_firstAt := gm_put blockStart now (fr_firstAt r)\<rparr> else r);
          dataLen = unat (get16 (packet ! 7) (packet ! 8));
          r = (if posInBlock < of_nat fecK \<and> dataLen + 9 \<le> length packet
               then r\<lparr>fr_received := gm_put seq (take dataLen (drop 9 packet)) (fr_received r)\<rparr> else r);
          r = (if fresh then r\<lparr>fr_pending := True\<rparr> else r)
      in r\<lparr>fr_dec := fst (DecodeFEC packet (fr_dec r))\<rparr>)"

fun fill_missing :: "32 word \<Rightarrow> nat list \<Rightarrow> bytes list \<Rightarrow> (32 word, bytes) gomap \<Rightarrow> (32 word, bytes) gomap" where
  "fill_missing b [] recovered m = m"
| "fill_missing b (i # is) recovered m =
     (case recovered of
        [] \<Rightarrow> m
      | d # ds \<Rightarrow> if gm_get m (b + of_nat i) = None
                  then fill_missing b is ds (gm_put (b + of_nat i) d m)
                  else fill_missing b is recovered m)"

definition deliverBlock :: "rs_code \<Rightarrow> 32 word \<Rightarrow> fecReceiver \<Rightarrow> fecReceiver \<times> bytes list" where
  "deliverBlock rs blockStart r =
     (let missing = (\<exists>i \<in> set [0..<fecK]. gm_get (fr_received r) (blockStart + of_nat i) = None);
          received = (if missing
            then fill_missing blockStart [0..<fecK] (Reconstruct rs blockStart fecK fecM (fr_dec r)) (fr_received r)
            else fr_received r);
          payloads = concat (map (\<lambda>i. case gm_get received (blockStart + of_nat i) of
                        Some p \<Rightarrow> if p \<noteq> [] then [p] else [] | None \<Rightarrow> []) [0..<fecK]);
          received = fold (\<lambda>i. gm_del (blockStart + of_nat i)) [0..<fecK + fecM] received
      in (r\<lparr>fr_received := received, fr_dec := Forget blockStart fecK fecM (fr_dec r)\<rparr>, payloads))"

fun deliver_blocks :: "rs_code \<Rightarrow> 32 word list \<Rightarrow> fecReceiver \<Rightarrow> fecReceiver \<times> bytes list" where
  "deliver_blocks rs [] r = (r, [])"
| "deliver_blocks rs (b # bs) r =
     (let (r, ps) = deliverBlock rs b r; (r, qs) = deliver_blocks rs bs r in (r, ps @ qs))"

definition block_have :: "fecReceiver \<Rightarrow> 32 word \<Rightarrow> nat" where
  "block_have r bs = length (filter (\<lambda>i. gm_get (fr_received r) (bs + of_nat i) \<noteq> None) [0..<fecK])"

definition fec_sweep :: "rs_code \<Rightarrow> int \<Rightarrow> fecReceiver \<Rightarrow> fecReceiver \<times> bytes list \<times> bool" where
  "fec_sweep rs now r =
     (let due = map fst (filter (\<lambda>(bs, t). block_have r bs = fecK \<or> now - t \<ge> fecBlockWait) (fr_firstAt r));
          r = r\<lparr>fr_firstAt := fold gm_del due (fr_firstAt r)\<rparr>;
          left = (0 < length (fr_firstAt r));
          (r, ps) = deliver_blocks rs due r
      in (r, ps, left))"

definition processIncoming :: "int \<Rightarrow> bytes \<Rightarrow> fecReceiver \<Rightarrow> fecReceiver \<times> bytes list" where
  "processIncoming now packet r =
     (if packet = [] then (r, [])
      else if packet ! 0 = markerRaw then (r, [drop 1 packet])
      else if packet ! 0 = markerFEC then (ingest now packet r, [])
      else (r, []))"

section \<open>Positions in a block\<close>

definition aligned :: "32 word \<Rightarrow> bool" where
  "aligned b \<longleftrightarrow> unat b mod 14 = 0 \<and> unat b + 14 \<le> 2 ^ 32"

lemma word_off_eq: "i < 2 ^ 32 \<Longrightarrow> j < 2 ^ 32 \<Longrightarrow> (b :: 32 word) + of_nat i = b + of_nat j \<longleftrightarrow> i = j"
proof -
  assume "i < 2 ^ 32" "j < 2 ^ 32"
  then have "unat (of_nat i :: 32 word) = i" "unat (of_nat j :: 32 word) = j"
    by (simp_all add: unat_of_nat)
  then show ?thesis by (metis add_left_cancel)
qed

lemma unat_block_off: "aligned b \<Longrightarrow> i < 14 \<Longrightarrow> unat (b + of_nat i) = unat b + i"
  by (simp add: aligned_def unat_word_ariths unat_of_nat)

lemma block_of_off:
  assumes "aligned b" "i < 14"
  shows "block_of (b + of_nat i) = b"
proof -
  have "unat (block_of (b + of_nat i)) = ((unat b + i) div 14 * 14) mod 2 ^ 32"
    using unat_block_off [OF assms]
    by (simp add: block_of_def Let_def fec_consts unat_word_ariths unat_div_distrib)
  also have "(unat b + i) div 14 * 14 = unat b" using assms by (auto simp: aligned_def)
  also have "unat b mod 2 ^ 32 = unat b" using assms(1) by (simp add: aligned_def)
  finally show ?thesis by (simp add: word_unat_eq_iff)
qed

section \<open>Packets of a block\<close>

definition shard_of :: "bytes \<Rightarrow> bytes" where
  "shard_of p = put16 (of_nat (length p)) @ p"

definition fec_packet :: "32 word \<Rightarrow> bytes \<Rightarrow> bytes" where
  "fec_packet seq body = [0xFF] @ put32 seq @ [10, 4] @ body"

lemma length_shard_of [simp]: "length (shard_of p) = 2 + length p"
  by (simp add: shard_of_def)

lemma fec_packet_simps [simp]:
  "length (fec_packet seq body) = 7 + length body" "fec_packet seq body ! 0 = 0xFF"
  "packet_seq (fec_packet seq body) = seq" "drop 7 (fec_packet seq body) = body"
  "drop 9 (fec_packet seq body) = drop 2 body"
  by (simp_all add: fec_packet_def packet_seq_def put32_def)

lemma fec_packet_nth: "2 \<le> length body \<Longrightarrow> fec_packet seq body ! 7 = body ! 0"
  "2 \<le> length body \<Longrightarrow> fec_packet seq body ! 8 = body ! 1"
  by (simp_all add: fec_packet_def put32_def)

lemma shard_of_len: "length p < 65536 \<Longrightarrow> unat (get16 (shard_of p ! 0) (shard_of p ! 1)) = length p"
  by (simp add: shard_of_def put16_def)

lemma shard_payload_pad: "length p < 65536 \<Longrightarrow> shard_payload (pad_to n (shard_of p)) = [p]"
proof -
  assume l: "length p < 65536"
  have "pad_to n (shard_of p) ! 0 = shard_of p ! 0" "pad_to n (shard_of p) ! 1 = shard_of p ! 1"
    by (simp_all add: pad_to_def nth_append)
  moreover have "take (length p) (drop 2 (pad_to n (shard_of p))) = p"
    by (simp add: pad_to_def shard_of_def)
  ultimately show ?thesis using shard_of_len [OF l]
    by (simp add: shard_payload_def Let_def pad_to_def)
qed

section \<open>The sender never panics\<close>

definition enc_ok :: "nat \<Rightarrow> FECEncoder \<Rightarrow> bool" where
  "enc_ok n fe \<longleftrightarrow> fe_k fe = fecK \<and> fe_m fe = fecM \<and> length (fe_shards fe) = fecK + fecM \<and>
     fe_idx fe = n \<and> n \<le> fecK \<and> fe_shardSize fe \<le> 2 + datagramMaxProtected \<and>
     (\<forall>i < n. \<exists>s. fe_shards fe ! i = Some s \<and> length s \<le> fe_shardSize fe)"

definition sender_ok :: "fecSender \<Rightarrow> bool" where
  "sender_ok s \<longleftrightarrow> fs_cnt s < fecK \<and>
     (case fs_enc s of None \<Rightarrow> fs_cnt s = 0 | Some fe \<Rightarrow> enc_ok (fs_cnt s) fe)"

lemma newRTFECSender_ok: "sender_ok (newRTFECSender rs)"
  by (auto simp: newRTFECSender_def sender_ok_def NewFECEncoder_def enc_ok_def fec_consts)

lemma EncodeFEC_ok:
  assumes "enc_ok n fe" "n < fecK" "length data \<le> datagramMaxProtected"
  shows "\<exists>fe'. EncodeFEC data seq h fe = Some (fe', h @ fec_packet seq (shard_of data)) \<and> enc_ok (Suc n) fe'"
proof -
  let ?fe = "fe\<lparr>fe_shards := (fe_shards fe)[fe_idx fe := Some (shard_of data)],
      fe_shardSize := max (fe_shardSize fe) (length (shard_of data)), fe_idx := Suc (fe_idx fe)\<rparr>"
  have "EncodeFEC data seq h fe = Some (?fe, h @ fec_packet seq (shard_of data))"
    using assms by (simp add: EncodeFEC_def enc_ok_def fec_consts Let_def shard_of_def fec_packet_def)
  moreover have "enc_ok (Suc n) ?fe"
    using assms unfolding enc_ok_def
    by (auto simp: fec_consts less_Suc_eq nth_list_update le_max_iff_disj)
  ultimately show ?thesis by blast
qed

lemma extend_all_ok:
  assumes "\<forall>sh \<in> set shs. \<exists>s. sh = Some s \<and> length s \<le> sz" "sz \<le> packetPoolSize"
  shows "extend_all sz shs = Some (map (\<lambda>sh. pad_to sz (the sh)) shs)"
  using assms by (induction shs) (auto simp: extend_shard_def pad_to_def)

lemma enc_ok_reset: "enc_ok n fe \<Longrightarrow> enc_ok 0 (fec_reset fe)"
  by (simp add: enc_ok_def fec_reset_def)

lemma GetParityPackets_ok:
  assumes "enc_ok fecK fe"
  shows "\<exists>pkts. GetParityPackets rs base h fe = Some (fec_reset fe, pkts)"
proof -
  have "\<forall>sh \<in> set (take fecK (fe_shards fe)). \<exists>s. sh = Some s \<and> length s \<le> fe_shardSize fe"
    using assms by (auto simp: enc_ok_def in_set_conv_nth)
  then have "extend_all (fe_shardSize fe) (take fecK (fe_shards fe))
      = Some (map (\<lambda>sh. pad_to (fe_shardSize fe) (the sh)) (take fecK (fe_shards fe)))"
    using assms by (intro extend_all_ok) (auto simp: enc_ok_def fec_consts)
  then show ?thesis using assms
    by (auto simp: GetParityPackets_def enc_ok_def split: option.splits)
qed

lemma send_data_ok:
  assumes "enc_ok (fs_cnt s) enc" "fs_cnt s < fecK" "length data \<le> datagramMaxProtected"
  shows "\<exists>enc'. send_data enc data s = Some (s\<lparr>fs_enc := Some enc', fs_cnt := Suc (fs_cnt s)\<rparr>, enc',
      fec_packet (fs_blockStart s + of_nat (fs_cnt s)) (shard_of data)) \<and> enc_ok (Suc (fs_cnt s)) enc'"
  using EncodeFEC_ok [OF assms, of "fs_blockStart s + of_nat (fs_cnt s)" "[]"]
  by (auto simp: send_data_def)

lemma send_parity_ok:
  assumes "enc_ok fecK enc"
  shows "\<exists>s' pkts. send_parity rs enc s = Some (s', pkts) \<and> sender_ok s' \<and> fs_cnt s' = 0 \<and>
     fs_enc s' = Some (fec_reset enc) \<and> fs_blockStart s' = fs_blockStart s + 14"
  using GetParityPackets_ok [OF assms, of rs "fs_blockStart s + of_nat fecK" "[]"] enc_ok_reset [OF assms]
  by (auto simp: send_parity_def sender_ok_def fec_consts)

lemma flush_fill_ok:
  "enc_ok (fs_cnt s) enc \<Longrightarrow> fs_cnt s + n \<le> fecK \<Longrightarrow>
   \<exists>s' enc' pkts. flush_fill n enc s = Some (s', enc', pkts) \<and> enc_ok (fs_cnt s + n) enc' \<and>
     fs_blockStart s' = fs_blockStart s"
proof (induction n arbitrary: enc s)
  case (Suc n)
  obtain enc1 where 1: "send_data enc [] s = Some (s\<lparr>fs_enc := Some enc1, fs_cnt := Suc (fs_cnt s)\<rparr>, enc1,
      fec_packet (fs_blockStart s + of_nat (fs_cnt s)) (shard_of []))" "enc_ok (Suc (fs_cnt s)) enc1"
    using send_data_ok [of s enc "[]"] Suc.prems by auto
  from Suc.IH [of "s\<lparr>fs_enc := Some enc1, fs_cnt := Suc (fs_cnt s)\<rparr>" enc1] 1 Suc.prems
  show ?case by fastforce
qed simp

lemma flushLocked_ok:
  assumes "sender_ok s"
  shows "\<exists>s' pkts. flushLocked rs s = Some (s', pkts) \<and> sender_ok s' \<and> fs_cnt s' = 0 \<and>
     (fs_enc s = None \<longleftrightarrow> fs_enc s' = None)"
proof (cases "fs_cnt s = 0")
  case False
  then obtain enc where enc: "fs_enc s = Some enc" "enc_ok (fs_cnt s) enc"
    using assms by (auto simp: sender_ok_def split: option.splits)
  have le: "fs_cnt s + (fecK - fs_cnt s) \<le> fecK" using assms by (simp add: sender_ok_def)
  then obtain s1 enc1 pkts where 1: "flush_fill (fecK - fs_cnt s) enc s = Some (s1, enc1, pkts)"
    "enc_ok (fs_cnt s + (fecK - fs_cnt s)) enc1" using flush_fill_ok [OF enc(2) le] by blast
  then have "enc_ok fecK enc1" using assms by (simp add: sender_ok_def)
  from send_parity_ok [OF this, of rs s1] 1 enc False show ?thesis by (auto simp: flushLocked_def)
qed (use assms in \<open>simp add: flushLocked_def\<close>)

lemma fec_encode_ok:
  assumes ok: "sender_ok s"
  shows "\<exists>s' pkts. fec_encode rs now payload s = Some (s', pkts) \<and> sender_ok s'"
proof (cases "length payload > datagramMaxProtected \<or> fs_enc s = None")
  case False
  obtain s1 fl where 1: "(if fs_cnt s > 0 \<and> now - fs_lastAt s \<ge> fecBlockWait then flushLocked rs s
      else Some (s, [])) = Some (s1, fl)" "sender_ok s1" "fs_enc s1 \<noteq> None"
  proof (cases "fs_cnt s > 0 \<and> now - fs_lastAt s \<ge> fecBlockWait")
    case True
    obtain s' pk where "flushLocked rs s = Some (s', pk)" "sender_ok s'" "fs_enc s' \<noteq> None"
      using flushLocked_ok [OF ok, of rs] False by auto
    then show ?thesis using that True by simp
  next
    case nf: False
    then show ?thesis using that [of s "[]"] ok False by auto
  qed
  then obtain enc where enc: "fs_enc s1 = Some enc" "enc_ok (fs_cnt s1) enc" "fs_cnt s1 < fecK"
    by (auto simp: sender_ok_def split: option.splits)
  let ?s2 = "s1\<lparr>fs_lastAt := now\<rparr>"
  obtain enc2 where 2: "send_data enc payload ?s2 = Some (?s2\<lparr>fs_enc := Some enc2, fs_cnt := Suc (fs_cnt s1)\<rparr>, enc2,
      fec_packet (fs_blockStart s1 + of_nat (fs_cnt s1)) (shard_of payload))" "enc_ok (Suc (fs_cnt s1)) enc2"
    using send_data_ok [of ?s2 enc payload] enc False by auto
  show ?thesis
  proof (cases "Suc (fs_cnt s1) = fecK")
    case True
    with 2 send_parity_ok [of enc2 rs "?s2\<lparr>fs_enc := Some enc2, fs_cnt := Suc (fs_cnt s1)\<rparr>"]
    show ?thesis using False 1(1) enc by (auto simp: fec_encode_def)
  next
    case ne: False
    then show ?thesis using False 1(1) enc 2 by (auto simp: fec_encode_def sender_ok_def)
  qed
qed (use ok in \<open>auto simp: fec_encode_def\<close>)

section \<open>A block from sender to receiver\<close>

text \<open>Encoding a burst of payloads, each with the time it is sent.\<close>

fun encode_list :: "rs_code \<Rightarrow> (int \<times> bytes) list \<Rightarrow> fecSender \<Rightarrow> (fecSender \<times> bytes list) option" where
  "encode_list rs [] s = Some (s, [])"
| "encode_list rs ((t, p) # tps) s =
     do { (s, pkts) \<leftarrow> fec_encode rs t p s; (s, rest) \<leftarrow> encode_list rs tps s; Some (s, pkts @ rest) }"

text \<open>No pause of \<open>fecBlockWait\<close> or longer between two payloads.\<close>

fun in_burst :: "int \<Rightarrow> int list \<Rightarrow> bool" where
  "in_burst prev [] = True"
| "in_burst prev (t # ts) = (t - prev < fecBlockWait \<and> in_burst t ts)"

definition enc_holds :: "bytes list \<Rightarrow> FECEncoder \<Rightarrow> bool" where
  "enc_holds ps fe \<longleftrightarrow> fe_k fe = fecK \<and> fe_m fe = fecM \<and> fe_idx fe = length ps \<and> length ps \<le> fecK \<and>
     fe_shards fe = map (Some \<circ> shard_of) ps @ replicate (fecK + fecM - length ps) None \<and>
     fe_shardSize fe = foldr (\<lambda>p. max (2 + length p)) ps 0"

lemma foldr_max_snoc: "foldr (\<lambda>p. max (f p)) (ps @ [q]) (0::nat) = max (foldr (\<lambda>p. max (f p)) ps 0) (f q)"
  by (induction ps) (auto simp: max.assoc)

lemma foldr_max_ge: "p \<in> set ps \<Longrightarrow> f p \<le> foldr (\<lambda>p. max (f p)) ps (0::nat)"
  by (induction ps) auto

lemma foldr_max_le: "(\<And>p. p \<in> set ps \<Longrightarrow> f p \<le> n) \<Longrightarrow> foldr (\<lambda>p. max (f p)) ps (0::nat) \<le> n"
  by (induction ps) auto

lemma EncodeFEC_holds:
  assumes "enc_holds ps fe" "length ps < fecK"
  shows "\<exists>fe'. EncodeFEC p seq [] fe = Some (fe', fec_packet seq (shard_of p)) \<and> enc_holds (ps @ [p]) fe'"
proof -
  have sh: "(map (Some \<circ> shard_of) ps @ replicate (14 - length ps) None)[length ps := Some (shard_of p)]
      = map (Some \<circ> shard_of) (ps @ [p]) @ replicate (13 - length ps) None"
    using assms(2) by (cases "14 - length ps") (auto simp: fec_consts list_update_append)
  show ?thesis
    using assms sh foldr_max_snoc [of "\<lambda>p. 2 + length p" ps p]
    by (simp add: EncodeFEC_def enc_holds_def fec_consts Let_def fec_packet_def shard_of_def [symmetric])
qed

definition shard_size :: "bytes list \<Rightarrow> nat" where
  "shard_size ps = foldr (\<lambda>p. max (2 + length p)) ps 0"

definition block_data :: "bytes list \<Rightarrow> bytes list" where
  "block_data ps = map (\<lambda>p. pad_to (shard_size ps) (shard_of p)) ps"

text \<open>
  What the sender and receiver rely on of the Reed-Solomon package for one block with data
  shards \<open>D\<close>: it yields four parity shards of the same size, and from any ten of the
  fourteen shards it restores all of them.
\<close>

definition mask_shards :: "(nat \<Rightarrow> bool) \<Rightarrow> bytes list \<Rightarrow> bytes option list" where
  "mask_shards keep shs = map (\<lambda>i. if keep i then Some (shs ! i) else None) [0..<length shs]"

definition rs_recovers :: "rs_code \<Rightarrow> bytes list \<Rightarrow> bytes list \<Rightarrow> bool" where
  "rs_recovers rs D P \<longleftrightarrow> rs_new rs fecK fecM \<and> rs_encode rs fecK fecM D = Some P \<and>
     length P = fecM \<and> (\<forall>p \<in> set P. length p = length (D ! 0)) \<and>
     (\<forall>keep. fecK \<le> card {i. i < fecK + fecM \<and> keep i} \<longrightarrow>
        rs_reconstruct rs fecK fecM (mask_shards keep (D @ P)) = Some (D @ P))"

definition block_packet :: "32 word \<Rightarrow> bytes list \<Rightarrow> bytes list \<Rightarrow> nat \<Rightarrow> bytes" where
  "block_packet b ps P i = fec_packet (b + of_nat i) (if i < fecK then shard_of (ps ! i) else P ! (i - fecK))"

lemma enumerate_map_nth: "map (\<lambda>(i, p). f i p) (enumerate 0 P) = map (\<lambda>i. f i (P ! i)) [0..<length P]"
  by (rule nth_equalityI) (simp_all add: enumerate_eq_zip)

lemma upt_map_shift: "map g [k..<k + m] = map (\<lambda>i. g (k + i)) [0..<m]"
  by (induction m) simp_all

lemma GetParityPackets_holds:
  assumes "enc_holds ps fe" "length ps = fecK" "\<forall>p \<in> set ps. length p \<le> datagramMaxProtected"
    and "rs_encode rs fecK fecM (block_data ps) = Some P" and "length P = fecM"
  shows "GetParityPackets rs (b + of_nat fecK) [] fe = Some (fec_reset fe, map (block_packet b ps P) [fecK..<fecK + fecM])"
proof -
  have tk: "take (fe_k fe) (fe_shards fe) = map (Some \<circ> shard_of) ps"
    using assms(1,2) by (simp add: enc_holds_def)
  have sz: "fe_shardSize fe = shard_size ps" using assms(1) by (simp add: enc_holds_def shard_size_def)
  have le: "\<forall>p \<in> set ps. 2 + length p \<le> shard_size ps"
    by (auto simp: shard_size_def intro: foldr_max_ge [where f = "\<lambda>p. 2 + length p", simplified])
  have cap: "shard_size ps \<le> packetPoolSize"
    unfolding shard_size_def using assms(3) by (intro foldr_max_le) (auto simp: fec_consts)
  have "extend_all (fe_shardSize fe) (take (fe_k fe) (fe_shards fe)) = Some (block_data ps)"
    unfolding tk sz using le cap
    by (subst extend_all_ok) (auto simp: block_data_def)
  moreover have "map (\<lambda>(i, p). parity_packet fe (b + of_nat fecK) [] i p) (enumerate 0 P)
      = map (block_packet b ps P) [fecK..<fecK + fecM]"
    unfolding enumerate_map_nth upt_map_shift using assms(1,5)
    by (simp add: parity_packet_def block_packet_def fec_packet_def enc_holds_def fec_consts algebra_simps)
  ultimately show ?thesis using assms(1,2,4) by (simp add: GetParityPackets_def enc_holds_def)
qed

lemma encode_list_partial:
  assumes "fs_enc s = Some fe" "enc_holds qs fe" "fs_cnt s = length qs" "length qs + length tps < fecK"
    and "\<forall>(t, p) \<in> set tps. length p \<le> datagramMaxProtected"
    and "in_burst (fs_lastAt s) (map fst tps) \<or> (qs = [] \<and> (\<forall>t ts. map fst tps = t # ts \<longrightarrow> in_burst t ts))"
  shows "\<exists>s' fe' l. encode_list rs tps s = Some (s', map (\<lambda>i. fec_packet (fs_blockStart s + of_nat i)
        (shard_of ((qs @ map snd tps) ! i))) [length qs..<length qs + length tps]) \<and>
      fs_enc s' = Some fe' \<and> enc_holds (qs @ map snd tps) fe' \<and> fs_cnt s' = length qs + length tps \<and>
      fs_blockStart s' = fs_blockStart s \<and> (tps \<noteq> [] \<longrightarrow> fs_lastAt s' = fst (last tps)) \<and>
      (tps = [] \<longrightarrow> fs_lastAt s' = fs_lastAt s)"
  using assms
proof (induction tps arbitrary: s fe qs)
  case Nil
  then show ?case by simp
next
  case (Cons tp tps)
  obtain t p where tp: "tp = (t, p)" by (cases tp)
  have burst: "\<not> (fs_cnt s > 0 \<and> t - fs_lastAt s \<ge> fecBlockWait)" "in_burst t (map fst tps)"
    using Cons.prems(3,6) tp by auto
  obtain fe1 where e: "EncodeFEC p (fs_blockStart s + of_nat (length qs)) [] fe
      = Some (fe1, fec_packet (fs_blockStart s + of_nat (length qs)) (shard_of p))" "enc_holds (qs @ [p]) fe1"
    using EncodeFEC_holds [OF Cons.prems(2)] Cons.prems(4) by fastforce
  let ?s1 = "s\<lparr>fs_lastAt := t, fs_enc := Some fe1, fs_cnt := Suc (fs_cnt s)\<rparr>"
  have ne: "\<not> length p > datagramMaxProtected" "Suc (length qs) \<noteq> fecK" using Cons.prems(4,5) tp by auto
  have 1: "fec_encode rs t p s = Some (?s1, [fec_packet (fs_blockStart s + of_nat (length qs)) (shard_of p)])"
    using Cons.prems(1,3) burst(1) e(1) ne
    by (auto simp: fec_encode_def send_data_def)
  have "\<exists>s' fe'. encode_list rs tps ?s1 = Some (s', map (\<lambda>i. fec_packet (fs_blockStart ?s1 + of_nat i)
        (shard_of (((qs @ [p]) @ map snd tps) ! i))) [length (qs @ [p])..<length (qs @ [p]) + length tps]) \<and>
      fs_enc s' = Some fe' \<and> enc_holds ((qs @ [p]) @ map snd tps) fe' \<and> fs_cnt s' = length (qs @ [p]) + length tps \<and>
      fs_blockStart s' = fs_blockStart ?s1 \<and> (tps \<noteq> [] \<longrightarrow> fs_lastAt s' = fst (last tps)) \<and>
      (tps = [] \<longrightarrow> fs_lastAt s' = fs_lastAt ?s1)"
    using Cons.IH [of ?s1 fe1 "qs @ [p]"] Cons.prems e(2) burst(2) by simp
  then obtain s' fe' where 2: "encode_list rs tps ?s1 = Some (s', map (\<lambda>i. fec_packet (fs_blockStart s + of_nat i)
        (shard_of ((qs @ p # map snd tps) ! i))) [Suc (length qs)..<Suc (length qs) + length tps])"
      "fs_enc s' = Some fe'" "enc_holds (qs @ p # map snd tps) fe'" "fs_cnt s' = Suc (length qs) + length tps"
      "fs_blockStart s' = fs_blockStart s" "tps \<noteq> [] \<longrightarrow> fs_lastAt s' = fst (last tps)"
      "tps = [] \<longrightarrow> fs_lastAt s' = t" by auto
  have up: "[length qs..<length qs + length (tp # tps)] = length qs # [Suc (length qs)..<Suc (length qs) + length tps]"
    by (subst upt_conv_Cons) (simp_all del: upt_Suc)
  show ?case unfolding up using 1 2 tp by auto
qed

lemma encode_list_append:
  "encode_list rs (xs @ ys) s =
     do { (s, a) \<leftarrow> encode_list rs xs s; (s, b) \<leftarrow> encode_list rs ys s; Some (s, a @ b) }"
proof (induction xs arbitrary: s)
  case Nil
  show ?case by (cases "encode_list rs ys s") auto
next
  case (Cons x xs)
  then show ?case by (cases x) (auto simp: bind_assoc split: option.splits bind_splits)
qed

lemma in_burst_snoc: "in_burst t (ts @ [u]) \<longleftrightarrow> in_burst t ts \<and> u - last (t # ts) < fecBlockWait"
  by (induction ts arbitrary: t) auto

text \<open>Ten payloads in a burst fill one block: its ten data packets and four parity packets.\<close>

lemma encode_block:
  assumes s: "fs_enc s = Some fe" "enc_holds [] fe" "fs_cnt s = 0"
    and ps: "length tps = fecK" "\<forall>(t, p) \<in> set tps. length p \<le> datagramMaxProtected"
    and burst: "in_burst (fst (hd tps)) (map fst (tl tps))"
    and rs: "rs_encode rs fecK fecM (block_data (map snd tps)) = Some P" "length P = fecM"
  shows "\<exists>s'. encode_list rs tps s = Some (s', map (block_packet (fs_blockStart s) (map snd tps) P) [0..<fecK + fecM]) \<and>
     fs_blockStart s' = fs_blockStart s + 14 \<and> fs_cnt s' = 0"
proof -
  obtain xs t p where tps: "tps = xs @ [(t, p)]"
    using ps(1) by (cases tps rule: rev_cases) (auto simp: fec_consts)
  have lx: "length xs = 9" using ps(1) tps by (simp add: fec_consts)
  then obtain x xs' where xs: "xs = x # xs'" by (cases xs) auto
  have b: "in_burst (fst x) (map fst xs')" "t - fst (last xs) < fecBlockWait"
    using burst by (auto simp: tps xs in_burst_snoc last_map)
  let ?b = "fs_blockStart s" and ?ps = "map snd tps"
  have "\<exists>s' fe'. encode_list rs xs s = Some (s', map (\<lambda>i. fec_packet (?b + of_nat i) (shard_of (map snd xs ! i))) [0..<9]) \<and>
      fs_enc s' = Some fe' \<and> enc_holds (map snd xs) fe' \<and> fs_cnt s' = 9 \<and> fs_blockStart s' = ?b \<and>
      fs_lastAt s' = fst (last xs)"
    using encode_list_partial [of s fe "[]" xs rs] s ps(2) lx b(1)
    by (simp add: tps xs fec_consts del: upt_Suc upt_rec_numeral encode_list.simps)
  then obtain s1 fe1 where 1: "encode_list rs xs s = Some (s1, map (\<lambda>i. fec_packet (?b + of_nat i) (shard_of (map snd xs ! i))) [0..<9])"
      "fs_enc s1 = Some fe1" "enc_holds (map snd xs) fe1" "fs_cnt s1 = 9" "fs_blockStart s1 = ?b"
      "fs_lastAt s1 = fst (last xs)" by blast
  obtain fe2 where 2: "EncodeFEC p (?b + of_nat 9) [] fe1 = Some (fe2, fec_packet (?b + of_nat 9) (shard_of p))"
      "enc_holds ?ps fe2"
    using EncodeFEC_holds [OF 1(3), of p "?b + of_nat 9"] lx by (auto simp: tps fec_consts)
  let ?par = "map (block_packet ?b ?ps P) [fecK..<fecK + fecM]"
  have par: "GetParityPackets rs (?b + of_nat fecK) [] fe2 = Some (fec_reset fe2, ?par)"
    using ps by (intro GetParityPackets_holds [OF 2(2) _ _ rs]) auto
  have "\<exists>s'. fec_encode rs t p s1 = Some (s', fec_packet (?b + of_nat 9) (shard_of p) # ?par) \<and>
      fs_blockStart s' = ?b + 14 \<and> fs_cnt s' = 0"
    using 1 2(1) par b(2) ps(2)
    by (auto simp: fec_encode_def send_data_def send_parity_def tps fec_consts simp del: upt_Suc)
  then obtain s' where s': "fec_encode rs t p s1 = Some (s', fec_packet (?b + of_nat 9) (shard_of p) # ?par)"
      "fs_blockStart s' = ?b + 14" "fs_cnt s' = 0" by blast
  have "[0..<fecK + fecM] = [0..<9] @ 9 # [fecK..<fecK + fecM]"
    by (simp add: fec_consts upt_rec numeral_eq_Suc)
  moreover have "map (\<lambda>i. fec_packet (?b + of_nat i) (shard_of (map snd xs ! i))) [0..<9] = map (block_packet ?b ?ps P) [0..<9]"
    using lx by (auto simp: block_packet_def fec_consts tps nth_append)
  moreover have "fec_packet (?b + of_nat 9) (shard_of p) = block_packet ?b ?ps P 9"
    using lx by (simp add: block_packet_def fec_consts tps nth_append)
  ultimately show ?thesis using 1(1) s' by (simp add: tps encode_list_append del: upt_Suc)
qed

section \<open>What the receiver holds of a block\<close>

definition block_ok :: "32 word \<Rightarrow> bytes list \<Rightarrow> bytes list \<Rightarrow> bool" where
  "block_ok b ps P \<longleftrightarrow> aligned b \<and> length ps = fecK \<and> (\<forall>p \<in> set ps. length p \<le> datagramMaxProtected) \<and>
     length P = fecM \<and> (\<forall>p \<in> set P. length p = shard_size ps)"

definition shard_at :: "bytes list \<Rightarrow> bytes list \<Rightarrow> nat \<Rightarrow> bytes" where
  "shard_at ps P i = (if i < fecK then shard_of (ps ! i) else P ! (i - fecK))"

lemma shard_size_ge: "p \<in> set ps \<Longrightarrow> 2 + length p \<le> shard_size ps"
  unfolding shard_size_def by (rule foldr_max_ge)

lemma shard_size_ge2: "ps \<noteq> [] \<Longrightarrow> 2 \<le> shard_size ps"
  by (cases ps) (auto simp: shard_size_def le_max_iff_disj)

lemma block_data_hd: "ps \<noteq> [] \<Longrightarrow> length (block_data ps ! 0) = shard_size ps"
  using shard_size_ge [of "hd ps" ps] by (cases ps) (auto simp: block_data_def pad_to_def)

lemma block_ok_len: "block_ok b ps P \<Longrightarrow> i < fecK \<Longrightarrow> length (ps ! i) < 65536"
proof -
  assume "block_ok b ps P" "i < fecK"
  then have "length (ps ! i) \<le> datagramMaxProtected" by (simp add: block_ok_def)
  then show ?thesis by (simp add: fec_consts)
qed

lemma ingest_block_packet:
  assumes ok: "block_ok b ps P" and i: "i < fecK + fecM"
  shows "ingest now (block_packet b ps P i) r =
    r\<lparr>fr_firstAt := (if gm_get (fr_firstAt r) b = None then gm_put b now (fr_firstAt r) else fr_firstAt r),
      fr_received := (if i < fecK then gm_put (b + of_nat i) (ps ! i) (fr_received r) else fr_received r),
      fr_pending := (gm_get (fr_firstAt r) b = None \<or> fr_pending r),
      fr_dec := (fr_dec r)\<lparr>fd_totalPackets := fd_totalPackets (fr_dec r) + 1,
        fd_packetBuffer := gm_put (b + of_nat i) (shard_at ps P i) (fd_packetBuffer (fr_dec r))\<rparr>\<rparr>"
proof -
  have pk: "block_packet b ps P i = fec_packet (b + of_nat i) (shard_at ps P i)"
    by (simp add: block_packet_def shard_at_def)
  have ne: "ps \<noteq> []" using ok by (auto simp: block_ok_def fec_consts)
  have body: "2 \<le> length (shard_at ps P i)"
    using ok i shard_size_ge2 [OF ne] by (auto simp: shard_at_def block_ok_def)
  have i14: "i < 14" using i by (simp add: fec_consts)
  have blk: "block_of (b + of_nat i) = b" using block_of_off ok i14 by (simp add: block_ok_def)
  have pos: "(b + of_nat i - b < of_nat fecK) \<longleftrightarrow> i < fecK"
    using i14 by (simp add: word_less_nat_alt unat_of_nat fec_consts)
  show ?thesis
  proof (cases "i < fecK")
    case True
    from block_ok_len [OF ok this] have dl: "unat (get16 (shard_at ps P i ! 0) (shard_at ps P i ! 1)) = length (ps ! i)"
      using True by (simp add: shard_at_def shard_of_len [simplified])
    have tk: "take (length (ps ! i)) (drop 2 (shard_at ps P i)) = ps ! i" "length (shard_at ps P i) = 2 + length (ps ! i)"
      using True by (simp_all add: shard_at_def shard_of_def)
    show ?thesis using True body blk pos dl tk
      by (cases r) (auto simp: pk ingest_def Let_def markerFEC_def DecodeFEC_def fec_packet_nth)
  next
    case False
    then show ?thesis using body blk pos
      by (cases r) (auto simp: pk ingest_def Let_def markerFEC_def DecodeFEC_def fec_packet_nth)
  qed
qed

text \<open>The receiver holds exactly the packets \<open>I\<close> of the block.\<close>

definition holds_block :: "32 word \<Rightarrow> bytes list \<Rightarrow> bytes list \<Rightarrow> nat set \<Rightarrow> fecReceiver \<Rightarrow> bool" where
  "holds_block b ps P I r \<longleftrightarrow> (\<forall>j < fecK + fecM.
     gm_get (fr_received r) (b + of_nat j) = (if j \<in> I \<and> j < fecK then Some (ps ! j) else None) \<and>
     gm_get (fd_packetBuffer (fr_dec r)) (b + of_nat j) = (if j \<in> I then Some (shard_at ps P j) else None))"

lemma ingest_holds:
  assumes ok: "block_ok b ps P" and i: "i < fecK + fecM" and h: "holds_block b ps P I r"
  shows "holds_block b ps P (insert i I) (ingest now (block_packet b ps P i) r)"
proof -
  have off: "j < fecK + fecM \<Longrightarrow> ((of_nat j :: 32 word) = of_nat i) = (j = i)" for j
    using word_off_eq [of j i b] i by (simp add: fec_consts)
  show ?thesis using h
    by (auto simp: ingest_block_packet [OF ok i] holds_block_def off)
qed

definition arrive :: "32 word \<Rightarrow> bytes list \<Rightarrow> bytes list \<Rightarrow> (int \<times> nat) list \<Rightarrow> fecReceiver \<Rightarrow> fecReceiver" where
  "arrive b ps P arr r = fold (\<lambda>(t, i) r. fst (processIncoming t (block_packet b ps P i) r)) arr r"

lemma processIncoming_block: "processIncoming t (block_packet b ps P i) r = (ingest t (block_packet b ps P i) r, [])"
  by (simp add: processIncoming_def block_packet_def fec_packet_def fec_consts)

lemma arrive_holds:
  assumes "block_ok b ps P" and "\<forall>(t, i) \<in> set arr. i < fecK + fecM" and "holds_block b ps P I r"
  shows "holds_block b ps P (I \<union> snd ` set arr) (arrive b ps P arr r)"
  using assms(2,3)
proof (induction arr arbitrary: r I)
  case (Cons a arr)
  obtain t i where a: "a = (t, i)" by (cases a)
  have "holds_block b ps P (insert i I) (ingest t (block_packet b ps P i) r)"
    using Cons.prems a by (intro ingest_holds [OF assms(1)]) auto
  from Cons.IH [OF _ this] Cons.prems(1) show ?case
    by (simp add: a arrive_def processIncoming_block)
qed (simp add: arrive_def)

lemma fill_missing_get:
  assumes "distinct is" "\<forall>i \<in> set is. i < 14" "j < 14"
  shows "gm_get (fill_missing b is (map f (filter (\<lambda>i. gm_get m (b + of_nat i) = None) is)) m) (b + of_nat j) =
    (if j \<in> set is \<and> gm_get m (b + of_nat j) = None then Some (f j) else gm_get m (b + of_nat j))"
  using assms(1,2)
proof (induction "is" arbitrary: m)
  case (Cons i "is")
  have off: "k < 14 \<Longrightarrow> ((of_nat k :: 32 word) = of_nat i) = (k = i)" for k
    using word_off_eq [of k i 0] Cons.prems by simp
  show ?case
  proof (cases "gm_get m (b + of_nat i) = None")
    case True
    have "filter (\<lambda>k. gm_get (gm_put (b + of_nat i) (f i) m) (b + of_nat k) = None) is
        = filter (\<lambda>k. gm_get m (b + of_nat k) = None) is"
      using Cons.prems off by (intro filter_cong) auto
    with Cons.IH [of "gm_put (b + of_nat i) (f i) m"] Cons.prems True off assms(3)
    show ?thesis by auto
  next
    case False
    show ?thesis
    proof (cases "filter (\<lambda>k. gm_get m (b + of_nat k) = None) is")
      case Nil
      then show ?thesis using False by (auto simp: filter_empty_conv)
    next
      case (Cons d ds)
      then show ?thesis using False Cons.IH [of m] Cons.prems by auto
    qed
  qed
qed simp

lemma Reconstruct_block:
  assumes ok: "block_ok b ps P" and h: "holds_block b ps P I r" and rs: "rs_recovers rs (block_data ps) P"
    and I: "I \<subseteq> {..<fecK + fecM}" "fecK \<le> card I" "i \<in> I" "fecK \<le> i"
  shows "Reconstruct rs b fecK fecM (fr_dec r) = map ((!) ps) (filter (\<lambda>i. i \<notin> I) [0..<fecK])"
proof -
  let ?look = "\<lambda>i. gm_get (fd_packetBuffer (fr_dec r)) (b + of_nat i)"
  let ?shards = "map ?look [0..<fecK + fecM]"
  have look: "j < fecK + fecM \<Longrightarrow> ?look j = (if j \<in> I then Some (shard_at ps P j) else None)" for j
    using h by (simp add: holds_block_def)
  have len: "j < fecK + fecM \<Longrightarrow> length (shard_at ps P j) \<le> shard_size ps" for j
    using ok shard_size_ge [of "ps ! j" ps] by (auto simp: shard_at_def block_ok_def)
  have "filter (\<lambda>s. s \<noteq> None) ?shards = map ?look (filter (\<lambda>j. j \<in> I) [0..<fecK + fecM])"
    unfolding filter_map o_def using look by (intro arg_cong [of _ _ "map ?look"] filter_cong) auto
  moreover have "length (filter (\<lambda>j. j \<in> I) [0..<fecK + fecM]) = card I"
    using I(1) by (subst distinct_card [symmetric]) (auto intro: arg_cong [of _ _ card])
  ultimately have hv: "\<not> length (filter (\<lambda>s. s \<noteq> None) ?shards) < fecK" using I(2) by simp
  have mx: "foldr (\<lambda>s n. case s of None \<Rightarrow> n | Some d \<Rightarrow> max (length d) n) ?shards 0 = shard_size ps" (is "?mx = _")
  proof (rule antisym)
    have le: "foldr (\<lambda>s n. case s of None \<Rightarrow> n | Some d \<Rightarrow> max (length d) n) ss 0 \<le> n"
      if "\<And>d. Some d \<in> set ss \<Longrightarrow> length d \<le> n" for ss :: "bytes option list" and n
      using that by (induction ss) (auto split: option.splits)
    show "?mx \<le> shard_size ps" by (rule le) (use look len in \<open>auto split: if_splits\<close>)
    have ge: "Some d \<in> set ss \<Longrightarrow> length d \<le> foldr (\<lambda>s n. case s of None \<Rightarrow> n | Some d \<Rightarrow> max (length d) n) ss 0"
      for ss and d :: bytes
      by (induction ss) (auto split: option.splits)
    have "i < fecK + fecM" using I by auto
    then have "Some (P ! (i - fecK)) \<in> set ?shards" "length (P ! (i - fecK)) = shard_size ps"
      using look [of i] I(3,4) ok by (force simp: shard_at_def block_ok_def image_iff)+
    then show "shard_size ps \<le> ?mx" using ge by fastforce
  qed
  have ld: "length (block_data ps @ P) = fecK + fecM" using ok by (simp add: block_data_def block_ok_def)
  have "map (map_option (pad_to (shard_size ps))) ?shards = mask_shards (\<lambda>j. j \<in> I) (block_data ps @ P)"
    unfolding mask_shards_def ld using look ok
    by (auto simp: shard_at_def block_data_def nth_append block_ok_def pad_to_def)
  moreover have "{j. j < fecK + fecM \<and> j \<in> I} = I" using I(1) by auto
  ultimately have rec: "rs_reconstruct rs fecK fecM (map (map_option (pad_to (shard_size ps))) ?shards)
      = Some (block_data ps @ P)" and new: "rs_new rs fecK fecM"
    using rs I(2) by (simp_all add: rs_recovers_def)
  have "shard_payload ((block_data ps @ P) ! j) = [ps ! j]" if "j < fecK" for j
  proof -
    show ?thesis using ok that block_ok_len [OF ok that]
      by (simp add: block_data_def nth_append block_ok_def shard_payload_pad)
  qed
  then have cc: "concat (map (\<lambda>i. if ?look i = None then shard_payload ((block_data ps @ P) ! i) else []) js)
      = map ((!) ps) (filter (\<lambda>i. i \<notin> I) js)" if "set js \<subseteq> {..<fecK}" for js
    using that look by (induction js) auto
  have "set [0..<fecK] \<subseteq> {..<fecK}" by auto
  note cc = cc [OF this]
  show ?thesis unfolding Reconstruct_def Let_def mx rec
    using hv new cc by (simp only: if_False not_True_eq_False option.case)
qed

lemma fold_gm_del: "gm_get (fold (\<lambda>i. gm_del (g i)) is m) k = (if k \<in> g ` set is then None else gm_get m k)"
  by (induction "is" arbitrary: m) auto

lemma deliverBlock_recovers:
  assumes ok: "block_ok b ps P" and h: "holds_block b ps P I r" and rs: "rs_recovers rs (block_data ps) P"
    and I: "I \<subseteq> {..<fecK + fecM}" "fecK \<le> card I"
  shows "snd (deliverBlock rs b r) = filter (\<lambda>p. p \<noteq> []) ps"
proof -
  let ?get = "\<lambda>m i. gm_get m (b + of_nat i)"
  define received where "received = (if \<exists>i \<in> set [0..<fecK]. ?get (fr_received r) i = None
      then fill_missing b [0..<fecK] (Reconstruct rs b fecK fecM (fr_dec r)) (fr_received r) else fr_received r)"
  have rc: "i < fecK \<Longrightarrow> ?get (fr_received r) i = (if i \<in> I then Some (ps ! i) else None)" for i
    using h by (simp add: holds_block_def)
  have all: "?get received i = Some (ps ! i)" if i: "i < fecK" for i
  proof (cases "\<exists>i \<in> set [0..<fecK]. ?get (fr_received r) i = None")
    case True
    then obtain k where k: "k < fecK" "k \<notin> I" using rc by (auto split: if_splits)
    obtain l where l: "l \<in> I" "fecK \<le> l"
    proof (rule ccontr)
      assume "\<not> thesis"
      then have "I \<subseteq> {..<fecK} - {k}" using that k by (auto simp: not_le [symmetric])
      then have "card I \<le> fecK - 1" using k card_mono [of "{..<fecK} - {k}" I] by simp
      then show False using I(2) by (simp add: fec_consts)
    qed
    have "filter (\<lambda>i. i \<notin> I) [0..<fecK] = filter (\<lambda>i. ?get (fr_received r) i = None) [0..<fecK]"
      using rc by (intro filter_cong) auto
    then have "received = fill_missing b [0..<fecK] (map ((!) ps) (filter (\<lambda>i. ?get (fr_received r) i = None) [0..<fecK]))
        (fr_received r)"
      using True Reconstruct_block [OF ok h rs I l] by (simp only: received_def if_True)
    then show ?thesis using fill_missing_get [of "[0..<fecK]" i b "(!) ps" "fr_received r"] i rc [OF i]
      by (simp add: fec_consts del: upt_rec_numeral upt_Suc)
  next
    case False
    then have "?get (fr_received r) i \<noteq> None" using i by simp
    moreover have "received = fr_received r" using False by (simp only: received_def if_False)
    ultimately show ?thesis using rc [OF i] by (auto split: if_splits)
  qed
  have "snd (deliverBlock rs b r) = concat (map (\<lambda>i. case ?get received i of
      Some p \<Rightarrow> if p \<noteq> [] then [p] else [] | None \<Rightarrow> []) [0..<fecK])"
    by (simp add: deliverBlock_def Let_def received_def)
  also have "\<dots> = concat (map (\<lambda>i. if ps ! i \<noteq> [] then [ps ! i] else []) [0..<fecK])"
    using all by (intro arg_cong [of _ _ concat] map_cong) auto
  also have "\<dots> = concat (map (\<lambda>p. if p \<noteq> [] then [p] else []) (map ((!) ps) [0..<fecK]))"
    by (simp add: o_def)
  also have "map ((!) ps) [0..<fecK] = ps" using ok map_nth [of ps] by (simp add: block_ok_def)
  also have "concat (map (\<lambda>p. if p \<noteq> [] then [p] else []) ps) = filter (\<lambda>p. p \<noteq> []) ps"
    by (induction ps) auto
  finally show ?thesis .
qed

lemma deliverBlock_state: "fst (deliverBlock rs b r) = r\<lparr>fr_received := fr_received (fst (deliverBlock rs b r)),
    fr_dec := fr_dec (fst (deliverBlock rs b r))\<rparr>"
  by (cases r) (simp add: deliverBlock_def Let_def)

lemma arrive_firstAt:
  assumes "block_ok b ps P" and "\<forall>(t, i) \<in> set arr. i < fecK + fecM" and "fr_firstAt r = [(b, t0)]"
  shows "fr_firstAt (arrive b ps P arr r) = [(b, t0)]"
  using assms(2,3)
proof (induction arr arbitrary: r)
  case (Cons a arr)
  obtain t i where a: "a = (t, i)" by (cases a)
  have "fr_firstAt (ingest t (block_packet b ps P i) r) = [(b, t0)]"
    using Cons.prems a by (simp add: ingest_block_packet [OF assms(1)] gm_get_def)
  with Cons.IH Cons.prems(1) show ?case by (simp add: a arrive_def processIncoming_block)
qed (simp add: arrive_def)

lemma arrive_new_firstAt:
  assumes "block_ok b ps P" and "\<forall>(t, i) \<in> set arr. i < fecK + fecM" and "arr \<noteq> []"
  shows "fr_firstAt (arrive b ps P arr newRTFECReceiver) = [(b, fst (hd arr))]"
proof -
  obtain t i arr' where a: "arr = (t, i) # arr'" using assms(3) by (cases arr) auto
  have "fr_firstAt (ingest t (block_packet b ps P i) newRTFECReceiver) = [(b, t)]"
    using assms a by (simp add: ingest_block_packet newRTFECReceiver_def gm_get_def gm_put_def)
  with arrive_firstAt [OF assms(1), of arr'] assms(2) a show ?thesis
    by (simp add: arrive_def processIncoming_block)
qed

section \<open>Properties of the datagram lane\<close>

text \<open>
  C5: a block of ten payloads sent in a burst survives the loss of any four of its fourteen
  packets. Whatever ten or more of them arrive, in whatever order and however often each, the
  first sweep after the block's waiting time hands over exactly the non-empty payloads, in the
  order they were sent, and leaves no block behind.
\<close>

theorem fec_block_delivery:
  assumes s: "fs_enc s = Some fe" "enc_holds [] fe" "fs_cnt s = 0" "aligned (fs_blockStart s)"
    and tps: "length tps = fecK" "\<forall>(t, p) \<in> set tps. length p \<le> datagramMaxProtected"
    and burst: "in_burst (fst (hd tps)) (map fst (tl tps))"
    and rs: "rs_recovers rs (block_data (map snd tps)) P"
    and arr: "\<forall>(t, i) \<in> set arr. i < fecK + fecM" "fecK \<le> card (snd ` set arr)"
    and now: "now - fst (hd arr) \<ge> fecBlockWait"
  shows "\<exists>s' pkts. encode_list rs tps s = Some (s', pkts) \<and> length pkts = fecK + fecM \<and>
    (let r = fold (\<lambda>(t, i) r. fst (processIncoming t (pkts ! i) r)) arr newRTFECReceiver;
         (r', ps, left) = fec_sweep rs now r
     in ps = filter (\<lambda>p. p \<noteq> []) (map snd tps) \<and> \<not> left \<and> fr_firstAt r' = [])"
proof -
  let ?b = "fs_blockStart s" and ?ps = "map snd tps"
  have ne: "?ps \<noteq> []" "length ?ps = fecK" using tps(1) by (auto simp: fec_consts)
  have ok: "block_ok ?b ?ps P" using s(4) tps rs block_data_hd [OF ne(1)] by (auto simp: block_ok_def rs_recovers_def)
  obtain s' where enc: "encode_list rs tps s = Some (s', map (block_packet ?b ?ps P) [0..<fecK + fecM])"
    using encode_block [OF s(1-3) tps burst, of rs P] rs by (auto simp: rs_recovers_def)
  have "fold (\<lambda>(t, i) r. fst (processIncoming t (map (block_packet ?b ?ps P) [0..<fecK + fecM] ! i) r)) arr
      newRTFECReceiver = arrive ?b ?ps P arr newRTFECReceiver" (is "_ = ?r")
    unfolding arrive_def using arr(1) by (intro fold_cong) auto
  moreover have "holds_block ?b ?ps P (snd ` set arr) ?r"
    using arrive_holds [OF ok arr(1), of "{}" newRTFECReceiver]
    by (simp add: holds_block_def newRTFECReceiver_def NewFECDecoder_def gm_get_def)
  then have del: "snd (deliverBlock rs ?b (?r\<lparr>fr_firstAt := []\<rparr>)) = filter (\<lambda>p. p \<noteq> []) ?ps"
    using arr by (intro deliverBlock_recovers [OF ok _ rs]) (auto simp: holds_block_def)
  have "arr \<noteq> []" using arr(2) by (auto simp: fec_consts)
  then have fa: "fr_firstAt ?r = [(?b, fst (hd arr))]" using arrive_new_firstAt ok arr(1) by blast
  have st: "fr_firstAt (fst (deliverBlock rs ?b (?r\<lparr>fr_firstAt := []\<rparr>))) = []"
    by (subst deliverBlock_state) simp
  have "fec_sweep rs now ?r = (fst (deliverBlock rs ?b (?r\<lparr>fr_firstAt := []\<rparr>)), filter (\<lambda>p. p \<noteq> []) ?ps, False)"
    using now del by (simp add: fec_sweep_def fa gm_del_def Let_def case_prod_beta)
  ultimately show ?thesis using enc st by simp
qed

text \<open>A code for blocks whose ten shards are equal: the parity repeats the shard.\<close>

definition repeat_code :: rs_code where
  "repeat_code = \<lparr>rs_new = (\<lambda>k m. True),
     rs_encode = (\<lambda>k m D. Some (replicate m (hd D))),
     rs_reconstruct = (\<lambda>k m shs. case filter (\<lambda>s. s \<noteq> None) shs of
        Some x # _ \<Rightarrow> Some (replicate (k + m) x) | _ \<Rightarrow> None)\<rparr>"

lemma repeat_code_recovers: "rs_recovers repeat_code (replicate fecK x) (replicate fecM x)"
proof -
  have "rs_reconstruct repeat_code fecK fecM (mask_shards keep (replicate (fecK + fecM) x)) = Some (replicate (fecK + fecM) x)"
    if "fecK \<le> card {i. i < fecK + fecM \<and> keep i}" for keep
  proof -
    have "card {i. i < fecK + fecM \<and> keep i} \<noteq> 0" using that by (simp only: fecK_def)
    then have "{i. i < fecK + fecM \<and> keep i} \<noteq> {}" by (metis card.empty)
    then obtain i where i: "i < fecK + fecM" "keep i" by blast
    let ?f = "filter (\<lambda>s. s \<noteq> None) (mask_shards keep (replicate (fecK + fecM) x))"
    have "Some x \<in> set ?f" using i by (force simp: mask_shards_def)
    moreover have "set ?f \<subseteq> {Some x}" by (auto simp: mask_shards_def)
    moreover have "Some x \<in> set zs \<Longrightarrow> set zs \<subseteq> {Some x} \<Longrightarrow> \<exists>ys. zs = Some x # ys" for zs by (cases zs) auto
    ultimately obtain ys where "?f = Some x # ys" by blast
    then show ?thesis by (simp add: repeat_code_def)
  qed
  then show ?thesis
    by (simp add: rs_recovers_def replicate_add [symmetric]) (simp add: repeat_code_def fec_consts)
qed

lemma in_burst_replicate: "in_burst t (replicate n t)"
  by (induction n) (simp_all add: fec_consts)

lemma shard_size_replicate: "0 < n \<Longrightarrow> shard_size (replicate n p) = 2 + length p"
proof -
  have "shard_size (replicate (Suc n) p) = 2 + length p" for n
    by (induction n) (simp_all add: shard_size_def)
  then show "0 < n \<Longrightarrow> ?thesis" by (cases n) auto
qed

theorem fec_block_delivery_witness:
  "\<exists>s' pkts. encode_list repeat_code (replicate 10 (0, [7])) (newRTFECSender repeat_code) = Some (s', pkts) \<and>
    length pkts = fecK + fecM \<and>
    (let r = fold (\<lambda>(t, i) r. fst (processIncoming t (pkts ! i) r)) (map (\<lambda>i. (5, 13 - i)) [0..<10]) newRTFECReceiver;
         (r', ps, left) = fec_sweep repeat_code (5 + fecBlockWait) r
     in ps = filter (\<lambda>p. p \<noteq> []) (map snd (replicate 10 (0 :: int, [7]))) \<and> \<not> left \<and> fr_firstAt r' = [])"
proof (rule fec_block_delivery [where P = "replicate fecM [0, 1, 7]"])
  show "fs_enc (newRTFECSender repeat_code) = Some \<lparr>fe_k = 10, fe_m = 4, fe_shards = replicate 14 None, fe_shardSize = 0, fe_idx = 0\<rparr>"
    by (simp add: newRTFECSender_def NewFECEncoder_def repeat_code_def fec_consts)
  show "enc_holds [] \<lparr>fe_k = 10, fe_m = 4, fe_shards = replicate 14 None, fe_shardSize = 0, fe_idx = 0\<rparr>"
    by (simp add: enc_holds_def fec_consts)
  show "fs_cnt (newRTFECSender repeat_code) = 0" "aligned (fs_blockStart (newRTFECSender repeat_code))"
    by (simp_all add: newRTFECSender_def aligned_def)
  show "in_burst (fst (hd (replicate 10 (0, [7])))) (map fst (tl (replicate 10 (0 :: int, [7 :: byte]))))"
    by (simp add: in_burst_replicate)
  have "block_data (replicate 10 [7]) = replicate fecK [0, 1, 7]"
    by (simp add: block_data_def shard_size_replicate pad_to_def shard_of_def put16_def fecK_def)
  then show "rs_recovers repeat_code (block_data (map snd (replicate 10 (0 :: int, [7])))) (replicate fecM [0, 1, 7])"
    using repeat_code_recovers by simp
  have "snd ` set (map (\<lambda>i. (5 :: int, 13 - i)) [0..<10]) = {4..<14 :: nat}" by code_simp
  then show "fecK \<le> card (snd ` set (map (\<lambda>i. (5 :: int, 13 - i :: nat)) [0..<10]))" by (simp add: fecK_def)
qed (auto simp add: fec_consts hd_map simp del: upt_rec_numeral)

text \<open>
  C6: the sender never panics. From the state it starts in, every sequence of payloads of any
  size, sent at any times, with any parity the code returns, is encoded.
\<close>

theorem fec_sender_total: "\<exists>s pkts. encode_list rs tps (newRTFECSender rs) = Some (s, pkts) \<and> sender_ok s"
proof -
  have "sender_ok s \<Longrightarrow> \<exists>s' pkts. encode_list rs tps s = Some (s', pkts) \<and> sender_ok s'" for s
  proof (induction tps arbitrary: s)
    case (Cons tp tps)
    obtain t p where tp: "tp = (t, p)" by (cases tp)
    obtain s1 pk where 1: "fec_encode rs t p s = Some (s1, pk)" "sender_ok s1"
      using fec_encode_ok [OF Cons.prems] by blast
    from Cons.IH [OF 1(2)] 1(1) tp show ?case by auto
  qed simp
  then show ?thesis using newRTFECSender_ok by blast
qed



end
