(* ===== verification/Threads.thy ===== *)
theory Threads
  imports Prelude "HOL-Library.Multiset"
begin

text \<open>
  Goroutines that share a state. An operation whose code takes its locks more than once is a
  sequence of atomic actions; the actions of concurrent operations interleave freely. The locale
  gives the proof rule the components use: an invariant over the state and the actions still to
  run that every start and every action keeps.
\<close>

text \<open>
  \<open>exec a s\<close> performs one atomic action and returns what the same goroutine does next; \<open>entry\<close>
  says which actions begin an operation.
\<close>

inductive tstep :: "('a \<Rightarrow> 's \<Rightarrow> 's \<times> 'a list) \<Rightarrow> ('a \<Rightarrow> bool) \<Rightarrow> 's \<times> 'a list list \<Rightarrow> 's \<times> 'a list list \<Rightarrow> bool"
  for exec :: "'a \<Rightarrow> 's \<Rightarrow> 's \<times> 'a list" and entry :: "'a \<Rightarrow> bool" where
  spawn: "entry a \<Longrightarrow> tstep exec entry (s, ts) (s, [a] # ts)"
| run: "exec a s = (s', fs) \<Longrightarrow> tstep exec entry (s, xs @ (a # as) # ys) (s', xs @ (fs @ as) # ys)"

inductive_cases tstepE: "tstep exec entry st st'"

abbreviation treach :: "('a \<Rightarrow> 's \<Rightarrow> 's \<times> 'a list) \<Rightarrow> ('a \<Rightarrow> bool) \<Rightarrow> 's \<Rightarrow> 's \<Rightarrow> 'a list list \<Rightarrow> bool" where
  "treach exec entry s0 s ts \<equiv> (tstep exec entry)\<^sup>*\<^sup>* (s0, []) (s, ts)"

text \<open>Running one goroutine to its end without interleaving, with fuel for its actions.\<close>

fun run_alone :: "nat \<Rightarrow> ('a \<Rightarrow> 's \<Rightarrow> 's \<times> 'a list) \<Rightarrow> 'a list \<Rightarrow> 's \<Rightarrow> 's option" where
  "run_alone n exec [] s = Some s"
| "run_alone 0 exec (a # as) s = None"
| "run_alone (Suc n) exec (a # as) s = (let (s', fs) = exec a s in run_alone n exec (fs @ as) s')"

lemma run_alone_reach:
  "run_alone n exec as s = Some s' \<Longrightarrow> (tstep exec entry)\<^sup>*\<^sup>* (s, as # ts) (s', [] # ts)"
proof (induction n exec as s rule: run_alone.induct)
  case (3 n exec a as s)
  obtain s1 fs where e: "exec a s = (s1, fs)" by (cases "exec a s")
  then have "(tstep exec entry)\<^sup>*\<^sup>* (s1, (fs @ as) # ts) (s', [] # ts)" using 3 by simp
  moreover have "tstep exec entry (s, (a # as) # ts) (s1, (fs @ as) # ts)"
    using tstep.run [where exec = exec and a = a and s = s and xs = "[]", OF e] by simp
  ultimately show ?case by (rule converse_rtranclp_into_rtranclp [rotated])
qed auto

text \<open>An operation that runs alone from a reachable state ends in a reachable state.\<close>

lemma treach_alone:
  assumes "treach exec entry s0 s ts" "entry a" "run_alone n exec [a] s = Some s'"
  shows "treach exec entry s0 s' ([] # ts)"
  using assms run_alone_reach [OF assms(3), of entry ts] tstep.spawn [where entry = entry and a = a and exec = exec and s = s and ts = ts, OF assms(2)]
  by (meson converse_rtranclp_into_rtranclp rtranclp_trans)

locale atomic_invariant =
  fixes exec :: "'a \<Rightarrow> 's \<Rightarrow> 's \<times> 'a list"
    and entry :: "'a \<Rightarrow> bool"
    and inv :: "'s \<Rightarrow> 'a multiset \<Rightarrow> bool"
  assumes inv_spawn: "entry a \<Longrightarrow> inv s M \<Longrightarrow> inv s (add_mset a M)"
    and inv_exec: "exec a s = (s', fs) \<Longrightarrow> inv s (add_mset a M) \<Longrightarrow> inv s' (mset fs + M)"
begin

lemma inv_step:
  assumes "tstep exec entry (s, ts) (s', ts')" "inv s (mset (concat ts))"
  shows "inv s' (mset (concat ts'))"
  using assms(1)
proof (cases rule: tstep.cases)
  case (spawn a)
  then show ?thesis using inv_spawn assms(2) by simp
next
  case (run a fs xs as ys)
  have "inv s (add_mset a (mset (concat xs) + mset as + mset (concat ys)))"
    using assms(2) run by (simp add: ac_simps)
  from inv_exec [OF run(3) this] show ?thesis using run by (simp add: ac_simps)
qed

lemma inv_reach:
  assumes "treach exec entry s0 s ts" "inv s0 {#}"
  shows "inv s (mset (concat ts))"
  using assms(1)
proof (induction rule: rtranclp_induct2)
  case refl
  then show ?case using assms(2) by simp
next
  case (step s1 ts1 s2 ts2)
  then show ?case using inv_step by blast
qed

end

end
