(* ===== verification/Keylimits.thy ===== *)
theory Keylimits
  imports Threads GoStrings
begin

text \<open>
  \<^verbatim>\<open>core/keylimits/keylimits.go\<close>: the session table of the server with its caps per key, its
  global cap and its reconnect window, eviction and expiry. The texts of the denials are left
  out; a closer is known by a number. The operations that take their locks more than once are
  sequences of atomic actions, which the second half of the theory lets interleave.
\<close>

datatype DenyReason = ReasonNone | ReasonActiveCap | ReasonGlobalCap | ReasonSoftIPCap | ReasonRateLimit

record Limits =
  MaxActiveSessions :: int
  GlobalCap :: int
  SoftIPCap :: int
  BurstPerMinute :: int
  SessionTTL :: int

record Session =
  SessionID :: string
  RemoteIP :: string
  StartedAt :: int
  LastSeen :: int
  IsTorrent :: bool

record burstWindow =
  bw_since :: int
  bw_count :: int

type_synonym sessions = "(string, (string, Session) gomap) gomap"

record Manager =
  mg_defaultLimits :: Limits
  mg_keyLimits :: "(string, Limits) gomap"
  mg_sessions :: sessions
  mg_burst :: "(string, burstWindow) gomap"
  mg_totalSessions :: int
  mg_closers :: "(string, (string, nat) gomap) gomap"

definition time_Minute :: int where "time_Minute = 60 * 1000000000"

definition New_Manager :: "Limits \<Rightarrow> Manager" where
  "New_Manager defaults = \<lparr>mg_defaultLimits = defaults, mg_keyLimits = [], mg_sessions = [], mg_burst = [],
     mg_totalSessions = 0, mg_closers = []\<rparr>"

definition SetLimits :: "string \<Rightarrow> Limits \<Rightarrow> Manager \<Rightarrow> Manager" where
  "SetLimits keyID l m = m\<lparr>mg_keyLimits := gm_put keyID l (mg_keyLimits m)\<rparr>"

definition ClearLimits :: "string \<Rightarrow> Manager \<Rightarrow> Manager" where
  "ClearLimits keyID m = m\<lparr>mg_keyLimits := gm_del keyID (mg_keyLimits m)\<rparr>"

definition SetDefault :: "Limits \<Rightarrow> Manager \<Rightarrow> Manager" where
  "SetDefault l m = m\<lparr>mg_defaultLimits := l\<rparr>"

definition limitsFor :: "Manager \<Rightarrow> string \<Rightarrow> Limits" where
  "limitsFor m keyID = (case gm_get (mg_keyLimits m) keyID of Some l \<Rightarrow> l | None \<Rightarrow> mg_defaultLimits m)"

definition deleteSession :: "string \<Rightarrow> string \<Rightarrow> Manager \<Rightarrow> Manager \<times> bool" where
  "deleteSession keyID sessionID m =
     (case gm_get (mg_sessions m) keyID of None \<Rightarrow> (m, False)
      | Some km \<Rightarrow>
          if gm_get km sessionID = None then (m, False)
          else let km = gm_del sessionID km in
            (m\<lparr>mg_sessions := if length km = 0 then gm_del keyID (mg_sessions m) else gm_put keyID km (mg_sessions m)\<rparr>, True))"

definition normalCount :: "(string, Session) gomap \<Rightarrow> int" where
  "normalCount km = int (length (filter (\<lambda>(_, s). \<not> IsTorrent s) km))"

definition countUniqueIPs :: "(string, Session) gomap \<Rightarrow> string \<Rightarrow> int" where
  "countUniqueIPs km adding = int (length (remdups (adding # map (RemoteIP \<circ> snd) km)))"

text \<open>The reconnect window of \<^verbatim>\<open>Admit\<close>: whether it refuses, and the window counted up if not.\<close>

definition admit_burst :: "int \<Rightarrow> string \<Rightarrow> Limits \<Rightarrow> Manager \<Rightarrow> Manager \<times> bool" where
  "admit_burst now keyID l m =
     (if BurstPerMinute l > 0
      then let bw = (case gm_get (mg_burst m) keyID of
                       Some bw \<Rightarrow> if now - bw_since bw > time_Minute then \<lparr>bw_since = now, bw_count = 0\<rparr> else bw
                     | None \<Rightarrow> \<lparr>bw_since = now, bw_count = 0\<rparr>)
           in if bw_count bw \<ge> BurstPerMinute l
              then (m\<lparr>mg_burst := gm_put keyID bw (mg_burst m)\<rparr>, True)
              else (m\<lparr>mg_burst := gm_put keyID (bw\<lparr>bw_count := bw_count bw + 1\<rparr>) (mg_burst m)\<rparr>, False)
      else (m, False))"

text \<open>\<open>now\<close>, \<open>started\<close> and \<open>seen\<close> are the three readings of the clock.\<close>

definition Admit :: "int \<Rightarrow> int \<Rightarrow> int \<Rightarrow> string \<Rightarrow> string \<Rightarrow> string \<Rightarrow> Manager \<Rightarrow> Manager \<times> DenyReason" where
  "Admit now started seen keyID sessionID remoteIP m =
     (let l = limitsFor m keyID; (m, limited) = admit_burst now keyID l m in
      if limited then (m, ReasonRateLimit)
      else if GlobalCap (mg_defaultLimits m) > 0 \<and> mg_totalSessions m \<ge> GlobalCap (mg_defaultLimits m)
      then (m, ReasonGlobalCap)
      else let km = (case gm_get (mg_sessions m) keyID of Some km \<Rightarrow> km | None \<Rightarrow> []);
               m = m\<lparr>mg_sessions := gm_put keyID km (mg_sessions m)\<rparr>
      in if MaxActiveSessions l > 0 \<and> normalCount km \<ge> MaxActiveSessions l then (m, ReasonActiveCap)
         else if SoftIPCap l > 0 \<and> countUniqueIPs km remoteIP > SoftIPCap l then (m, ReasonSoftIPCap)
         else let s = \<lparr>SessionID = sessionID, RemoteIP = remoteIP, StartedAt = started, LastSeen = seen, IsTorrent = False\<rparr>
              in (m\<lparr>mg_sessions := gm_put keyID (gm_put sessionID s km) (mg_sessions m),
                    mg_totalSessions := mg_totalSessions m + 1\<rparr>, ReasonNone))"

text \<open>A field update through the session's pointer, when the session exists.\<close>

definition upd_session :: "string \<Rightarrow> string \<Rightarrow> (Session \<Rightarrow> Session) \<Rightarrow> Manager \<Rightarrow> Manager" where
  "upd_session keyID sessionID f m =
     (case gm_get (mg_sessions m) keyID of None \<Rightarrow> m
      | Some km \<Rightarrow> (case gm_get km sessionID of None \<Rightarrow> m
        | Some s \<Rightarrow> m\<lparr>mg_sessions := gm_put keyID (gm_put sessionID (f s) km) (mg_sessions m)\<rparr>))"

definition MarkTorrent :: "string \<Rightarrow> string \<Rightarrow> Manager \<Rightarrow> Manager" where
  "MarkTorrent keyID sessionID = upd_session keyID sessionID (\<lambda>s. s\<lparr>IsTorrent := True\<rparr>)"

definition Touch :: "int \<Rightarrow> string \<Rightarrow> string \<Rightarrow> Manager \<Rightarrow> Manager" where
  "Touch now keyID sessionID = upd_session keyID sessionID (\<lambda>s. s\<lparr>LastSeen := now\<rparr>)"

definition addTotal :: "int \<Rightarrow> Manager \<Rightarrow> Manager" where
  "addTotal d m = m\<lparr>mg_totalSessions := mg_totalSessions m + d\<rparr>"

text \<open>The closers' part of \<^verbatim>\<open>Release\<close>.\<close>

definition forgetCloser :: "string \<Rightarrow> string \<Rightarrow> Manager \<Rightarrow> Manager" where
  "forgetCloser keyID sessionID m =
     (case gm_get (mg_closers m) keyID of None \<Rightarrow> m
      | Some km \<Rightarrow> let km = gm_del sessionID km in
          m\<lparr>mg_closers := if length km = 0 then gm_del keyID (mg_closers m) else gm_put keyID km (mg_closers m)\<rparr>)"

definition Release :: "string \<Rightarrow> string \<Rightarrow> Manager \<Rightarrow> Manager" where
  "Release keyID sessionID m =
     (let (m, deleted) = deleteSession keyID sessionID m;
          m = (if deleted then addTotal (-1) m else m)
      in forgetCloser keyID sessionID m)"

definition RegisterCloser :: "string \<Rightarrow> string \<Rightarrow> nat \<Rightarrow> Manager \<Rightarrow> Manager" where
  "RegisterCloser keyID sessionID fn m =
     (let km = (case gm_get (mg_closers m) keyID of Some km \<Rightarrow> km | None \<Rightarrow> [])
      in m\<lparr>mg_closers := gm_put keyID (gm_put sessionID fn km) (mg_closers m)\<rparr>)"

text \<open>
  The entries the evictions collect under the read lock, oldest first. \<^verbatim>\<open>sort.Slice\<close> may put
  entries of equal age in any order; the order of the maps, itself arbitrary, decides here.
\<close>

definition key_entries :: "string \<Rightarrow> (string, Session) gomap \<Rightarrow> ((string \<times> string) \<times> int) list" where
  "key_entries kid km = map (\<lambda>(sid, s). ((kid, sid), StartedAt s)) km"

definition oldest_of :: "string \<Rightarrow> Manager \<Rightarrow> ((string \<times> string) \<times> int) list" where
  "oldest_of keyID m = sort_key snd
     (case gm_get (mg_sessions m) keyID of None \<Rightarrow> [] | Some km \<Rightarrow> key_entries keyID km)"

definition oldest_all :: "Manager \<Rightarrow> ((string \<times> string) \<times> int) list" where
  "oldest_all m = sort_key snd (concat (map (\<lambda>(kid, km). key_entries kid km) (mg_sessions m)))"

fun evict_delete :: "(string \<times> string) list \<Rightarrow> Manager \<Rightarrow> Manager \<times> int" where
  "evict_delete [] m = (m, 0)"
| "evict_delete ((kid, sid) # es) m =
     (let (m, ok) = deleteSession kid sid m; (m, n) = evict_delete es m in (m, if ok then n + 1 else n))"

fun takeClosers :: "(string \<times> string) list \<Rightarrow> Manager \<Rightarrow> Manager \<times> nat list" where
  "takeClosers [] m = (m, [])"
| "takeClosers ((kid, sid) # es) m =
     (case gm_get (mg_closers m) kid of None \<Rightarrow> takeClosers es m
      | Some km \<Rightarrow>
          let fn = (case gm_get km sid of None \<Rightarrow> [] | Some f \<Rightarrow> [f]);
              km = gm_del sid km;
              m = m\<lparr>mg_closers := if length km = 0 then gm_del kid (mg_closers m) else gm_put kid km (mg_closers m)\<rparr>;
              (m, fns) = takeClosers es m
          in (m, fn @ fns))"

text \<open>
  The part the two evictions share: the \<open>n\<close> first entries go, and the closers of those sessions
  run. A negative \<open>n\<close> panics in the allocation of the closers' slice (\<open>None\<close>).
\<close>

definition evict_first :: "((string \<times> string) \<times> int) list \<Rightarrow> int \<Rightarrow> Manager \<Rightarrow> (Manager \<times> nat list) option" where
  "evict_first all n m =
     (if n < 0 then None else
      let es = map fst (take (nat n) all);
          (m, deleted) = evict_delete es m;
          m = (if deleted > 0 then addTotal (- deleted) m else m)
      in Some (takeClosers es m))"

definition EvictOldest :: "string \<Rightarrow> int \<Rightarrow> Manager \<Rightarrow> (Manager \<times> nat list) option" where
  "EvictOldest keyID n m = evict_first (oldest_of keyID m) n m"

definition EvictOldestGlobal :: "int \<Rightarrow> Manager \<Rightarrow> (Manager \<times> nat list) option" where
  "EvictOldestGlobal n m = evict_first (oldest_all m) n m"

definition TotalSessions :: "Manager \<Rightarrow> int" where
  "TotalSessions m = mg_totalSessions m"

record Snapshot =
  sn_KeyID :: string
  sn_ActiveSessions :: nat
  sn_UniqueIPs :: nat
  sn_Limits :: Limits
  sn_Sessions :: "Session list"
  sn_BurstWindow :: int
  sn_BurstSince :: "int option"

definition Snapshot_of :: "Manager \<Rightarrow> string \<Rightarrow> Snapshot" where
  "Snapshot_of m keyID =
     (let bw = gm_get (mg_burst m) keyID;
          snap = \<lparr>sn_KeyID = keyID, sn_ActiveSessions = 0, sn_UniqueIPs = 0, sn_Limits = limitsFor m keyID,
            sn_Sessions = [], sn_BurstWindow = (case bw of None \<Rightarrow> 0 | Some b \<Rightarrow> bw_count b),
            sn_BurstSince = map_option bw_since bw\<rparr>
      in case gm_get (mg_sessions m) keyID of None \<Rightarrow> snap
         | Some km \<Rightarrow> snap\<lparr>sn_ActiveSessions := length km,
             sn_UniqueIPs := length (remdups (map (RemoteIP \<circ> snd) km)),
             sn_Sessions := sort_key StartedAt (map snd km)\<rparr>)"

definition SnapshotAll :: "Manager \<Rightarrow> Snapshot list" where
  "SnapshotAll m = map (\<lambda>(k, _). Snapshot_of m k) (mg_sessions m)"

definition sessionsWithClosers :: "Manager \<Rightarrow> (string \<times> string) list" where
  "sessionsWithClosers m = concat (map (\<lambda>(kid, km). map (\<lambda>(sid, _). (kid, sid)) km) (mg_closers m))"

definition session_ttl :: "Manager \<Rightarrow> string \<Rightarrow> int" where
  "session_ttl m keyID = (let ttl = SessionTTL (limitsFor m keyID) in if ttl \<le> 0 then 30 * time_Minute else ttl)"

definition gc_keeps :: "int \<Rightarrow> Manager \<Rightarrow> string \<Rightarrow> string \<Rightarrow> Session \<Rightarrow> bool" where
  "gc_keeps now m keyID sid s \<longleftrightarrow>
     (keyID, sid) \<in> set (sessionsWithClosers m) \<or> \<not> now - LastSeen s > session_ttl m keyID"

text \<open>The locked part of \<^verbatim>\<open>gcExpired\<close>: the sessions it removes, in the order of the maps.\<close>

definition gc_locked :: "int \<Rightarrow> Manager \<Rightarrow> Manager \<times> (string \<times> string) list" where
  "gc_locked now m =
     (let kept = map (\<lambda>(keyID, km). (keyID, filter (\<lambda>(sid, s). gc_keeps now m keyID sid s) km)) (mg_sessions m);
          expired = concat (map (\<lambda>(keyID, km).
            map (\<lambda>(sid, _). (keyID, sid)) (filter (\<lambda>(sid, s). \<not> gc_keeps now m keyID sid s) km)) (mg_sessions m))
      in (m\<lparr>mg_sessions := filter (\<lambda>(_, km). length km \<noteq> 0) kept,
            mg_burst := filter (\<lambda>(_, bw). \<not> now - bw_since bw > 5 * time_Minute) (mg_burst m)\<rparr>, expired))"

definition gcExpired :: "int \<Rightarrow> Manager \<Rightarrow> Manager \<times> nat list" where
  "gcExpired now m =
     (let (m, expired) = gc_locked now m in
      if length expired = 0 then (m, [])
      else takeClosers expired (addTotal (- int (length expired)) m))"

section \<open>Concurrent use\<close>

text \<open>
  The atomic actions: what an operation does under one acquisition of a lock, or the atomic
  addition. The first group are the operations of the interface, the second their later parts.
\<close>

datatype kact =
    KAdmit int int int string string string
  | KMark string string
  | KTouch int string string
  | KRelease string string
  | KRegister string string nat
  | KEvict string nat
  | KEvictGlobal nat
  | KGc int
  | KLimits string Limits
  | KClear string
  | KDefault Limits
  | KDelete "(string \<times> string) list"
  | KDec int
  | KForget string string
  | KTake "(string \<times> string) list"

fun kexec :: "kact \<Rightarrow> Manager \<Rightarrow> Manager \<times> kact list" where
  "kexec (KAdmit now t1 t2 k sid ip) m = (fst (Admit now t1 t2 k sid ip m), [])"
| "kexec (KMark k sid) m = (MarkTorrent k sid m, [])"
| "kexec (KTouch now k sid) m = (Touch now k sid m, [])"
| "kexec (KRelease k sid) m =
     (let (m, deleted) = deleteSession k sid m in (m, (if deleted then [KDec 1] else []) @ [KForget k sid]))"
| "kexec (KRegister k sid fn) m = (RegisterCloser k sid fn m, [])"
| "kexec (KEvict k n) m = (m, [KDelete (map fst (take n (oldest_of k m)))])"
| "kexec (KEvictGlobal n) m = (m, [KDelete (map fst (take n (oldest_all m)))])"
| "kexec (KGc now) m =
     (let (m, expired) = gc_locked now m
      in (m, if length expired = 0 then [] else [KDec (int (length expired)), KTake expired]))"
| "kexec (KLimits k l) m = (SetLimits k l m, [])"
| "kexec (KClear k) m = (ClearLimits k m, [])"
| "kexec (KDefault l) m = (SetDefault l m, [])"
| "kexec (KDelete es) m =
     (let (m, deleted) = evict_delete es m in (m, (if deleted > 0 then [KDec deleted] else []) @ [KTake es]))"
| "kexec (KDec d) m = (addTotal (- d) m, [])"
| "kexec (KForget k sid) m = (forgetCloser k sid m, [])"
| "kexec (KTake es) m = (fst (takeClosers es m), [])"

fun kentry :: "kact \<Rightarrow> bool" where
  "kentry (KDelete es) = False"
| "kentry (KDec d) = False"
| "kentry (KForget k sid) = False"
| "kentry (KTake es) = False"
| "kentry _ = True"

fun changes_limits :: "kact \<Rightarrow> bool" where
  "changes_limits (KLimits k l) = True"
| "changes_limits (KClear k) = True"
| "changes_limits (KDefault l) = True"
| "changes_limits _ = False"

text \<open>The operations are their actions run without interleaving.\<close>

lemma Release_actions: "run_alone 4 kexec [KRelease k sid] m = Some (Release k sid m)"
  by (simp add: Release_def numeral_eq_Suc split: prod.split)

lemma EvictOldest_actions: "run_alone 5 kexec [KEvict k n] m = map_option fst (EvictOldest k (int n) m)"
  by (simp add: EvictOldest_def evict_first_def numeral_eq_Suc split: prod.split)

lemma EvictOldestGlobal_actions: "run_alone 5 kexec [KEvictGlobal n] m = map_option fst (EvictOldestGlobal (int n) m)"
  by (simp add: EvictOldestGlobal_def evict_first_def numeral_eq_Suc split: prod.split)

lemma gcExpired_actions: "run_alone 4 kexec [KGc now] m = Some (fst (gcExpired now m))"
  by (simp add: gcExpired_def numeral_eq_Suc split: prod.split)

section \<open>What the operations do to the table\<close>

lemma deleteSession_eq:
  "deleteSession k sid m =
     (if nm_get (mg_sessions m) k sid = None then (m, False)
      else (m\<lparr>mg_sessions := nm_del k sid (mg_sessions m)\<rparr>, True))"
  by (auto simp: deleteSession_def nm_get_def nm_del_def Let_def split: option.splits)

lemma deleteSession_rest [simp]:
  "mg_totalSessions (fst (deleteSession k s m)) = mg_totalSessions m" "mg_closers (fst (deleteSession k s m)) = mg_closers m"
  "mg_defaultLimits (fst (deleteSession k s m)) = mg_defaultLimits m" "mg_keyLimits (fst (deleteSession k s m)) = mg_keyLimits m"
  by (simp_all add: deleteSession_eq)

lemma evict_delete_Cons:
  "fst (evict_delete (e # es) m) = fst (evict_delete es (fst (deleteSession (fst e) (snd e) m)))"
  by (cases e) (simp add: Let_def case_prod_beta)

lemma evict_delete_rest [simp]:
  "mg_totalSessions (fst (evict_delete es m)) = mg_totalSessions m" "mg_closers (fst (evict_delete es m)) = mg_closers m"
  "mg_defaultLimits (fst (evict_delete es m)) = mg_defaultLimits m" "mg_keyLimits (fst (evict_delete es m)) = mg_keyLimits m"
  by (induction es arbitrary: m) (simp_all add: evict_delete_Cons)

lemma evict_delete_table:
  "nm_ok (mg_sessions m) \<Longrightarrow>
     (let m' = fst (evict_delete es m) in nm_ok (mg_sessions m') \<and>
       0 \<le> snd (evict_delete es m) \<and>
       int (nm_count (mg_sessions m')) + snd (evict_delete es m) = int (nm_count (mg_sessions m)) \<and>
       (\<forall>k sid. nm_get (mg_sessions m') k sid = (if (k, sid) \<in> set es then None else nm_get (mg_sessions m) k sid)))"
proof (induction es arbitrary: m)
  case (Cons e es)
  obtain kid sid where e: "e = (kid, sid)" by (cases e)
  let ?m = "fst (deleteSession kid sid m)"
  have ok: "nm_ok (mg_sessions ?m)" using Cons.prems by (simp add: deleteSession_eq nm_ok_del)
  have cnt: "int (nm_count (mg_sessions ?m)) + (if snd (deleteSession kid sid m) then 1 else 0) = int (nm_count (mg_sessions m))"
    using Cons.prems nm_count_nm_del [of "mg_sessions m" kid sid] by (auto simp: deleteSession_eq)
  have get: "nm_get (mg_sessions ?m) k s = (if (k, s) = (kid, sid) then None else nm_get (mg_sessions m) k s)" for k s
    using Cons.prems by (auto simp: deleteSession_eq nm_get_del nm_ok_def)
  show ?case using Cons.IH [OF ok] cnt get
    by (auto simp: e Let_def case_prod_beta)
qed (simp add: Let_def)

lemma takeClosers_sessions [simp]:
  "mg_sessions (fst (takeClosers es m)) = mg_sessions m" "mg_totalSessions (fst (takeClosers es m)) = mg_totalSessions m"
  "mg_defaultLimits (fst (takeClosers es m)) = mg_defaultLimits m" "mg_keyLimits (fst (takeClosers es m)) = mg_keyLimits m"
  by (induction es m rule: takeClosers.induct) (auto simp: Let_def case_prod_beta split: option.splits)

lemma forgetCloser_sessions [simp]:
  "mg_sessions (forgetCloser k s m) = mg_sessions m" "mg_totalSessions (forgetCloser k s m) = mg_totalSessions m"
  "mg_defaultLimits (forgetCloser k s m) = mg_defaultLimits m" "mg_keyLimits (forgetCloser k s m) = mg_keyLimits m"
  by (auto simp: forgetCloser_def Let_def split: option.splits)

lemma admit_burst_rest [simp]:
  "mg_sessions (fst (admit_burst now k l m)) = mg_sessions m" "mg_totalSessions (fst (admit_burst now k l m)) = mg_totalSessions m"
  "mg_defaultLimits (fst (admit_burst now k l m)) = mg_defaultLimits m" "mg_keyLimits (fst (admit_burst now k l m)) = mg_keyLimits m"
  by (simp_all add: admit_burst_def Let_def)

definition key_sessions :: "Manager \<Rightarrow> string \<Rightarrow> (string, Session) gomap" where
  "key_sessions m k = (case gm_get (mg_sessions m) k of Some km \<Rightarrow> km | None \<Rightarrow> [])"

text \<open>
  An admission either leaves every key its sessions (it may create the key's empty map), or it
  passed every check and adds one session.
\<close>

lemma Admit_cases:
  assumes "Admit now t1 t2 k sid ip m = (m', r)"
  obtains (denied) "r \<noteq> ReasonNone" "mg_totalSessions m' = mg_totalSessions m"
      "mg_sessions m' = mg_sessions m \<or> mg_sessions m' = gm_put k (key_sessions m k) (mg_sessions m)"
    | (admitted) s where "r = ReasonNone" "mg_totalSessions m' = mg_totalSessions m + 1"
      "mg_sessions m' = gm_put k (gm_put sid s (key_sessions m k)) (gm_put k (key_sessions m k) (mg_sessions m))"
      "s = \<lparr>SessionID = sid, RemoteIP = ip, StartedAt = t1, LastSeen = t2, IsTorrent = False\<rparr>"
      "GlobalCap (mg_defaultLimits m) > 0 \<Longrightarrow> mg_totalSessions m < GlobalCap (mg_defaultLimits m)"
      "MaxActiveSessions (limitsFor m k) > 0 \<Longrightarrow> normalCount (key_sessions m k) < MaxActiveSessions (limitsFor m k)"
      "SoftIPCap (limitsFor m k) > 0 \<Longrightarrow> countUniqueIPs (key_sessions m k) ip \<le> SoftIPCap (limitsFor m k)"
proof (cases "r = ReasonNone")
  case True
  show ?thesis by (rule admitted [OF True _ _ refl])
    (use assms True in \<open>auto simp: Admit_def Let_def key_sessions_def case_prod_beta split: if_splits\<close>)
next
  case False
  show ?thesis by (rule denied [OF False])
    (use assms False in \<open>auto simp: Admit_def Let_def key_sessions_def case_prod_beta split: if_splits\<close>)
qed

lemma Admit_limits [simp]:
  "mg_defaultLimits (fst (Admit now t1 t2 k sid ip m)) = mg_defaultLimits m"
  "mg_keyLimits (fst (Admit now t1 t2 k sid ip m)) = mg_keyLimits m"
  by (auto simp: Admit_def Let_def case_prod_beta)

lemma key_sessions_ok: "nm_ok (mg_sessions m) \<Longrightarrow> gm_ok (key_sessions m k)"
  by (auto simp: key_sessions_def nm_ok_def split: option.splits)

lemma nm_ok_put: "nm_ok m \<Longrightarrow> gm_ok km \<Longrightarrow> nm_ok (gm_put k km m)"
  by (auto simp: nm_ok_def)

lemma nm_count_key: "nm_ok (mg_sessions m) \<Longrightarrow>
    nm_count (gm_put k km (mg_sessions m)) + length (key_sessions m k) = nm_count (mg_sessions m) + length km"
  using nm_count_put [of "mg_sessions m" k km] by (auto simp: nm_ok_def key_sessions_def split: option.splits)

definition live :: "Manager \<Rightarrow> nat" where
  "live m = nm_count (mg_sessions m)"

lemma Admit_table:
  assumes "Admit now t1 t2 k sid ip m = (m', r)" "nm_ok (mg_sessions m)"
  shows "nm_ok (mg_sessions m')"
    and "int (live m') = int (live m) + (if r = ReasonNone \<and> nm_get (mg_sessions m) k sid = None then 1 else 0)"
    and "mg_totalSessions m' = mg_totalSessions m + (if r = ReasonNone then 1 else 0)"
proof -
  note ok = key_sessions_ok [OF assms(2), of k]
  have get: "(nm_get (mg_sessions m) k sid = None) = (gm_get (key_sessions m k) sid = None)"
    by (simp add: nm_get_def key_sessions_def split: option.split)
  have put: "gm_put k x (gm_put k y (mg_sessions m)) = gm_put k x (mg_sessions m)" for x y
    unfolding gm_put_def by (induction "mg_sessions m") auto
  from assms(1) show "nm_ok (mg_sessions m')"
  proof (cases rule: Admit_cases)
    case denied
    then show ?thesis using assms(2) ok by (auto intro: nm_ok_put)
  next
    case (admitted s)
    then show ?thesis using assms(2) ok by (auto intro!: nm_ok_put)
  qed
  from assms(1) show "int (live m') = int (live m) + (if r = ReasonNone \<and> nm_get (mg_sessions m) k sid = None then 1 else 0)"
  proof (cases rule: Admit_cases)
    case denied
    then show ?thesis using nm_count_key [OF assms(2), of k "key_sessions m k"] by (auto simp: live_def)
  next
    case (admitted s)
    then show ?thesis
      using nm_count_key [OF assms(2), of k "gm_put sid s (key_sessions m k)"] get
      by (auto simp: live_def put length_gm_put)
  qed
  from assms(1) show "mg_totalSessions m' = mg_totalSessions m + (if r = ReasonNone then 1 else 0)"
    by (cases rule: Admit_cases) auto
qed

lemma upd_session_table:
  assumes ok: "nm_ok (mg_sessions m)"
  shows "nm_ok (mg_sessions (upd_session k sid f m))" "live (upd_session k sid f m) = live m"
proof -
  note kok = key_sessions_ok [OF ok, of k]
  show "nm_ok (mg_sessions (upd_session k sid f m))"
    using ok kok by (auto simp: upd_session_def key_sessions_def intro!: nm_ok_put split: option.splits)
  show "live (upd_session k sid f m) = live m"
  proof (cases "gm_get (key_sessions m k) sid")
    case None
    then show ?thesis by (auto simp: upd_session_def key_sessions_def split: option.splits)
  next
    case (Some s)
    then show ?thesis using nm_count_key [OF ok, of k "gm_put sid (f s) (key_sessions m k)"]
      by (auto simp: upd_session_def live_def key_sessions_def length_gm_put split: option.splits)
  qed
qed

lemma upd_session_rest [simp]:
  "mg_totalSessions (upd_session k s f m) = mg_totalSessions m" "mg_defaultLimits (upd_session k s f m) = mg_defaultLimits m"
  "mg_keyLimits (upd_session k s f m) = mg_keyLimits m" "mg_closers (upd_session k s f m) = mg_closers m"
  by (auto simp: upd_session_def split: option.splits)

lemma gc_locked_rest [simp]:
  "mg_totalSessions (fst (gc_locked now m)) = mg_totalSessions m" "mg_defaultLimits (fst (gc_locked now m)) = mg_defaultLimits m"
  "mg_keyLimits (fst (gc_locked now m)) = mg_keyLimits m" "mg_closers (fst (gc_locked now m)) = mg_closers m"
  by (simp_all add: gc_locked_def Let_def)

lemma gc_key_sessions:
  assumes "nm_ok (mg_sessions m)"
  shows "key_sessions (fst (gc_locked now m)) k = filter (\<lambda>(sid, s). gc_keeps now m k sid s) (key_sessions m k)"
proof -
  let ?f = "\<lambda>keyID km. filter (\<lambda>(sid, s). gc_keeps now m keyID sid s) km"
  have "gm_ok (map (\<lambda>(k, km). (k, ?f k km)) (mg_sessions m))"
    using assms by (simp add: gm_ok_map_val nm_ok_def)
  from gm_get_filter [OF this, of "\<lambda>(_, km). length km \<noteq> 0" k]
  have "gm_get (mg_sessions (fst (gc_locked now m))) k =
     (case gm_get (mg_sessions m) k of None \<Rightarrow> None | Some km \<Rightarrow> if ?f k km \<noteq> [] then Some (?f k km) else None)"
    by (simp add: gc_locked_def Let_def gm_get_map_val split: option.split)
  then show ?thesis by (auto simp: key_sessions_def split: option.splits)
qed

lemma nm_get_key: "nm_get (mg_sessions m) k sid = gm_get (key_sessions m k) sid"
  by (simp add: nm_get_def key_sessions_def split: option.split)

lemma gc_locked_table:
  assumes ok: "nm_ok (mg_sessions m)"
  shows "nm_ok (mg_sessions (fst (gc_locked now m)))"
    and "int (live (fst (gc_locked now m))) + int (length (snd (gc_locked now m))) = int (live m)"
proof -
  show "nm_ok (mg_sessions (fst (gc_locked now m)))"
    unfolding nm_ok_def
  proof (intro conjI allI impI)
    show "gm_ok (mg_sessions (fst (gc_locked now m)))"
      using ok by (simp add: gc_locked_def Let_def gm_ok_map_val nm_ok_def)
    fix k km assume "gm_get (mg_sessions (fst (gc_locked now m))) k = Some km"
    then have "km = key_sessions (fst (gc_locked now m)) k" by (simp add: key_sessions_def)
    then show "gm_ok km" using key_sessions_ok [OF ok] by (simp add: gc_key_sessions [OF ok])
  qed
  have "nm_count (filter (\<lambda>(_, km). length km \<noteq> 0) ms) = nm_count ms" for ms :: sessions
    by (induction ms) (auto simp: nm_count_def)
  moreover have "nm_count (map (\<lambda>(k, km). (k, filter (\<lambda>(sid, s). P k sid s) km)) ms)
      + length (concat (map (\<lambda>(k, km). map (\<lambda>(sid, _). (k, sid)) (filter (\<lambda>(sid, s). \<not> P k sid s) km)) ms))
      = nm_count ms" for ms :: sessions and P
  proof (induction ms)
    case (Cons a ms)
    have "length (filter (\<lambda>(sid, s). P (fst a) sid s) km) + length (filter (\<lambda>(sid, s). \<not> P (fst a) sid s) km) = length km" for km
      by (induction km) auto
    from this [of "snd a"] Cons show ?case by (cases a) (simp add: nm_count_def)
  qed (simp add: nm_count_def)
  ultimately show "int (live (fst (gc_locked now m))) + int (length (snd (gc_locked now m))) = int (live m)"
    unfolding gc_locked_def Let_def live_def fst_conv snd_conv by (simp flip: of_nat_add)
qed

section \<open>Accounting under interleaving\<close>

text \<open>
  A ghost counter of the admissions that replace a live session of the same identifier: the code
  counts such a session twice.
\<close>

fun readmits :: "kact \<Rightarrow> Manager \<Rightarrow> nat" where
  "readmits (KAdmit now t1 t2 k sid ip) m =
     (if snd (Admit now t1 t2 k sid ip m) = ReasonNone \<and> nm_get (mg_sessions m) k sid \<noteq> None then 1 else 0)"
| "readmits _ m = 0"

definition gexec :: "kact \<Rightarrow> Manager \<times> nat \<Rightarrow> (Manager \<times> nat) \<times> kact list" where
  "gexec a = (\<lambda>(m, d). let (m', fs) = kexec a m in ((m', d + readmits a m), fs))"

fun dec_of :: "kact \<Rightarrow> int" where
  "dec_of (KDec d) = d"
| "dec_of _ = 0"

definition pending :: "kact multiset \<Rightarrow> int" where
  "pending M = (\<Sum>a\<in>#M. dec_of a)"

definition accounted :: "Manager \<times> nat \<Rightarrow> kact multiset \<Rightarrow> bool" where
  "accounted = (\<lambda>(m, d) M. nm_ok (mg_sessions m) \<and> (\<forall>a \<in># M. 0 \<le> dec_of a) \<and>
     int (live m) + int d + pending M = mg_totalSessions m)"

lemma pending_simps [simp]: "pending {#} = 0" "pending (add_mset a M) = dec_of a + pending M"
  "pending (M + N) = pending M + pending N"
  by (simp_all add: pending_def)

lemma pending_nonneg: "(\<And>a. a \<in># M \<Longrightarrow> 0 \<le> dec_of a) \<Longrightarrow> 0 \<le> pending M"
  by (induction M) auto

lemma dec_of_entry: "kentry a \<Longrightarrow> dec_of a = 0"
  by (cases a) auto

lemma kexec_accounted:
  assumes e: "kexec a m = (m', fs)" and acc: "accounted (m, d) (add_mset a M)"
  shows "accounted (m', d + readmits a m) (mset fs + M)"
proof -
  have ok: "nm_ok (mg_sessions m)" and nn: "\<forall>a \<in># M. 0 \<le> dec_of a" "0 \<le> dec_of a"
    and tot: "int (live m) + int d + dec_of a + pending M = mg_totalSessions m"
    using acc by (auto simp: accounted_def)
  show ?thesis
  proof (cases a)
    case (KAdmit now t1 t2 k sid ip)
    obtain r where r: "Admit now t1 t2 k sid ip m = (m', r)" using e KAdmit by (cases "Admit now t1 t2 k sid ip m") auto
    show ?thesis using e KAdmit Admit_table [OF r ok] nn tot r by (auto simp: accounted_def)
  next
    case (KRelease k sid)
    have "nm_get (mg_sessions m) k sid \<noteq> None \<Longrightarrow> Suc (nm_count (nm_del k sid (mg_sessions m))) = nm_count (mg_sessions m)"
      by (rule nm_count_nm_del [OF ok])
    then show ?thesis using e KRelease ok nn tot
      by (auto simp: accounted_def deleteSession_eq live_def nm_ok_del split: if_splits)
  next
    case (KGc now)
    then show ?thesis using e ok nn tot gc_locked_table [OF ok, of now]
      by (auto simp: accounted_def Let_def case_prod_beta split: if_splits)
  next
    case (KDelete es)
    then show ?thesis using e nn tot evict_delete_table [OF ok, of es]
      by (auto simp: accounted_def Let_def case_prod_beta live_def)
  qed (use e ok nn tot upd_session_table [OF ok] in
      \<open>auto simp: accounted_def live_def MarkTorrent_def Touch_def RegisterCloser_def Let_def
        SetLimits_def ClearLimits_def SetDefault_def addTotal_def\<close>)
qed

interpretation acct: atomic_invariant gexec kentry accounted
proof
  fix a s M assume "kentry a" "accounted s M"
  then show "accounted s (add_mset a M)" by (auto simp: accounted_def dec_of_entry split: prod.splits)
next
  fix a s s' fs M assume "gexec a s = (s', fs)" "accounted s (add_mset a M)"
  then show "accounted s' (mset fs + M)"
    using kexec_accounted by (cases s) (auto simp: gexec_def split: prod.splits)
qed

section \<open>The caps under interleaving\<close>

definition unique_ips :: "(string, Session) gomap \<Rightarrow> int" where
  "unique_ips km = int (card (RemoteIP ` snd ` set km))"

definition within_caps :: "Limits \<Rightarrow> (string, Session) gomap \<Rightarrow> bool" where
  "within_caps l km \<longleftrightarrow> (MaxActiveSessions l > 0 \<longrightarrow> normalCount km \<le> MaxActiveSessions l) \<and>
     (SoftIPCap l > 0 \<longrightarrow> unique_ips km \<le> SoftIPCap l)"

definition caps_hold :: "Manager \<Rightarrow> bool" where
  "caps_hold m \<longleftrightarrow> (\<forall>k. within_caps (limitsFor m k) (key_sessions m k))"

lemma within_caps_Nil: "within_caps l []"
  by (simp add: within_caps_def normalCount_def unique_ips_def)

lemma within_caps_filter: "within_caps l km \<Longrightarrow> within_caps l (filter P km)"
proof -
  assume w: "within_caps l km"
  have "length (filter (\<lambda>(_, s). \<not> IsTorrent s) (filter P km)) \<le> length (filter (\<lambda>(_, s). \<not> IsTorrent s) km)"
    by (induction km) auto
  then have "normalCount (filter P km) \<le> normalCount km" unfolding normalCount_def by (rule of_nat_mono)
  moreover have "unique_ips (filter P km) \<le> unique_ips km"
    by (auto simp: unique_ips_def intro!: card_mono)
  ultimately show ?thesis using w by (auto simp: within_caps_def)
qed

lemma normalCount_del: "gm_ok km \<Longrightarrow> normalCount km = normalCount (gm_del sid km) +
    (case gm_get km sid of None \<Rightarrow> 0 | Some s \<Rightarrow> if IsTorrent s then 0 else 1)"
proof (induction km)
  case (Cons a km)
  obtain k s where a: "a = (k, s)" by (cases a)
  have "gm_ok km" "k = sid \<Longrightarrow> gm_get km sid = None"
    using Cons.prems a by (auto simp: gm_ok_def gm_get_def map_of_eq_None_iff)
  then show ?case using Cons.IH a by (auto simp: gm_get_Cons normalCount_def gm_del_def)
qed (simp add: gm_del_def)

lemma normalCount_put: "gm_ok km \<Longrightarrow> normalCount (gm_put sid s km) =
    normalCount (gm_del sid km) + (if IsTorrent s then 0 else 1)"
proof (induction km)
  case (Cons a km)
  obtain k s' where a: "a = (k, s')" by (cases a)
  have "gm_ok km" "k = sid \<Longrightarrow> gm_del sid km = km"
    using Cons.prems a gm_del_absent [of km sid] by (auto simp: gm_ok_def gm_get_def map_of_eq_None_iff)
  then show ?case using Cons.IH a by (auto simp: normalCount_def gm_del_def gm_put_def)
qed (simp add: normalCount_def gm_del_def gm_put_def)

lemma unique_ips_put: "unique_ips (gm_put sid s km) \<le> int (card (insert (RemoteIP s) (RemoteIP ` snd ` set km)))"
proof -
  have "RemoteIP ` snd ` set (gm_put sid s km) \<subseteq> RemoteIP ` snd ` insert (sid, s) (set km)"
    by (intro image_mono set_gm_put)
  then show ?thesis by (auto simp: unique_ips_def intro!: card_mono)
qed

lemma countUniqueIPs_card: "countUniqueIPs km ip = int (card (insert ip (RemoteIP ` snd ` set km)))"
  by (simp only: countUniqueIPs_def length_remdups_card_conv) (simp add: image_image)

lemma key_sessions_put: "key_sessions (m\<lparr>mg_sessions := gm_put k km ms\<rparr>) k' =
    (if k' = k then km else key_sessions (m\<lparr>mg_sessions := ms\<rparr>) k')"
  by (simp add: key_sessions_def)

lemma Admit_caps:
  assumes "Admit now t1 t2 k sid ip m = (m', r)" "nm_ok (mg_sessions m)" "caps_hold m"
  shows "caps_hold m'"
proof -
  note ok = key_sessions_ok [OF assms(2), of k]
  have lim: "limitsFor m' k' = limitsFor m k'" for k'
    using Admit_limits [of now t1 t2 k sid ip m] assms(1) by (simp add: limitsFor_def split: option.split)
  from assms(1) show ?thesis
  proof (cases rule: Admit_cases)
    case denied
    then have "key_sessions m' k' = key_sessions m k'" for k' by (auto simp: key_sessions_def split: option.splits if_splits)
    then show ?thesis using assms(3) lim by (simp add: caps_hold_def)
  next
    case (admitted s)
    have ks: "key_sessions m' k' = (if k' = k then gm_put sid s (key_sessions m k) else key_sessions m k')" for k'
      using admitted(3) by (simp add: key_sessions_def)
    have "normalCount (gm_put sid s (key_sessions m k)) \<le> normalCount (key_sessions m k) + 1"
      using normalCount_put [OF ok, of sid s] normalCount_del [OF ok, of sid] by (auto split: option.splits if_splits)
    moreover have "unique_ips (gm_put sid s (key_sessions m k)) \<le> countUniqueIPs (key_sessions m k) ip"
      using unique_ips_put [of sid s "key_sessions m k"] admitted(4) by (simp add: countUniqueIPs_card)
    ultimately have "within_caps (limitsFor m k) (gm_put sid s (key_sessions m k))"
      using admitted(6,7) unfolding within_caps_def by linarith
    then show ?thesis using assms(3) ks lim by (simp add: caps_hold_def)
  qed
qed

lemma limitsFor_cong:
  "mg_defaultLimits m' = mg_defaultLimits m \<Longrightarrow> mg_keyLimits m' = mg_keyLimits m \<Longrightarrow> limitsFor m' k = limitsFor m k"
  by (simp add: limitsFor_def split: option.split)

lemma upd_session_caps:
  assumes ok: "nm_ok (mg_sessions m)" and c: "caps_hold m"
    and f: "\<And>s. RemoteIP (f s) = RemoteIP s" "\<And>s. IsTorrent s \<Longrightarrow> IsTorrent (f s)"
  shows "caps_hold (upd_session k sid f m)"
proof (cases "gm_get (key_sessions m k) sid")
  case None
  then have "upd_session k sid f m = m" by (auto simp: upd_session_def key_sessions_def split: option.splits)
  then show ?thesis using c by simp
next
  case (Some s)
  note kok = key_sessions_ok [OF ok, of k]
  have ks: "key_sessions (upd_session k sid f m) k' =
      (if k' = k then gm_put sid (f s) (key_sessions m k) else key_sessions m k')" for k'
    using Some by (auto simp: upd_session_def key_sessions_def split: option.splits)
  have "normalCount (gm_put sid (f s) (key_sessions m k)) \<le> normalCount (key_sessions m k)"
    using normalCount_put [OF kok, of sid "f s"] normalCount_del [OF kok, of sid] Some f(2) by auto
  moreover have "insert (RemoteIP s) (RemoteIP ` snd ` set (key_sessions m k)) = RemoteIP ` snd ` set (key_sessions m k)"
    using Some kok by (force simp: gm_get_in)
  then have "unique_ips (gm_put sid (f s) (key_sessions m k)) \<le> unique_ips (key_sessions m k)"
    using unique_ips_put [of sid "f s" "key_sessions m k"] f(1) by (simp add: unique_ips_def)
  moreover have "within_caps (limitsFor m k) (key_sessions m k)" using c by (simp add: caps_hold_def)
  ultimately have "within_caps (limitsFor m k) (gm_put sid (f s) (key_sessions m k))"
    unfolding within_caps_def by linarith
  then show ?thesis using c ks limitsFor_cong [of "upd_session k sid f m" m] by (simp add: caps_hold_def)
qed

text \<open>A step that only takes sessions away keeps the caps.\<close>

definition shrinks :: "Manager \<Rightarrow> Manager \<Rightarrow> bool" where
  "shrinks m m' \<longleftrightarrow> mg_defaultLimits m' = mg_defaultLimits m \<and> mg_keyLimits m' = mg_keyLimits m \<and>
     (\<forall>k. \<exists>P. key_sessions m' k = filter P (key_sessions m k))"

lemma shrinks_caps: "shrinks m m' \<Longrightarrow> caps_hold m \<Longrightarrow> caps_hold m'"
  unfolding caps_hold_def
proof
  fix k assume sh: "shrinks m m'" and c: "\<forall>k. within_caps (limitsFor m k) (key_sessions m k)"
  obtain P where "key_sessions m' k = filter P (key_sessions m k)" using sh by (auto simp: shrinks_def)
  moreover have "limitsFor m' k = limitsFor m k" using sh by (simp add: shrinks_def limitsFor_def split: option.split)
  ultimately show "within_caps (limitsFor m' k) (key_sessions m' k)" using c by (simp add: within_caps_filter)
qed

lemma shrinks_refl: "shrinks m m"
  by (auto simp: shrinks_def intro: exI [of _ "\<lambda>_. True"])

lemma shrinks_trans: "shrinks m m' \<Longrightarrow> shrinks m' m'' \<Longrightarrow> shrinks m m''"
  unfolding shrinks_def by (metis filter_filter)

lemma deleteSession_shrinks: "shrinks m (fst (deleteSession k sid m))"
proof (cases "nm_get (mg_sessions m) k sid")
  case None
  then show ?thesis by (simp add: deleteSession_eq shrinks_refl)
next
  case (Some s)
  have "key_sessions (fst (deleteSession k sid m)) k' = (if k' = k then gm_del sid (key_sessions m k) else key_sessions m k')" for k'
    using Some by (auto simp: deleteSession_eq key_sessions_def nm_del_def nm_get_def Let_def split: option.splits)
  moreover have "\<exists>P. gm_del sid (key_sessions m k) = filter P (key_sessions m k)"
    unfolding gm_del_def AList.delete_eq by blast
  ultimately show ?thesis using shrinks_refl [of m] by (auto simp: shrinks_def)
qed

lemma evict_delete_shrinks: "shrinks m (fst (evict_delete es m))"
proof (induction es arbitrary: m)
  case (Cons e es)
  show ?case unfolding evict_delete_Cons by (rule shrinks_trans [OF deleteSession_shrinks Cons])
qed (simp add: shrinks_refl)

lemma gc_locked_shrinks: "nm_ok (mg_sessions m) \<Longrightarrow> shrinks m (fst (gc_locked now m))"
  by (auto simp: shrinks_def gc_key_sessions)

lemma same_sessions_caps:
  "mg_sessions m' = mg_sessions m \<Longrightarrow> mg_defaultLimits m' = mg_defaultLimits m \<Longrightarrow> mg_keyLimits m' = mg_keyLimits m \<Longrightarrow>
   caps_hold m' = caps_hold m"
proof -
  assume "mg_sessions m' = mg_sessions m" "mg_defaultLimits m' = mg_defaultLimits m" "mg_keyLimits m' = mg_keyLimits m"
  then have "limitsFor m' k = limitsFor m k" "key_sessions m' k = key_sessions m k" for k
    by (simp_all add: limitsFor_def key_sessions_def split: option.split)
  then show ?thesis by (simp add: caps_hold_def)
qed

lemma caps_hold_same [simp]:
  "caps_hold (RegisterCloser k sid fn m) = caps_hold m" "caps_hold (addTotal d m) = caps_hold m"
  "caps_hold (forgetCloser k sid m) = caps_hold m" "caps_hold (fst (takeClosers es m)) = caps_hold m"
  by (rule same_sessions_caps; simp add: RegisterCloser_def addTotal_def Let_def)+

definition capped :: "Limits \<Rightarrow> (string, Limits) gomap \<Rightarrow> Manager \<times> nat \<Rightarrow> kact multiset \<Rightarrow> bool" where
  "capped d0 kl0 = (\<lambda>(m, d) M. accounted (m, d) M \<and> caps_hold m \<and> mg_defaultLimits m = d0 \<and> mg_keyLimits m = kl0 \<and>
     (\<forall>a \<in># M. \<not> changes_limits a) \<and> (GlobalCap d0 > 0 \<longrightarrow> mg_totalSessions m \<le> GlobalCap d0))"

lemma kexec_caps:
  assumes e: "kexec a m = (m', fs)" and ok: "nm_ok (mg_sessions m)" and c: "caps_hold m" and nc: "\<not> changes_limits a"
  shows "caps_hold m' \<and> mg_defaultLimits m' = mg_defaultLimits m \<and> mg_keyLimits m' = mg_keyLimits m \<and>
    (\<forall>b \<in> set fs. \<not> changes_limits b)"
proof (cases a)
  case (KAdmit now t1 t2 k sid ip)
  then show ?thesis using e Admit_caps [OF _ ok c, of now t1 t2 k sid ip] Admit_limits [of now t1 t2 k sid ip m]
    by (cases "Admit now t1 t2 k sid ip m") (auto simp del: Admit_limits)
next
  case (KRelease k sid)
  then show ?thesis using e shrinks_caps [OF deleteSession_shrinks c, of k sid]
    by (auto simp: case_prod_beta split: if_splits)
next
  case (KDelete es)
  then show ?thesis using e shrinks_caps [OF evict_delete_shrinks c, of es]
    by (auto simp: case_prod_beta split: if_splits)
next
  case (KGc now)
  then show ?thesis using e shrinks_caps [OF gc_locked_shrinks [OF ok] c, of now]
    by (auto simp: case_prod_beta split: if_splits)
next
  case (KMark k sid)
  then show ?thesis using e upd_session_caps [OF ok c] by (auto simp: MarkTorrent_def)
next
  case (KTouch now k sid)
  then show ?thesis using e upd_session_caps [OF ok c] by (auto simp: Touch_def)
qed (use e c nc in \<open>auto simp: RegisterCloser_def [THEN arg_cong, of mg_defaultLimits]
    RegisterCloser_def [THEN arg_cong, of mg_keyLimits] addTotal_def [THEN arg_cong, of mg_defaultLimits]
    addTotal_def [THEN arg_cong, of mg_keyLimits] Let_def\<close>)

lemma kexec_global:
  assumes e: "kexec a m = (m', fs)" and acc: "accounted (m, d) (add_mset a M)" and nc: "\<not> changes_limits a"
    and g: "GlobalCap (mg_defaultLimits m) > 0" "mg_totalSessions m \<le> GlobalCap (mg_defaultLimits m)"
  shows "mg_totalSessions m' \<le> GlobalCap (mg_defaultLimits m)"
proof (cases a)
  case (KAdmit now t1 t2 k sid ip)
  obtain r where "Admit now t1 t2 k sid ip m = (m', r)" using e KAdmit by (cases "Admit now t1 t2 k sid ip m") auto
  then show ?thesis using g by (cases rule: Admit_cases) auto
next
  case (KDec x)
  then show ?thesis using e acc g by (auto simp: accounted_def addTotal_def)
qed (use e g nc in \<open>auto simp: MarkTorrent_def Touch_def RegisterCloser_def Let_def case_prod_beta\<close>)

interpretation caps: atomic_invariant gexec "\<lambda>a. kentry a \<and> \<not> changes_limits a" "capped d0 kl0" for d0 kl0
proof
  fix a s M assume "kentry a \<and> \<not> changes_limits a" "capped d0 kl0 s M"
  then show "capped d0 kl0 s (add_mset a M)"
    using acct.inv_spawn by (auto simp: capped_def split: prod.splits)
next
  fix a s s' fs M assume e: "gexec a s = (s', fs)" and c: "capped d0 kl0 s (add_mset a M)"
  obtain m d where s: "s = (m, d)" by (cases s)
  obtain m' where k: "kexec a m = (m', fs)" "s' = (m', d + readmits a m)"
    using e s by (auto simp: gexec_def split: prod.splits)
  have ok: "nm_ok (mg_sessions m)" using c s by (simp add: capped_def accounted_def)
  show "capped d0 kl0 s' (mset fs + M)"
    using c s k kexec_caps [OF k(1) ok] kexec_global [OF k(1)] kexec_accounted [OF k(1)]
    by (auto simp: capped_def)
qed

section \<open>Eviction\<close>

lemma evict_delete_all:
  "nm_ok (mg_sessions m) \<Longrightarrow> distinct es \<Longrightarrow> \<forall>(k, sid) \<in> set es. nm_get (mg_sessions m) k sid \<noteq> None \<Longrightarrow>
   snd (evict_delete es m) = int (length es)"
proof (induction es arbitrary: m)
  case (Cons e es)
  obtain kid sid where e: "e = (kid, sid)" by (cases e)
  let ?m = "fst (deleteSession kid sid m)"
  have "nm_ok (mg_sessions ?m)" using Cons.prems(1) by (simp add: deleteSession_eq nm_ok_del)
  moreover have "\<forall>(k, s) \<in> set es. nm_get (mg_sessions ?m) k s \<noteq> None"
    using Cons.prems e by (auto simp: deleteSession_eq nm_get_del nm_ok_def)
  moreover have "snd (deleteSession kid sid m)" using Cons.prems(3) e by (auto simp: deleteSession_eq)
  ultimately show ?case using Cons.IH [of ?m] Cons.prems(2) by (simp add: e Let_def case_prod_beta)
qed simp

lemma sorted_take_drop:
  assumes "sorted (map f xs)" "x \<in> set (take n xs)" "y \<in> set (drop n xs)"
  shows "f x \<le> f y"
proof -
  have "sorted (map f (take n xs) @ map f (drop n xs))"
    using assms(1) by (simp flip: map_append)
  then show ?thesis using assms(2,3) by (auto simp: sorted_append)
qed

lemma oldest_of_entries:
  assumes "nm_ok (mg_sessions m)"
  shows "distinct (map fst (oldest_of k m))" "length (oldest_of k m) = length (key_sessions m k)"
    "sorted (map snd (oldest_of k m))"
    "((k', sid), t) \<in> set (oldest_of k m) \<longleftrightarrow>
       k' = k \<and> (\<exists>s. nm_get (mg_sessions m) k sid = Some s \<and> StartedAt s = t)"
proof -
  note ok = key_sessions_ok [OF assms, of k]
  have eq: "oldest_of k m = sort_key snd (key_entries k (key_sessions m k))"
    by (auto simp: oldest_of_def key_sessions_def key_entries_def split: option.split)
  have "distinct (map fst (key_entries k (key_sessions m k)))"
    using ok by (auto simp: key_entries_def gm_ok_def o_def case_prod_beta distinct_map inj_on_def)
  then show "distinct (map fst (oldest_of k m))"
    by (auto simp: eq distinct_map)
  show "length (oldest_of k m) = length (key_sessions m k)" by (simp add: eq key_entries_def)
  show "sorted (map snd (oldest_of k m))" by (simp add: eq)
  show "((k', sid), t) \<in> set (oldest_of k m) \<longleftrightarrow>
       k' = k \<and> (\<exists>s. nm_get (mg_sessions m) k sid = Some s \<and> StartedAt s = t)"
    using ok by (force simp: eq key_entries_def nm_get_key gm_get_in image_iff)
qed

lemma evict_first_table:
  assumes ok: "nm_ok (mg_sessions m)" and n: "0 \<le> n"
  defines "es \<equiv> \<lambda>all. map fst (take (nat n) all)"
  shows "\<exists>m' fns. evict_first all n m = Some (m', fns) \<and> mg_sessions m' = mg_sessions (fst (evict_delete (es all) m)) \<and>
    mg_totalSessions m' = mg_totalSessions m - snd (evict_delete (es all) m)"
proof -
  obtain m1 d where d: "evict_delete (es all) m = (m1, d)" by (cases "evict_delete (es all) m")
  have "0 \<le> d" using evict_delete_table [OF ok, of "es all"] d by (simp add: Let_def)
  moreover have "mg_totalSessions m1 = mg_totalSessions m" using evict_delete_rest(1) [of "es all" m] d by simp
  ultimately have 1: "mg_totalSessions (if d > 0 then addTotal (- d) m1 else m1) = mg_totalSessions m - d"
    "mg_sessions (if d > 0 then addTotal (- d) m1 else m1) = mg_sessions m1"
    by (auto simp: addTotal_def)
  have "evict_first all n m = Some (takeClosers (es all) (if d > 0 then addTotal (- d) m1 else m1))"
    using n d by (simp add: evict_first_def es_def)
  with 1 takeClosers_sessions(1,2) [of "es all" "if d > 0 then addTotal (- d) m1 else m1"] d show ?thesis
    by (cases "takeClosers (es all) (if d > 0 then addTotal (- d) m1 else m1)") simp
qed

text \<open>A small instance: one session admitted under caps of one.\<close>

definition demo_limits :: Limits where
  "demo_limits = \<lparr>MaxActiveSessions = 1, GlobalCap = 1, SoftIPCap = 1, BurstPerMinute = 0, SessionTTL = 0\<rparr>"

lemma demo_admit_table: "mg_sessions (fst (Admit 0 0 0 ''k'' ''s'' ''ip'' (New_Manager demo_limits))) =
    [(''k'', [(''s'', \<lparr>SessionID = ''s'', RemoteIP = ''ip'', StartedAt = 0, LastSeen = 0, IsTorrent = False\<rparr>)])]"
  by (simp add: Admit_def New_Manager_def limitsFor_def admit_burst_def gm_put_def gm_get_def demo_limits_def
      normalCount_def countUniqueIPs_def)

lemma demo_admit:
  "treach gexec kentry (New_Manager demo_limits, 0) (fst (Admit 0 0 0 ''k'' ''s'' ''ip'' (New_Manager demo_limits)), 0) [[]]"
  "treach gexec (\<lambda>a. kentry a \<and> \<not> changes_limits a) ((New_Manager demo_limits)\<lparr>mg_keyLimits := []\<rparr>, 0)
     (fst (Admit 0 0 0 ''k'' ''s'' ''ip'' (New_Manager demo_limits)), 0) [[]]"
proof -
  have "run_alone 1 gexec [KAdmit 0 0 0 ''k'' ''s'' ''ip''] (New_Manager demo_limits, 0) =
      Some (fst (Admit 0 0 0 ''k'' ''s'' ''ip'' (New_Manager demo_limits)), 0)"
    by (simp add: gexec_def nm_get_def New_Manager_def)
  note alone = treach_alone [OF rtranclp.rtrancl_refl _ this]
  show "treach gexec kentry (New_Manager demo_limits, 0) (fst (Admit 0 0 0 ''k'' ''s'' ''ip'' (New_Manager demo_limits)), 0) [[]]"
    by (rule alone) simp
  have "(New_Manager demo_limits)\<lparr>mg_keyLimits := []\<rparr> = New_Manager demo_limits" by (simp add: New_Manager_def)
  then show "treach gexec (\<lambda>a. kentry a \<and> \<not> changes_limits a) ((New_Manager demo_limits)\<lparr>mg_keyLimits := []\<rparr>, 0)
     (fst (Admit 0 0 0 ''k'' ''s'' ''ip'' (New_Manager demo_limits)), 0) [[]]"
    by (simp only:) (rule alone, simp)
qed

section \<open>Properties of the session table\<close>

text \<open>
  C8: the atomic counter accounts for the session table, however the operations of any number of
  goroutines interleave: it is the number of live sessions, plus the decrements still to come
  from goroutines between two of their steps, plus one for each admission that replaced a live
  session of the same identifier.
\<close>

theorem keylimits_accounting:
  assumes "treach gexec kentry (New_Manager l, 0) (m, d) ts"
  shows "mg_totalSessions m = int (live m) + int d + pending (mset (concat ts)) \<and> 0 \<le> pending (mset (concat ts)) \<and>
    ((\<forall>t \<in> set ts. t = []) \<longrightarrow> mg_totalSessions m = int (live m) + int d)"
proof -
  have "accounted (New_Manager l, 0) {#}"
    by (simp add: accounted_def New_Manager_def live_def nm_ok_def nm_count_def)
  with assms have "accounted (m, d) (mset (concat ts))" by (rule acct.inv_reach)
  moreover from this have "0 \<le> pending (mset (concat ts))" by (intro pending_nonneg) (auto simp: accounted_def)
  moreover have "pending (mset (concat ts)) = 0" if "\<forall>t \<in> set ts. t = []"
  proof -
    have "concat ts = []" using that by simp
    then show ?thesis by (simp only: mset.simps pending_simps)
  qed
  ultimately show ?thesis by (auto simp: accounted_def simp del: mset_concat)
qed

theorem keylimits_accounting_witness:
  "mg_totalSessions (Release ''k'' ''s'' (fst (Admit 0 0 0 ''k'' ''s'' ''ip'' (New_Manager demo_limits)))) = 0"
proof -
  let ?m = "fst (Admit 0 0 0 ''k'' ''s'' ''ip'' (New_Manager demo_limits))"
  let ?m' = "Release ''k'' ''s'' ?m"
  have "run_alone 3 gexec [KRelease ''k'' ''s''] (?m, 0) = Some (?m', 0)"
    by (simp add: gexec_def Release_def numeral_eq_Suc split: prod.split)
  from treach_alone [OF demo_admit(1) _ this]
  have "treach gexec kentry (New_Manager demo_limits, 0) (?m', 0) [[], []]" by simp
  from keylimits_accounting [OF this] have "mg_totalSessions ?m' = int (live ?m')" by simp
  also have "live ?m' = 0"
    by (simp add: Release_def deleteSession_eq demo_admit_table nm_get_def nm_del_def gm_get_def gm_del_def live_def
      nm_count_def addTotal_def)
  finally show ?thesis by simp
qed

text \<open>
  C9: while the limits stay as they are, no interleaving of admissions, releases, evictions and
  expiries brings a key above its cap of active sessions or of addresses, or the server above
  its global cap.
\<close>

theorem keylimits_caps:
  assumes "treach gexec (\<lambda>a. kentry a \<and> \<not> changes_limits a) ((New_Manager l)\<lparr>mg_keyLimits := kl\<rparr>, 0) (m, d) ts"
  shows "(\<forall>k. within_caps (limitsFor m k) (key_sessions m k)) \<and> (GlobalCap l > 0 \<longrightarrow> int (live m) \<le> GlobalCap l)"
proof -
  have "capped l kl ((New_Manager l)\<lparr>mg_keyLimits := kl\<rparr>, 0) {#}"
    by (auto simp: capped_def accounted_def New_Manager_def live_def nm_ok_def nm_count_def caps_hold_def
        key_sessions_def within_caps_Nil)
  with assms have c: "capped l kl (m, d) (mset (concat ts))" by (rule caps.inv_reach)
  then have "0 \<le> pending (mset (concat ts))" by (intro pending_nonneg) (auto simp: capped_def accounted_def)
  with c show ?thesis by (auto simp: capped_def accounted_def caps_hold_def simp del: mset_concat)
qed

theorem keylimits_caps_witness:
  "\<exists>m. fst (Admit 0 0 0 ''k'' ''s'' ''ip'' (New_Manager demo_limits)) = m \<and> int (live m) \<le> 1 \<and>
     within_caps (limitsFor m ''k'') (key_sessions m ''k'')"
  using keylimits_caps [OF demo_admit(2)] by (auto simp: demo_limits_def)

text \<open>
  C10: evicting from a key takes exactly its oldest sessions, as many as asked for or all there
  are, keeps the sessions of every other key, and lowers the counter by the number it removed.
\<close>

theorem EvictOldest_oldest:
  assumes ok: "nm_ok (mg_sessions m)" and n: "0 \<le> n"
  shows "\<exists>m' fns. EvictOldest k n m = Some (m', fns) \<and>
    (\<forall>k' sid. k' \<noteq> k \<longrightarrow> nm_get (mg_sessions m') k' sid = nm_get (mg_sessions m) k' sid) \<and>
    (\<forall>a sa b sb. nm_get (mg_sessions m) k a = Some sa \<and> nm_get (mg_sessions m') k a = None \<and>
       nm_get (mg_sessions m') k b = Some sb \<longrightarrow> nm_get (mg_sessions m) k b = Some sb \<and> StartedAt sa \<le> StartedAt sb) \<and>
    int (live m') = int (live m) - min n (int (length (key_sessions m k))) \<and>
    mg_totalSessions m' = mg_totalSessions m - min n (int (length (key_sessions m k)))"
proof -
  let ?all = "oldest_of k m" and ?gone = "min n (int (length (key_sessions m k)))"
  let ?es = "map fst (take (nat n) ?all)"
  note old = oldest_of_entries [OF ok, where k = k]
  obtain m' fns where ev: "EvictOldest k n m = Some (m', fns)" "mg_sessions m' = mg_sessions (fst (evict_delete ?es m))"
      "mg_totalSessions m' = mg_totalSessions m - snd (evict_delete ?es m)"
    using evict_first_table [OF ok n, of ?all] by (auto simp: EvictOldest_def)
  note tab = evict_delete_table [OF ok, of ?es, unfolded Let_def, folded ev(2)]
  have get: "nm_get (mg_sessions m') k' sid = (if (k', sid) \<in> set ?es then None else nm_get (mg_sessions m) k' sid)" for k' sid
    using tab by blast
  have dist: "distinct ?es" using old(1) by (simp add: take_map [symmetric])
  have present: "nm_get (mg_sessions m) k' sid \<noteq> None" if e: "(k', sid) \<in> set ?es" for k' sid
  proof -
    obtain t where "((k', sid), t) \<in> set ?all" using e by (auto dest: in_set_takeD)
    then show ?thesis using old(4) by auto
  qed
  then have "\<forall>(k', sid) \<in> set ?es. nm_get (mg_sessions m) k' sid \<noteq> None" by blast
  then have "snd (evict_delete ?es m) = int (length ?es)" by (rule evict_delete_all [OF ok dist])
  then have cnt: "snd (evict_delete ?es m) = ?gone" using n old(2) by simp
  have older: "nm_get (mg_sessions m) k b = Some sb \<and> StartedAt sa \<le> StartedAt sb"
    if a: "nm_get (mg_sessions m) k a = Some sa" "nm_get (mg_sessions m') k a = None"
      and b: "nm_get (mg_sessions m') k b = Some sb" for a sa b sb
  proof -
    have bm: "(k, b) \<notin> set ?es" "nm_get (mg_sessions m) k b = Some sb" using b get [of k b] by (simp_all split: if_splits)
    have inb: "((k, b), StartedAt sb) \<in> set ?all" using bm(2) old(4) by auto
    have "(k, a) \<in> set ?es" using a get [of k a] by (simp split: if_splits)
    then obtain t where t: "((k, a), t) \<in> set (take (nat n) ?all)" by auto
    then have ta: "t = StartedAt sa" using old(4) a(1) by (auto dest: in_set_takeD)
    have "((k, b), StartedAt sb) \<notin> set (take (nat n) ?all)" using bm(1) by force
    with inb have "((k, b), StartedAt sb) \<in> set (drop (nat n) ?all)"
      by (metis Un_iff append_take_drop_id set_append)
    with sorted_take_drop [OF old(3) t] ta bm(2) show ?thesis by auto
  qed
  have other: "nm_get (mg_sessions m') k' sid = nm_get (mg_sessions m) k' sid" if "k' \<noteq> k" for k' sid
  proof -
    have "(k', sid) \<notin> set ?es" using old(4) that by (auto dest: in_set_takeD)
    then show ?thesis using get [of k' sid] by (simp only: if_False)
  qed
  have "int (live m') = int (live m) - ?gone" "mg_totalSessions m' = mg_totalSessions m - ?gone"
    using tab ev(3) cnt by (simp_all add: live_def)
  then show ?thesis
    by (intro exI [of _ m'] exI [of _ fns] conjI ev(1) allI impI)
      (assumption | rule other, assumption | rule older [THEN conjunct1] older [THEN conjunct2], (elim conjE, assumption)+)+
qed

theorem EvictOldest_oldest_witness:
  "\<exists>m' fns. EvictOldest ''k'' 1 (fst (Admit 1 9 9 ''k'' ''b'' ''ip'' (fst (Admit 0 3 3 ''k'' ''a'' ''ip'' (New_Manager
     \<lparr>MaxActiveSessions = 0, GlobalCap = 0, SoftIPCap = 0, BurstPerMinute = 0, SessionTTL = 0\<rparr>))))) = Some (m', fns) \<and>
   mg_totalSessions m' = 1"
proof -
  let ?m = "fst (Admit 1 9 9 ''k'' ''b'' ''ip'' (fst (Admit 0 3 3 ''k'' ''a'' ''ip'' (New_Manager
     \<lparr>MaxActiveSessions = 0, GlobalCap = 0, SoftIPCap = 0, BurstPerMinute = 0, SessionTTL = 0\<rparr>))))"
  have m: "mg_sessions ?m = [(''k'',
      [(''a'', \<lparr>SessionID = ''a'', RemoteIP = ''ip'', StartedAt = 3, LastSeen = 3, IsTorrent = False\<rparr>),
       (''b'', \<lparr>SessionID = ''b'', RemoteIP = ''ip'', StartedAt = 9, LastSeen = 9, IsTorrent = False\<rparr>)])]"
    "mg_totalSessions ?m = 2"
    by (simp_all add: Admit_def New_Manager_def limitsFor_def admit_burst_def gm_put_def gm_get_def)
  then have "nm_ok (mg_sessions ?m)" "length (key_sessions ?m ''k'') = 2"
    by (auto simp: nm_ok_def gm_ok_def gm_get_def key_sessions_def)
  with EvictOldest_oldest [of ?m 1 "''k''"] m(2) show ?thesis by auto
qed

text \<open>
  C11: the sweep removes exactly the sessions that have been idle for longer than the lifetime of
  their key and hold no closer; it touches no other session, and the counter follows.
\<close>

theorem gcExpired_exact:
  assumes ok: "nm_ok (mg_sessions m)" and cok: "nm_ok (mg_closers m)"
  shows "nm_get (mg_sessions (fst (gcExpired now m))) k sid =
      (case nm_get (mg_sessions m) k sid of None \<Rightarrow> None
       | Some s \<Rightarrow> if nm_get (mg_closers m) k sid \<noteq> None \<or> now - LastSeen s \<le> session_ttl m k then Some s else None) \<and>
    mg_totalSessions (fst (gcExpired now m)) - int (live (fst (gcExpired now m))) = mg_totalSessions m - int (live m)"
proof -
  let ?m1 = "fst (gc_locked now m)" and ?e = "snd (gc_locked now m)"
  have ses: "mg_sessions (fst (gcExpired now m)) = mg_sessions ?m1"
    by (simp add: gcExpired_def case_prod_beta addTotal_def)
  have tot: "mg_totalSessions (fst (gcExpired now m)) = mg_totalSessions m - int (length ?e)"
    by (simp add: gcExpired_def case_prod_beta addTotal_def)
  have clos: "(k, sid) \<in> set (sessionsWithClosers m) \<longleftrightarrow> nm_get (mg_closers m) k sid \<noteq> None"
  proof -
    have "(k, sid) \<in> set (sessionsWithClosers m) \<longleftrightarrow> (\<exists>km. (k, km) \<in> set (mg_closers m) \<and> sid \<in> fst ` set km)"
      by (force simp: sessionsWithClosers_def)
    also have "\<dots> \<longleftrightarrow> (\<exists>km. gm_get (mg_closers m) k = Some km \<and> gm_get km sid \<noteq> None)"
      using cok by (auto simp: nm_ok_def gm_get_in [symmetric] gm_get_def map_of_eq_None_iff)
    finally show ?thesis by (auto simp: nm_get_def split: option.splits)
  qed
  have "nm_get (mg_sessions ?m1) k sid =
      (case nm_get (mg_sessions m) k sid of None \<Rightarrow> None | Some s \<Rightarrow> if gc_keeps now m k sid s then Some s else None)"
    using gm_get_filter [OF key_sessions_ok [OF ok, of k], of "\<lambda>(sid, s). gc_keeps now m k sid s" sid]
    by (simp add: nm_get_key gc_key_sessions [OF ok] split: option.split)
  then show ?thesis using gc_locked_table(2) [OF ok, of now] clos
    by (simp add: ses tot live_def gc_keeps_def not_less split: option.split)
qed

theorem gcExpired_exact_witness:
  "nm_get (mg_sessions (fst (gcExpired (31 * time_Minute) (fst (Admit 0 0 0 ''k'' ''s'' ''ip'' (New_Manager
     \<lparr>MaxActiveSessions = 0, GlobalCap = 0, SoftIPCap = 0, BurstPerMinute = 0, SessionTTL = 0\<rparr>)))))) ''k'' ''s'' = None"
proof -
  let ?m = "fst (Admit 0 0 0 ''k'' ''s'' ''ip'' (New_Manager
     \<lparr>MaxActiveSessions = 0, GlobalCap = 0, SoftIPCap = 0, BurstPerMinute = 0, SessionTTL = 0\<rparr>))"
  have m: "mg_sessions ?m = [(''k'', [(''s'', \<lparr>SessionID = ''s'', RemoteIP = ''ip'', StartedAt = 0, LastSeen = 0, IsTorrent = False\<rparr>)])]"
    "mg_closers ?m = []" "session_ttl ?m ''k'' = 30 * time_Minute"
    by (simp_all add: Admit_def New_Manager_def limitsFor_def admit_burst_def gm_put_def gm_get_def session_ttl_def)
  then have "nm_ok (mg_sessions ?m)" "nm_ok (mg_closers ?m)"
    by (auto simp: nm_ok_def gm_ok_def gm_get_def)
  with gcExpired_exact [of ?m "31 * time_Minute" "''k''" "''s''"] m show ?thesis
    by (simp add: nm_get_def gm_get_def time_Minute_def)
qed

text \<open>
  C12: a session identifier that is admitted again while its session lives is counted twice: the
  table holds one session, the counter two, and releasing the session leaves the counter at one.
\<close>

theorem Admit_again_drifts:
  assumes "GlobalCap (mg_defaultLimits m) \<le> 0" "BurstPerMinute (limitsFor m k) \<le> 0"
    "MaxActiveSessions (limitsFor m k) \<le> 0" "SoftIPCap (limitsFor m k) \<le> 0"
    "nm_ok (mg_sessions m)" "nm_get (mg_sessions m) k sid = None"
  shows "let m2 = fst (Admit t t t k sid ip (fst (Admit t t t k sid ip m))) in
    int (live m2) = int (live m) + 1 \<and> mg_totalSessions m2 = mg_totalSessions m + 2 \<and>
    mg_totalSessions (Release k sid m2) - int (live (Release k sid m2)) = mg_totalSessions m - int (live m) + 1"
proof -
  have none: "snd (Admit t t t k sid ip m) = ReasonNone" if "GlobalCap (mg_defaultLimits m) \<le> 0"
    "BurstPerMinute (limitsFor m k) \<le> 0" "MaxActiveSessions (limitsFor m k) \<le> 0" "SoftIPCap (limitsFor m k) \<le> 0" for m
    using that by (auto simp: Admit_def admit_burst_def Let_def)
  obtain m1 where 1: "Admit t t t k sid ip m = (m1, ReasonNone)"
    using none [OF assms(1-4)] by (cases "Admit t t t k sid ip m") auto
  have lim: "limitsFor m1 k = limitsFor m k" "mg_defaultLimits m1 = mg_defaultLimits m"
    using Admit_limits [of t t t k sid ip m] 1 by (simp_all add: limitsFor_def split: option.split)
  obtain m2 where 2: "Admit t t t k sid ip m1 = (m2, ReasonNone)"
    using none [of m1] assms lim by (cases "Admit t t t k sid ip m1") auto
  note t1 = Admit_table [OF 1 assms(5)]
  have in1: "nm_get (mg_sessions m1) k sid \<noteq> None"
    using 1 by (cases rule: Admit_cases) (auto simp: nm_get_def)
  note t2 = Admit_table [OF 2 t1(1)]
  have in2: "nm_get (mg_sessions m2) k sid \<noteq> None"
    using 2 by (cases rule: Admit_cases) (auto simp: nm_get_def)
  have "int (live (Release k sid m2)) + 1 = int (live m2)" "mg_totalSessions (Release k sid m2) = mg_totalSessions m2 - 1"
    using in2 nm_count_nm_del [OF t2(1) in2] by (auto simp: Release_def deleteSession_eq live_def addTotal_def)
  then show ?thesis using 1 2 t1 t2 in1 assms(6) by simp
qed

theorem Admit_again_drifts_witness:
  "mg_totalSessions (fst (Admit 0 0 0 ''k'' ''s'' ''ip'' (fst (Admit 0 0 0 ''k'' ''s'' ''ip'' (New_Manager
     \<lparr>MaxActiveSessions = 0, GlobalCap = 0, SoftIPCap = 0, BurstPerMinute = 0, SessionTTL = 0\<rparr>))))) = 2"
  using Admit_again_drifts [of "New_Manager \<lparr>MaxActiveSessions = 0, GlobalCap = 0, SoftIPCap = 0, BurstPerMinute = 0, SessionTTL = 0\<rparr>"
      "''k''" "''s''" 0 "''ip''"]
  by (simp add: New_Manager_def limitsFor_def nm_ok_def nm_get_def Let_def)

end
