(* ===== verification/GoNet.thy ===== *)
theory GoNet
  imports GoStrings "HOL-Library.List_Lexorder"
begin

unbundle bit_operations_syntax

text \<open>
  What the code uses of \<^verbatim>\<open>net\<close>, \<^verbatim>\<open>net/netip\<close>, \<^verbatim>\<open>bytes\<close> and \<^verbatim>\<open>sort\<close>: addresses as
  byte lists, parsing of addresses and networks, containment and binary search. Arrays of bytes
  compare lexicographically, as \<^verbatim>\<open>bytes.Compare\<close> does; \<open>bnum\<close> reads them as numbers.
\<close>

section \<open>Addresses\<close>

type_synonym IP = bytes

definition v4InV6Prefix :: bytes where
  "v4InV6Prefix = replicate 10 0 @ [0xff, 0xff]"

definition To4 :: "IP \<Rightarrow> IP option" where
  "To4 ip = (if length ip = 4 then Some ip
     else if length ip = 16 \<and> take 12 ip = v4InV6Prefix then Some (drop 12 ip) else None)"

definition To16 :: "IP \<Rightarrow> IP option" where
  "To16 ip = (if length ip = 4 then Some (v4InV6Prefix @ ip)
     else if length ip = 16 then Some ip else None)"

definition ip_equal :: "IP \<Rightarrow> IP \<Rightarrow> bool" where
  "ip_equal ip x =
     (if length ip = length x then ip = x
      else if length ip = 4 \<and> length x = 16 then take 12 x = v4InV6Prefix \<and> ip = drop 12 x
      else if length ip = 16 \<and> length x = 4 then take 12 ip = v4InV6Prefix \<and> drop 12 ip = x
      else False)"

lemma length_v4InV6Prefix [simp]: "length v4InV6Prefix = 12"
  by (simp add: v4InV6Prefix_def)

lemma To16_length: "To16 ip = Some a \<Longrightarrow> length a = 16"
  by (auto simp: To16_def split: if_splits)

text \<open>Two addresses are equal when their 16-byte forms are.\<close>

lemma ip_equal_To16:
  assumes "To16 ip = Some a" "To16 x = Some b"
  shows "ip_equal ip x \<longleftrightarrow> a = b"
proof -
  have eq: "length y = 16 \<Longrightarrow> v4InV6Prefix @ z = y \<longleftrightarrow> take 12 y = v4InV6Prefix \<and> z = drop 12 y" for y z :: bytes
    by (metis append_eq_conv_conj append_take_drop_id length_v4InV6Prefix)
  show ?thesis using assms eq [of x ip] eq [of ip x]
    by (auto simp: To16_def ip_equal_def split: if_splits)
qed

section \<open>Parsing addresses\<close>

datatype netip_Addr = Addr4 bytes | Addr6 bytes string

fun As16 :: "netip_Addr \<Rightarrow> bytes" where
  "As16 (Addr4 b) = v4InV6Prefix @ b"
| "As16 (Addr6 b z) = b"

fun BitLen :: "netip_Addr \<Rightarrow> nat" where
  "BitLen (Addr4 b) = 32"
| "BitLen (Addr6 b z) = 128"

fun Zone :: "netip_Addr \<Rightarrow> string" where
  "Zone (Addr4 b) = []"
| "Zone (Addr6 b z) = z"

definition digit_val :: "char \<Rightarrow> nat" where
  "digit_val c = of_char c - 48"

text \<open>
  The decimal fields of an IPv4 address. \<open>dot\<close> holds at the start and after a dot, where another
  dot is refused, \<open>val\<close> and \<open>n\<close> are the value and the digits of the current field.
\<close>

fun parseIPv4Fields :: "bool \<Rightarrow> nat \<Rightarrow> nat \<Rightarrow> bytes \<Rightarrow> string \<Rightarrow> bytes option" where
  "parseIPv4Fields dot val n acc [] = (if length acc < 3 then None else Some (acc @ [of_nat val]))"
| "parseIPv4Fields dot val n acc (c # cs) =
     (if is_digit c
      then if n = 1 \<and> val = 0 then None
           else let v = val * 10 + digit_val c in if v > 255 then None else parseIPv4Fields False v (Suc n) acc cs
      else if c = CHR ''.''
      then if dot \<or> cs = [] \<or> length acc = 3 then None else parseIPv4Fields True 0 0 (acc @ [of_nat val]) cs
      else None)"

definition parseIPv4 :: "string \<Rightarrow> netip_Addr option" where
  "parseIPv4 s = map_option Addr4 (parseIPv4Fields True 0 0 [] s)"

definition hex_val :: "char \<Rightarrow> nat option" where
  "hex_val c = (if is_digit c then Some (digit_val c)
     else if CHR ''a'' \<le> c \<and> c \<le> CHR ''f'' then Some (of_char c - 87)
     else if CHR ''A'' \<le> c \<and> c \<le> CHR ''F'' then Some (of_char c - 55) else None)"

fun hex_group :: "nat \<Rightarrow> nat \<Rightarrow> string \<Rightarrow> (nat \<times> nat \<times> string) option" where
  "hex_group off acc [] = Some (off, acc, [])"
| "hex_group off acc (c # cs) =
     (case hex_val c of None \<Rightarrow> Some (off, acc, c # cs)
      | Some d \<Rightarrow> if off > 3 then None else hex_group (Suc off) (acc * 16 + d) cs)"

text \<open>The loop over the groups: the bytes so far, where the ellipsis stands, what is left.\<close>

function v6_loop :: "bytes \<Rightarrow> nat option \<Rightarrow> string \<Rightarrow> (bytes \<times> nat option \<times> string) option" where
  "v6_loop ip ell s =
     (if length ip \<ge> 16 then Some (ip, ell, s) else
      case hex_group 0 0 s of None \<Rightarrow> None
      | Some (off, acc, r) \<Rightarrow>
          if off = 0 then None
          else if r \<noteq> [] \<and> hd r = CHR ''.''
          then if ell = None \<and> length ip \<noteq> 12 \<or> length ip + 4 > 16 then None
               else map_option (\<lambda>f. (ip @ f, ell, [])) (parseIPv4Fields True 0 0 [] s)
          else let ip' = ip @ [of_nat (acc div 256), of_nat (acc mod 256)] in
            if r = [] then Some (ip', ell, [])
            else if hd r \<noteq> CHR '':'' \<or> tl r = [] then None
            else if hd (tl r) = CHR '':''
            then if ell \<noteq> None then None
                 else if tl (tl r) = [] then Some (ip', Some (length ip'), [])
                 else v6_loop ip' (Some (length ip')) (tl (tl r))
            else v6_loop ip' ell (tl r))"
  by pat_completeness auto
termination
  by (relation "measure (\<lambda>(ip, _, _). 16 - length ip)") auto

declare v6_loop.simps [simp del]

definition v6_expand :: "bytes \<times> nat option \<times> string \<Rightarrow> bytes option" where
  "v6_expand = (\<lambda>(ip, ell, s).
     if s \<noteq> [] then None
     else if length ip < 16
     then (case ell of None \<Rightarrow> None | Some e \<Rightarrow> Some (take e ip @ replicate (16 - length ip) 0 @ drop e ip))
     else if ell \<noteq> None then None else Some ip)"

definition parseIPv6 :: "string \<Rightarrow> netip_Addr option" where
  "parseIPv6 s0 =
     (let (s, zone) = (case index_byte s0 (CHR ''%'') of None \<Rightarrow> (s0, None) | Some i \<Rightarrow> (take i s0, Some (drop (Suc i) s0)))
      in if zone = Some [] then None else
         let z = (case zone of None \<Rightarrow> [] | Some z \<Rightarrow> z) in
         if s = ''::'' then Some (Addr6 (replicate 16 0) z)
         else let (ell, s) = (if take 2 s = ''::'' then (Some 0, drop 2 s) else (None, s))
              in map_option (\<lambda>b. Addr6 b z) (Option.bind (v6_loop [] ell s) v6_expand))"

definition ParseAddr :: "string \<Rightarrow> netip_Addr option" where
  "ParseAddr s =
     (case filter (\<lambda>c. c \<in> {CHR ''.'', CHR '':'', CHR ''%''}) s of
        [] \<Rightarrow> None
      | c # _ \<Rightarrow> if c = CHR ''.'' then parseIPv4 s else if c = CHR '':'' then parseIPv6 s else None)"

definition ParseIP :: "string \<Rightarrow> IP option" where
  "ParseIP s = (case ParseAddr s of None \<Rightarrow> None | Some a \<Rightarrow> if Zone a \<noteq> [] then None else Some (As16 a))"

section \<open>Networks\<close>

record IPNet =
  net_IP :: IP
  net_Mask :: bytes

fun CIDRMask :: "nat \<Rightarrow> nat \<Rightarrow> bytes" where
  "CIDRMask n 0 = []"
| "CIDRMask n (Suc l) =
     (if n \<ge> 8 then 0xff # CIDRMask (n - 8) l else NOT (drop_bit n 0xff) # CIDRMask 0 l)"

definition ip_Mask :: "IP \<Rightarrow> bytes \<Rightarrow> IP" where
  "ip_Mask ip0 m0 =
     (let m = (if length m0 = 16 \<and> length ip0 = 4 \<and> take 12 m0 = replicate 12 0xff then drop 12 m0 else m0);
          ip = (if length m = 4 \<and> length ip0 = 16 \<and> take 12 ip0 = v4InV6Prefix then drop 12 ip0 else ip0)
      in if length ip \<noteq> length m then [] else map2 (AND) ip m)"

text \<open>\<^verbatim>\<open>dtoi\<close> of \<^verbatim>\<open>net\<close>: the leading decimal digits, refusing values that get too large.\<close>

fun dtoi_loop :: "nat \<Rightarrow> nat \<Rightarrow> string \<Rightarrow> (nat \<times> nat) option" where
  "dtoi_loop n i [] = Some (n, i)"
| "dtoi_loop n i (c # cs) =
     (if is_digit c then let v = n * 10 + digit_val c in if v \<ge> 0xFFFFFF then None else dtoi_loop v (Suc i) cs
      else Some (n, i))"

definition dtoi :: "string \<Rightarrow> (nat \<times> nat) option" where
  "dtoi s = (case dtoi_loop 0 0 s of None \<Rightarrow> None | Some (n, i) \<Rightarrow> if i = 0 then None else Some (n, i))"

definition ParseCIDR :: "string \<Rightarrow> (IP \<times> IPNet) option" where
  "ParseCIDR s =
     (case index_byte s (CHR ''/'') of None \<Rightarrow> None
      | Some i \<Rightarrow>
          (case ParseAddr (take i s) of None \<Rightarrow> None
           | Some a \<Rightarrow>
               if Zone a \<noteq> [] then None else
               (case dtoi (drop (Suc i) s) of None \<Rightarrow> None
                | Some (n, k) \<Rightarrow>
                    if k \<noteq> length (drop (Suc i) s) \<or> n > BitLen a then None
                    else let m = CIDRMask n (BitLen a div 8)
                         in Some (As16 a, \<lparr>net_IP = ip_Mask (As16 a) m, net_Mask = m\<rparr>))))"

text \<open>\<^verbatim>\<open>IPMask.Size\<close>: the leading ones and the width, or zeros for a mask of another shape.\<close>

definition byte_ones :: "byte \<Rightarrow> nat" where
  "byte_ones b = length (takeWhile (\<lambda>i. bit b i) [7, 6, 5, 4, 3, 2, 1, 0])"

fun simpleMaskLength :: "bytes \<Rightarrow> nat option" where
  "simpleMaskLength [] = Some 0"
| "simpleMaskLength (v # vs) =
     (if v = 0xff then map_option (\<lambda>n. n + 8) (simpleMaskLength vs)
      else let n = byte_ones v in
        if v \<noteq> NOT (drop_bit n 0xff) \<or> (\<exists>x \<in> set vs. x \<noteq> 0) then None else Some n)"

definition mask_Size :: "bytes \<Rightarrow> nat \<times> nat" where
  "mask_Size m = (case simpleMaskLength m of None \<Rightarrow> (0, 0) | Some n \<Rightarrow> (n, length m * 8))"

definition networkNumberAndMask :: "IPNet \<Rightarrow> bytes \<times> bytes" where
  "networkNumberAndMask n =
     (let ip = (case To4 (net_IP n) of Some x \<Rightarrow> x | None \<Rightarrow> net_IP n); m = net_Mask n in
      if length ip \<notin> {4, 16} then ([], [])
      else if length m = 4 then if length ip \<noteq> 4 then ([], []) else (ip, m)
      else if length m = 16 then if length ip = 4 then (ip, drop 12 m) else (ip, m)
      else ([], []))"

definition net_Contains :: "IPNet \<Rightarrow> IP \<Rightarrow> bool" where
  "net_Contains n ip0 =
     (let (nn, m) = networkNumberAndMask n;
          ip = (case To4 ip0 of Some x \<Rightarrow> x | None \<Rightarrow> ip0)
      in length ip = length nn \<and> map2 (AND) nn m = map2 (AND) ip m)"

section \<open>Byte arrays as numbers\<close>

fun bnum :: "bytes \<Rightarrow> nat" where
  "bnum [] = 0"
| "bnum (b # bs) = unat b * 256 ^ length bs + bnum bs"

lemma bnum_less: "bnum bs < 256 ^ length bs"
proof (induction bs)
  case (Cons b bs)
  have "unat b < 2 ^ LENGTH(8)" by (rule unsigned_less)
  then have "unat b \<le> 255" by simp
  then have "unat b * 256 ^ length bs \<le> 255 * 256 ^ length bs" by (rule mult_le_mono1)
  with Cons have "unat b * 256 ^ length bs + bnum bs < 256 * 256 ^ length bs" by linarith
  then show ?case by simp
qed simp

lemma bnum_append: "bnum (xs @ ys) = bnum xs * 256 ^ length ys + bnum ys"
  by (induction xs) (simp_all add: power_add algebra_simps)

lemma bnum_less_iff: "length a = length b \<Longrightarrow> a < b \<longleftrightarrow> bnum a < bnum b"
proof (induction a b rule: list_induct2)
  case (Cons x xs y ys)
  let ?p = "256 ^ length ys :: nat"
  have b: "bnum xs < ?p" "bnum ys < ?p" using bnum_less [of xs] bnum_less [of ys] Cons.hyps by simp_all
  show ?case
  proof (cases "x = y")
    case True
    then show ?thesis using Cons by simp
  next
    case False
    have "unat x < unat y \<longleftrightarrow> unat x * ?p + bnum xs < unat y * ?p + bnum ys"
    proof
      assume "unat x < unat y"
      then have "(unat x + 1) * ?p \<le> unat y * ?p" by (intro mult_le_mono1) simp
      then show "unat x * ?p + bnum xs < unat y * ?p + bnum ys" using b by simp
    next
      assume l: "unat x * ?p + bnum xs < unat y * ?p + bnum ys"
      show "unat x < unat y"
      proof (rule ccontr)
        assume "\<not> unat x < unat y"
        then have "unat y < unat x" using False by (metis linorder_neqE_nat word_unat_eq_iff)
        then have "(unat y + 1) * ?p \<le> unat x * ?p" by (intro mult_le_mono1) simp
        then show False using b l by simp
      qed
    qed
    then show ?thesis using False Cons.hyps by (simp add: word_less_nat_alt)
  qed
qed simp

lemma bnum_inj: "length a = length b \<Longrightarrow> bnum a = bnum b \<longleftrightarrow> a = b"
  using bnum_less_iff [of a b] bnum_less_iff [of b a] by (metis linorder_neqE less_irrefl)

lemma bnum_le_iff: "length a = length b \<Longrightarrow> a \<le> b \<longleftrightarrow> bnum a \<le> bnum b"
  using bnum_less_iff [of b a] by (simp add: linorder_not_less [symmetric])

text \<open>Bit \<open>i\<close> of an address, counted from the most significant one.\<close>

definition abit :: "bytes \<Rightarrow> nat \<Rightarrow> bool" where
  "abit a i = bit (a ! (i div 8)) (7 - i mod 8)"

lemma bit_bnum: "k < 8 * length a \<Longrightarrow> bit (bnum a) k = bit (a ! (length a - 1 - k div 8)) (k mod 8)"
proof (induction a)
  case (Cons b bs)
  let ?n = "8 * length bs"
  have p: "(256::nat) ^ length bs = 2 ^ ?n" by (simp add: power_mult)
  have small: "bnum bs < 2 ^ ?n" using bnum_less [of bs] by (simp add: p)
  have split: "bit (bnum (b # bs)) k = (if k < ?n then bit (bnum bs) k else bit (unat b) (k - ?n))"
  proof (cases "k < ?n")
    case True
    then obtain d where d: "?n = k + Suc d" by (auto simp: less_iff_Suc_add)
    have e: "unat b * 2 ^ ?n + bnum bs = bnum bs + (unat b * 2 ^ d * 2) * 2 ^ k" by (simp add: d power_add)
    have "(unat b * 2 ^ ?n + bnum bs) div 2 ^ k = unat b * 2 ^ d * 2 + bnum bs div 2 ^ k"
      unfolding e by (rule div_mult_self1) simp
    then show ?thesis using True by (simp add: bit_iff_odd p)
  next
    case False
    then have e: "(2::nat) ^ k = 2 ^ ?n * 2 ^ (k - ?n)" by (simp flip: power_add)
    have "(unat b * 2 ^ ?n + bnum bs) div 2 ^ k = unat b div 2 ^ (k - ?n)"
      unfolding e using small by (simp add: div_mult2_eq)
    then show ?thesis using False by (simp add: bit_iff_odd p)
  qed
  show ?case
  proof (cases "k < ?n")
    case True
    then have "length bs - k div 8 = Suc (length bs - 1 - k div 8)" by (simp add: less_mult_imp_div_less mult.commute)
    then show ?thesis using True Cons.IH split by simp
  next
    case False
    define r where "r = k - ?n"
    have "k = 8 * length bs + r" "r < 8" using False Cons.prems by (simp_all add: r_def)
    then have "k div 8 = length bs" "k - ?n = k mod 8" by simp_all
    then show ?thesis using False split by (simp add: bit_unsigned_iff)
  qed
qed simp

lemma abit_bnum: "i < 8 * length a \<Longrightarrow> abit a i = bit (bnum a) (8 * length a - 1 - i)"
proof -
  assume i: "i < 8 * length a"
  obtain q r where q: "i = 8 * q + r" "r < 8" by (metis mod_less_divisor mult_div_mod_eq zero_less_numeral)
  define j m where "j = length a - 1 - q" and "m = 7 - r"
  have "8 * length a - 1 - i = 8 * j + m" "m < 8" using i q unfolding j_def m_def by linarith+
  moreover have "i div 8 = q" "i mod 8 = r" using q by auto
  ultimately have "(8 * length a - 1 - i) div 8 = length a - 1 - i div 8" "(8 * length a - 1 - i) mod 8 = 7 - i mod 8"
    by (simp_all add: j_def [symmetric] m_def [symmetric])
  moreover have "length a - 1 - (length a - 1 - i div 8) = i div 8" using i by (simp add: less_mult_imp_div_less mult.commute)
  ultimately show ?thesis using bit_bnum [of "8 * length a - 1 - i" a] i by (simp add: abit_def)
qed

text \<open>The first \<open>n\<close> bits of two addresses agree.\<close>

definition same_prefix :: "nat \<Rightarrow> bytes \<Rightarrow> bytes \<Rightarrow> bool" where
  "same_prefix n a b \<longleftrightarrow> (\<forall>i < n. abit a i = abit b i)"

lemma same_prefix_div:
  assumes "length a = 16" "length b = 16" "n \<le> 128"
  shows "same_prefix n a b \<longleftrightarrow> bnum a div 2 ^ (128 - n) = bnum b div 2 ^ (128 - n)"
proof -
  have bnd: "bnum a < 2 ^ 128" "bnum b < 2 ^ 128" using bnum_less [of a] bnum_less [of b] assms by simp_all
  have "same_prefix n a b \<longleftrightarrow> (\<forall>k. 128 - n \<le> k \<longrightarrow> k < 128 \<longrightarrow> bit (bnum a) k = bit (bnum b) k)"
  proof
    assume s: "same_prefix n a b"
    show "\<forall>k. 128 - n \<le> k \<longrightarrow> k < 128 \<longrightarrow> bit (bnum a) k = bit (bnum b) k"
    proof (intro allI impI)
      fix k assume k: "128 - n \<le> k" "k < 128"
      then have "127 - k < n" "127 - (127 - k) = k" using assms(3) by auto
      then show "bit (bnum a) k = bit (bnum b) k"
        using s abit_bnum [of "127 - k" a] abit_bnum [of "127 - k" b] assms k by (simp add: same_prefix_def)
    qed
  next
    assume "\<forall>k. 128 - n \<le> k \<longrightarrow> k < 128 \<longrightarrow> bit (bnum a) k = bit (bnum b) k"
    then show "same_prefix n a b"
      using assms by (auto simp: same_prefix_def abit_bnum)
  qed
  also have "\<dots> \<longleftrightarrow> drop_bit (128 - n) (bnum a) = drop_bit (128 - n) (bnum b)"
  proof
    assume h: "\<forall>k. 128 - n \<le> k \<longrightarrow> k < 128 \<longrightarrow> bit (bnum a) k = bit (bnum b) k"
    have big: "bit x j \<Longrightarrow> x < 2 ^ 128 \<Longrightarrow> j < 128" for x j :: nat
      by (metis bit_take_bit_iff take_bit_nat_eq_self)
    have "bit (bnum a) k = bit (bnum b) k" if "128 - n \<le> k" for k
      using h that big [OF _ bnd(1), of k] big [OF _ bnd(2), of k] by (cases "k < 128") auto
    then show "drop_bit (128 - n) (bnum a) = drop_bit (128 - n) (bnum b)"
      by (intro bit_eqI) (simp add: bit_drop_bit_eq)
  next
    assume d: "drop_bit (128 - n) (bnum a) = drop_bit (128 - n) (bnum b)"
    show "\<forall>k. 128 - n \<le> k \<longrightarrow> k < 128 \<longrightarrow> bit (bnum a) k = bit (bnum b) k"
    proof (intro allI impI)
      fix k assume "128 - n \<le> k"
      then show "bit (bnum a) k = bit (bnum b) k"
        using arg_cong [OF d, of "\<lambda>x. bit x (k - (128 - n))"] by (simp add: bit_drop_bit_eq)
    qed
  qed
  finally show ?thesis by (simp add: drop_bit_eq_div)
qed

text \<open>A range whose ends are a prefix filled up with zeros and with ones.\<close>

lemma prefix_range:
  assumes len: "length lo = 16" "length hi = 16" "length a = 16" and n: "n \<le> 128"
    and lo: "\<And>i. n \<le> i \<Longrightarrow> i < 128 \<Longrightarrow> \<not> abit lo i" and hi: "\<And>i. i < 128 \<Longrightarrow> abit hi i = (abit lo i \<or> n \<le> i)"
  shows "lo \<le> a \<and> a \<le> hi \<longleftrightarrow> same_prefix n lo a"
proof -
  let ?k = "128 - n"
  have bl: "i < 128 \<Longrightarrow> bit (bnum lo) i = abit lo (127 - i)" "i < 128 \<Longrightarrow> bit (bnum hi) i = abit hi (127 - i)" for i
    using abit_bnum [of "127 - i" lo] abit_bnum [of "127 - i" hi] len by simp_all
  have big: "bit x j \<Longrightarrow> x < 2 ^ 128 \<Longrightarrow> j < 128" for x j :: nat
    by (metis bit_take_bit_iff take_bit_nat_eq_self)
  have bnd: "bnum lo < 2 ^ 128" "bnum hi < 2 ^ 128" using bnum_less [of lo] bnum_less [of hi] len by simp_all
  have "take_bit ?k (bnum lo) = 0"
    using lo n by (intro bit_eqI) (auto simp: bit_take_bit_iff bl)
  then have lo0: "bnum lo = bnum lo div 2 ^ ?k * 2 ^ ?k"
    by (metis add.right_neutral div_mult_mod_eq take_bit_eq_mod)
  have "bnum hi = bnum lo OR mask ?k"
  proof (rule bit_eqI)
    fix i show "bit (bnum hi) i \<longleftrightarrow> bit (bnum lo OR mask ?k) i"
    proof (cases "i < 128")
      case True
      then show ?thesis using hi [of "127 - i"] n by (auto simp: bit_or_iff bit_mask_iff bl)
    next
      case False
      then show ?thesis using big bnd n by (auto simp: bit_or_iff bit_mask_iff)
    qed
  qed
  also have "\<dots> = bnum lo + mask ?k"
    using \<open>take_bit ?k (bnum lo) = 0\<close> by (intro disjunctive_add_eq_or [symmetric]) (simp only: take_bit_eq_mask)
  finally have hi0: "bnum hi = bnum lo div 2 ^ ?k * 2 ^ ?k + (2 ^ ?k - 1)" using lo0 by (simp add: mask_eq_exp_minus_1)
  have "lo \<le> a \<and> a \<le> hi \<longleftrightarrow> bnum lo \<le> bnum a \<and> bnum a \<le> bnum hi" using len by (simp add: bnum_le_iff)
  also have "\<dots> \<longleftrightarrow> bnum a div 2 ^ ?k = bnum lo div 2 ^ ?k"
  proof
    assume b: "bnum lo \<le> bnum a \<and> bnum a \<le> bnum hi"
    have "(0::nat) < 2 ^ ?k" by simp
    with b lo0 hi0 have "bnum lo div 2 ^ ?k * 2 ^ ?k \<le> bnum a" "bnum a < bnum lo div 2 ^ ?k * 2 ^ ?k + 2 ^ ?k"
      by linarith+
    then show "bnum a div 2 ^ ?k = bnum lo div 2 ^ ?k" by (intro div_nat_eqI) (auto simp: mult.commute)
  next
    assume e: "bnum a div 2 ^ ?k = bnum lo div 2 ^ ?k"
    have "bnum a = bnum lo div 2 ^ ?k * 2 ^ ?k + bnum a mod 2 ^ ?k" by (simp only: e [symmetric] div_mult_mod_eq)
    moreover have "bnum a mod 2 ^ ?k < 2 ^ ?k" by simp
    ultimately show "bnum lo \<le> bnum a \<and> bnum a \<le> bnum hi" using lo0 hi0 by (intro conjI) linarith+
  qed
  finally show ?thesis using same_prefix_div [OF len(1,3) n] by auto
qed

section \<open>Binary search\<close>

text \<open>\<^verbatim>\<open>sort.Search(n, f)\<close>.\<close>

function search_loop :: "nat \<Rightarrow> nat \<Rightarrow> (nat \<Rightarrow> bool) \<Rightarrow> nat" where
  "search_loop i j f =
     (if i < j then let h = (i + j) div 2 in if \<not> f h then search_loop (h + 1) j f else search_loop i h f else i)"
  by pat_completeness auto
termination
  by (relation "measure (\<lambda>(i, j, f). j - i)") (auto simp: Let_def)

declare search_loop.simps [simp del]

definition sort_Search :: "nat \<Rightarrow> (nat \<Rightarrow> bool) \<Rightarrow> nat" where
  "sort_Search n f = search_loop 0 n f"

lemma search_loop_spec:
  assumes "i \<le> j" "\<And>a b. a \<le> b \<Longrightarrow> b < n \<Longrightarrow> f a \<Longrightarrow> f b" "j \<le> n" "\<And>a. a < i \<Longrightarrow> \<not> f a" "j < n \<Longrightarrow> f j"
  shows "search_loop i j f \<le> n \<and> (\<forall>a < search_loop i j f. \<not> f a) \<and> (search_loop i j f < n \<longrightarrow> f (search_loop i j f))"
  using assms
proof (induction i j f rule: search_loop.induct)
  case (1 i j f)
  show ?case
  proof (cases "i < j")
    case True
    let ?h = "(i + j) div 2"
    have h: "i \<le> ?h" "?h < j" using True by auto
    show ?thesis
    proof (cases "f ?h")
      case ff: True
      from 1(2) [OF True refl _ h(1) 1(4) _ 1(6)] ff h 1(5)
      have "search_loop i ?h f \<le> n \<and> (\<forall>a < search_loop i ?h f. \<not> f a) \<and> (search_loop i ?h f < n \<longrightarrow> f (search_loop i ?h f))"
        by simp
      moreover have "search_loop i j f = search_loop i ?h f"
        using True ff by (simp add: search_loop.simps [of i j f] Let_def)
      ultimately show ?thesis by simp
    next
      case nf: False
      have "\<not> f a" if "a < ?h + 1" for a using nf 1(4) [of a ?h] h 1(5) that by auto
      from 1(1) [OF True refl nf _ 1(4) 1(5) this 1(7)] h
      have "search_loop (?h + 1) j f \<le> n \<and> (\<forall>a < search_loop (?h + 1) j f. \<not> f a) \<and>
          (search_loop (?h + 1) j f < n \<longrightarrow> f (search_loop (?h + 1) j f))" by simp
      moreover have "search_loop i j f = search_loop (?h + 1) j f"
        using True nf by (simp add: search_loop.simps [of i j f] Let_def)
      ultimately show ?thesis by simp
    qed
  next
    case False
    then have "i = j" using 1(3) by simp
    moreover have "search_loop i j f = i" using False by (simp add: search_loop.simps [of i j f])
    ultimately show ?thesis using 1(5,6,7) by auto
  qed
qed

text \<open>On a predicate that stays true once it is, the search returns the first index where it holds.\<close>

lemma sort_Search_spec:
  assumes "\<And>a b. a \<le> b \<Longrightarrow> b < n \<Longrightarrow> f a \<Longrightarrow> f b"
  shows "sort_Search n f \<le> n" "a < sort_Search n f \<Longrightarrow> \<not> f a" "sort_Search n f < n \<Longrightarrow> f (sort_Search n f)"
  using search_loop_spec [of 0 n n f] assms by (auto simp: sort_Search_def)

section \<open>Parsed networks\<close>

lemma parseIPv4Fields_length: "length acc \<le> 3 \<Longrightarrow> parseIPv4Fields dot val n acc s = Some b \<Longrightarrow> length b = 4"
  by (induction dot val n acc s rule: parseIPv4Fields.induct) (auto simp: Let_def split: if_splits)

lemma v6_loop_length:
  "even (length ip) \<Longrightarrow> length ip \<le> 16 \<Longrightarrow> v6_loop ip ell s = Some (b, e, r) \<Longrightarrow> length b \<le> 16"
proof (induction ip ell s rule: v6_loop.induct)
  case (1 ip ell s)
  note eq = 1(5) [unfolded v6_loop.simps [of ip ell s]]
  show ?case
  proof (cases "length ip \<ge> 16")
    case True
    then show ?thesis using eq 1(4) by simp
  next
    case False
    obtain off acc r' where g: "hex_group 0 0 s = Some (off, acc, r')"
      using eq False by (cases "hex_group 0 0 s") auto
    have le: "length ip + 2 \<le> 16" using False 1(3) by presburger
    show ?thesis
      using eq False g le 1(3) parseIPv4Fields_length [of "[]"]
        1(1) [OF False g refl refl] 1(2) [OF False g refl refl]
      by (auto simp: Let_def split: if_splits)
  qed
qed

lemma v6_expand_length: "length ip \<le> 16 \<Longrightarrow> v6_expand (ip, ell, s) = Some b \<Longrightarrow> length b = 16"
  by (auto simp: v6_expand_def split: if_splits option.splits)

lemma ParseAddr_length: "ParseAddr s = Some a \<Longrightarrow> length (As16 a) = 16 \<and> (BitLen a = 32 \<longrightarrow> take 12 (As16 a) = v4InV6Prefix)"
proof -
  assume "ParseAddr s = Some a"
  then consider "parseIPv4 s = Some a" | "parseIPv6 s = Some a"
    by (auto simp: ParseAddr_def split: list.splits if_splits)
  then show ?thesis
  proof cases
    case 1
    then show ?thesis using parseIPv4Fields_length [of "[]"] by (auto simp: parseIPv4_def)
  next
    case 2
    have "length b = 16" if "v6_loop [] ell t = Some x" "v6_expand x = Some b" for ell t x b
      using that v6_loop_length [of "[]" ell t] v6_expand_length by (cases x) auto
    with 2 show ?thesis
      by (auto simp: parseIPv6_def Let_def bind_eq_Some_conv split: if_splits option.splits prod.splits)
  qed
qed

lemma ParseIP_length: "ParseIP s = Some ip \<Longrightarrow> length ip = 16"
  using ParseAddr_length by (auto simp: ParseIP_def split: option.splits if_splits)

lemma length_CIDRMask [simp]: "length (CIDRMask n l) = l"
  by (induction n l rule: CIDRMask.induct) auto

lemma bit_byte_mask: "j < 8 \<Longrightarrow> n \<le> 8 \<Longrightarrow> bit (NOT (drop_bit n 0xff) :: byte) (7 - j) \<longleftrightarrow> j < n"
proof -
  assume jn: "j < 8" "n \<le> 8"
  have ff: "(0xff :: byte) = mask 8" by (simp add: mask_eq_exp_minus_1)
  show ?thesis using jn unfolding ff by (simp add: bit_not_iff bit_drop_bit_eq bit_mask_iff) linarith
qed

lemma abit_Cons: "abit (b # bs) i = (if i < 8 then bit b (7 - i) else abit bs (i - 8))"
proof (cases "i < 8")
  case False
  then have "i div 8 = Suc ((i - 8) div 8)" "i mod 8 = (i - 8) mod 8"
    by (simp_all add: le_div_geq le_mod_geq)
  then show ?thesis using False by (simp add: abit_def)
qed (simp add: abit_def)

lemma abit_append: "abit (xs @ ys) i = (if i < 8 * length xs then abit xs i else abit ys (i - 8 * length xs))"
  by (induction xs arbitrary: i) (auto simp: abit_Cons algebra_simps)

lemma abit_CIDRMask: "i < 8 * l \<Longrightarrow> abit (CIDRMask n l) i \<longleftrightarrow> i < n"
proof (induction n l arbitrary: i rule: CIDRMask.induct)
  case (2 n l)
  have ff: "(0xff :: byte) = mask 8" by (simp add: mask_eq_exp_minus_1)
  have "bit (0xff :: byte) (7 - i)" if "i < 8" unfolding ff using that by (simp add: bit_mask_iff)
  then show ?case using 2 bit_byte_mask [of i n] by (auto simp: abit_Cons)
qed simp

lemma abit_map2_AND: "length a = length m \<Longrightarrow> i < 8 * length a \<Longrightarrow> abit (map2 (AND) a m) i = (abit a i \<and> abit m i)"
  by (simp add: abit_def bit_and_iff less_mult_imp_div_less mult.commute)

lemma simpleMaskLength_CIDRMask: "n \<le> 8 * l \<Longrightarrow> simpleMaskLength (CIDRMask n l) = Some n"
proof (induction n l rule: CIDRMask.induct)
  case (2 n l)
  have z: "\<forall>x \<in> set (CIDRMask 0 k). x = 0" for k by (induction k) auto
  show ?case
  proof (cases "n \<ge> 8")
    case True
    then show ?thesis using 2 by simp
  next
    case False
    then consider "n = 0" | "n = 1" | "n = 2" | "n = 3" | "n = 4" | "n = 5" | "n = 6" | "n = 7" by linarith
    then have "NOT (drop_bit n 0xff) \<noteq> (0xff :: byte)" "byte_ones (NOT (drop_bit n 0xff)) = n"
      by (cases; simp add: byte_ones_def)+
    then show ?thesis using False z by (auto simp: Let_def)
  qed
qed simp

text \<open>
  The network of a parsed CIDR: \<open>cidr_prefix\<close> is the 16-byte address and the number of its
  leading bits that count, 96 more than written for an IPv4 network.
\<close>

definition cidr_prefix :: "string \<Rightarrow> (bytes \<times> nat) option" where
  "cidr_prefix s =
     (case ParseCIDR s of None \<Rightarrow> None
      | Some (ip, n) \<Rightarrow> Some (ip, fst (mask_Size (net_Mask n)) + (if length (net_Mask n) = 4 then 96 else 0)))"

lemma ParseCIDR_shape:
  assumes "ParseCIDR s = Some (ip, n)"
  shows "\<exists>i x m. ParseAddr (take i s) = Some x \<and> m \<le> BitLen x \<and> ip = As16 x \<and>
    n = \<lparr>net_IP = ip_Mask (As16 x) (CIDRMask m (BitLen x div 8)), net_Mask = CIDRMask m (BitLen x div 8)\<rparr>"
proof -
  obtain i where i: "index_byte s (CHR ''/'') = Some i" using assms by (auto simp: ParseCIDR_def split: option.splits)
  obtain x where x: "ParseAddr (take i s) = Some x" "Zone x = []"
    using assms i by (auto simp: ParseCIDR_def split: option.splits if_splits)
  obtain m k where m: "dtoi (drop (Suc i) s) = Some (m, k)"
    using assms i x by (cases "dtoi (drop (Suc i) s)") (auto simp: ParseCIDR_def)
  have "m \<le> BitLen x" "ip = As16 x"
    "n = \<lparr>net_IP = ip_Mask (As16 x) (CIDRMask m (BitLen x div 8)), net_Mask = CIDRMask m (BitLen x div 8)\<rparr>"
    using assms i x m by (auto simp: ParseCIDR_def Let_def split: if_splits)
  then show ?thesis using x(1) by blast
qed

section \<open>Lookup in sorted ranges\<close>

text \<open>
  Searching ranges sorted by their upper end for the first one that ends at or after \<open>a\<close>. On
  disjoint ranges this finds the range that holds \<open>a\<close> exactly when there is one.
\<close>

lemma range_search_hit:
  fixes lo hi :: "'r \<Rightarrow> 'a::linorder"
  assumes sorted: "\<And>i j. i \<le> j \<Longrightarrow> j < length rs \<Longrightarrow> hi (rs ! i) \<le> hi (rs ! j)"
    and disj: "\<And>i j. i < j \<Longrightarrow> j < length rs \<Longrightarrow> hi (rs ! i) < lo (rs ! j)"
  defines "k \<equiv> \<lambda>a. sort_Search (length rs) (\<lambda>i. hi (rs ! i) \<ge> a)"
  shows "k a < length rs \<and> lo (rs ! k a) \<le> a \<longleftrightarrow> (\<exists>r \<in> set rs. lo r \<le> a \<and> a \<le> hi r)"
    and "r \<in> set rs \<Longrightarrow> lo r \<le> a \<Longrightarrow> a \<le> hi r \<Longrightarrow> rs ! k a = r"
proof -
  have mono: "i \<le> j \<Longrightarrow> j < length rs \<Longrightarrow> hi (rs ! i) \<ge> a \<Longrightarrow> hi (rs ! j) \<ge> a" for i j
    using sorted [of i j] by auto
  have spec: "i < k a \<Longrightarrow> \<not> a \<le> hi (rs ! i)" "k a < length rs \<Longrightarrow> a \<le> hi (rs ! k a)" for i
    using sort_Search_spec(2,3) [of "length rs" "\<lambda>i. hi (rs ! i) \<ge> a"] mono unfolding k_def by blast+
  have first: "k a = j" if j: "j < length rs" "lo (rs ! j) \<le> a" "a \<le> hi (rs ! j)" for j
  proof (rule antisym)
    show "k a \<le> j" using spec(1) [of j] j by (metis linorder_not_less)
    show "j \<le> k a"
    proof (rule ccontr)
      assume "\<not> j \<le> k a"
      then have "hi (rs ! k a) < lo (rs ! j)" using disj j(1) by simp
      moreover have "a \<le> hi (rs ! k a)" using spec(2) \<open>\<not> j \<le> k a\<close> j(1) by simp
      ultimately show False using j(2) by simp
    qed
  qed
  show "rs ! k a = r" if "r \<in> set rs" "lo r \<le> a" "a \<le> hi r" for r
    using that first by (auto simp: in_set_conv_nth)
  show "k a < length rs \<and> lo (rs ! k a) \<le> a \<longleftrightarrow> (\<exists>r \<in> set rs. lo r \<le> a \<and> a \<le> hi r)"
    using first spec(2) by (metis in_set_conv_nth)
qed

lemma length_filter_le1_nth:
  assumes "length (filter P xs) \<le> 1" "i < j" "j < length xs" "P (xs ! i)" "P (xs ! j)"
  shows False
proof -
  have i: "i < length xs" using assms by simp
  have "{i, j} \<subseteq> {n. n < length xs \<and> P (xs ! n)}" using assms i by auto
  then have "card {i, j} \<le> card {n. n < length xs \<and> P (xs ! n)}" by (intro card_mono) auto
  then show False using assms(1,2) by (simp add: length_filter_conv_card)
qed

text \<open>Sorted by the upper end, ranges no two of which share a point lie one after the other.\<close>

lemma disjoint_ranges_ordered:
  fixes lo hi :: "'r \<Rightarrow> 'a::linorder"
  assumes "\<And>i j. i \<le> j \<Longrightarrow> j < length rs \<Longrightarrow> hi (rs ! i) \<le> hi (rs ! j)"
    and "\<And>r. r \<in> set rs \<Longrightarrow> lo r \<le> hi r"
    and "\<And>r. r \<in> set rs \<Longrightarrow> length (filter (\<lambda>q. lo q \<le> hi r \<and> hi r \<le> hi q) rs) \<le> 1"
    and "i < j" "j < length rs"
  shows "hi (rs ! i) < lo (rs ! j)"
proof (rule ccontr)
  assume n: "\<not> hi (rs ! i) < lo (rs ! j)"
  have i: "i < length rs" using assms(4,5) by simp
  have "lo (rs ! i) \<le> hi (rs ! i)" "hi (rs ! i) \<le> hi (rs ! j)" "lo (rs ! j) \<le> hi (rs ! i)"
    using assms(1) [of i j] assms(2,4,5) i n by auto
  then show False
    using length_filter_le1_nth [OF assms(3) [of "rs ! i"] assms(4,5)] i by simp
qed

end
