(* ===== verification/GeoIP.thy ===== *)
theory GeoIP
  imports GoNet
begin

unbundle bit_operations_syntax

text \<open>
  \<^verbatim>\<open>common/split_tunnel/geoip.go\<close>: the country list as ranges sorted by their upper end,
  its parser, its lookup by binary search, and its refresh. The HTTP exchange and the files are
  inputs of the operations.
\<close>

record ipRange =
  r_lo :: bytes
  r_hi :: bytes

record GeoIPSet =
  geo_ranges :: "ipRange list option"
  geo_etag :: string

definition geoIPMaxBytes :: nat where "geoIPMaxBytes = 8 * 1024 * 1024"
definition geoIPMinNetworks :: nat where "geoIPMinNetworks = 100"
definition geoIPRefresh :: int where "geoIPRefresh = 24 * 3600 * 1000000000"
definition geoIPRetryMin :: int where "geoIPRetryMin = 15 * 1000000000"
definition geoIPRetryMax :: int where "geoIPRetryMax = 5 * 60 * 1000000000"
definition geoIPRetryEmpty :: int where "geoIPRetryEmpty = 30 * 1000000000"

definition NewGeoIPSet :: GeoIPSet where
  "NewGeoIPSet = \<lparr>geo_ranges = None, geo_etag = []\<rparr>"

definition geo_Len :: "GeoIPSet \<Rightarrow> nat" where
  "geo_Len g = (case geo_ranges g of None \<Rightarrow> 0 | Some rs \<Rightarrow> length rs)"

text \<open>The lookup in the loaded ranges: the first range that ends at or after the address.\<close>

definition geo_Contains :: "GeoIPSet \<Rightarrow> IP \<Rightarrow> bool" where
  "geo_Contains g ip =
     (case To16 ip of None \<Rightarrow> False
      | Some addr \<Rightarrow>
          (case geo_ranges g of None \<Rightarrow> False
           | Some ranges \<Rightarrow>
               let i = sort_Search (length ranges) (\<lambda>i. r_hi (ranges ! i) \<ge> addr)
               in i < length ranges \<and> r_lo (ranges ! i) \<le> addr))"

text \<open>The loop of \<^verbatim>\<open>rangeOf\<close> that sets the bits after the prefix.\<close>

definition set_abit :: "nat \<Rightarrow> bytes \<Rightarrow> bytes" where
  "set_abit i h = h[i div 8 := h ! (i div 8) OR push_bit (7 - i mod 8) 1]"

definition set_tail_bits :: "nat \<Rightarrow> bytes \<Rightarrow> bytes" where
  "set_tail_bits ones hi = fold set_abit [ones..<128] hi"

definition rangeOf :: "IPNet \<Rightarrow> ipRange option" where
  "rangeOf ipnet =
     (case To16 (net_IP ipnet) of None \<Rightarrow> None
      | Some ip \<Rightarrow>
          let (ones, bits) = mask_Size (net_Mask ipnet) in
          if bits = 0 then None
          else let ones = (if bits = 32 then ones + 96 else ones)
               in Some \<lparr>r_lo = ip, r_hi = set_tail_bits ones ip\<rparr>)"

text \<open>
  \<^verbatim>\<open>bufio.Scanner\<close> over the lines of a text: a carriage return before the newline is dropped,
  a line of 64K or more is an error (\<open>None\<close>).
\<close>

definition drop_cr :: "string \<Rightarrow> string" where
  "drop_cr l = (if l \<noteq> [] \<and> last l = CHR 0x0D then butlast l else l)"

definition scan_lines :: "string \<Rightarrow> string list option" where
  "scan_lines s =
     (let ls = split_on (CHR 0x0A) s;
          ls = (if last ls = [] then butlast ls else ls)
      in if \<exists>l \<in> set ls. length l \<ge> 65536 then None else Some (map drop_cr ls))"

definition line_range :: "string \<Rightarrow> ipRange option" where
  "line_range l =
     (let line = trim_space l in
      if line = [] \<or> has_prefix line ''#'' then None
      else case ParseCIDR line of None \<Rightarrow> None | Some (_, ipnet) \<Rightarrow> rangeOf ipnet)"

text \<open>Ranges that end at the same address may come in any order from \<^verbatim>\<open>sort.Slice\<close>; here they keep theirs.\<close>

definition parseGeoIP :: "string \<Rightarrow> ipRange list option" where
  "parseGeoIP r =
     (case scan_lines (take geoIPMaxBytes r) of None \<Rightarrow> None
      | Some ls \<Rightarrow> Some (sort_key r_hi (List.map_filter line_range ls)))"

definition geo_load :: "string \<Rightarrow> GeoIPSet \<Rightarrow> GeoIPSet \<times> nat option" where
  "geo_load r g =
     (case parseGeoIP r of None \<Rightarrow> (g, None)
      | Some ranges \<Rightarrow>
          if length ranges < geoIPMinNetworks then (g, None)
          else (g\<lparr>geo_ranges := Some ranges\<rparr>, Some (length ranges)))"

definition LoadFile :: "string option \<Rightarrow> GeoIPSet \<Rightarrow> GeoIPSet \<times> nat option" where
  "LoadFile file g = (case file of None \<Rightarrow> (g, None) | Some f \<Rightarrow> geo_load f g)"


text \<open>One round of \<^verbatim>\<open>KeepFresh\<close>: the waiting time and the next retry interval.\<close>

definition KeepFresh_wait :: "bool \<Rightarrow> GeoIPSet \<Rightarrow> int \<Rightarrow> int \<times> int" where
  "KeepFresh_wait refreshed g retry =
     (if refreshed then (geoIPRefresh, geoIPRetryMin)
      else let ceiling = (if geo_Len g = 0 then geoIPRetryEmpty else geoIPRetryMax);
               retry = (if retry > ceiling then ceiling else retry)
           in (retry, if retry < ceiling then retry * 2 else retry))"

section \<open>The range of a network\<close>

lemma pos8_eq: "7 - j mod 8 = 7 - i mod 8 \<and> j div 8 = i div 8 \<longleftrightarrow> j = (i::nat)"
proof
  assume e: "7 - j mod 8 = 7 - i mod 8 \<and> j div 8 = i div 8"
  have u: "u < 8 \<Longrightarrow> v < 8 \<Longrightarrow> 7 - u = 7 - v \<Longrightarrow> u = v" for u v :: nat by linarith
  have "j mod 8 = i mod 8" by (rule u) (use e in simp_all)
  have "j = j div 8 * 8 + j mod 8" by (simp only: div_mult_mod_eq)
  also have "\<dots> = i div 8 * 8 + i mod 8" using e \<open>j mod 8 = i mod 8\<close> by (simp only:)
  also have "\<dots> = i" by (simp only: div_mult_mod_eq)
  finally show "j = i" .
qed simp

lemma set_abit:
  assumes "length (h :: bytes) = 16" "i < 128"
  shows "length (set_abit i h) = 16" "abit (set_abit i h) j \<longleftrightarrow> abit h j \<or> j = i"
proof -
  show "length (set_abit i h) = 16" using assms by (simp add: set_abit_def)
  have l: "i div 8 < length h" using assms by simp
  have b: "bit (push_bit (7 - i mod 8) 1 :: byte) k \<longleftrightarrow> k = 7 - i mod 8" if "k < 8" for k
    using that by (auto simp: bit_exp_iff)
  have k: "7 - j mod 8 < 8" by simp
  have "abit (set_abit i h) j = (abit h j \<or> (7 - j mod 8 = 7 - i mod 8 \<and> j div 8 = i div 8))"
  proof (cases "j div 8 = i div 8")
    case True
    then show ?thesis using b [OF k] l by (simp add: abit_def bit_or_iff set_abit_def)
  qed (simp add: abit_def set_abit_def)
  then show "abit (set_abit i h) j \<longleftrightarrow> abit h j \<or> j = i" by (simp only: pos8_eq)
qed

lemma set_abits:
  "length h = 16 \<Longrightarrow> set is \<subseteq> {..<128} \<Longrightarrow>
   length (fold set_abit is h) = 16 \<and> (abit (fold set_abit is h) j \<longleftrightarrow> abit h j \<or> j \<in> set is)"
proof (induction "is" arbitrary: h)
  case (Cons i "is")
  have i: "i < 128" "set is \<subseteq> {..<128}" using Cons.prems(2) by auto
  note s = set_abit [OF Cons.prems(1) i(1)]
  show ?case using Cons.IH [OF s(1) i(2)] s(2) [of j] by (simp only: fold_Cons o_apply set_simps insert_iff) blast
qed simp

lemma set_tail_bits_spec:
  assumes "length h = 16"
  shows "length (set_tail_bits ones h) = 16" "i < 128 \<Longrightarrow> abit (set_tail_bits ones h) i = (abit h i \<or> ones \<le> i)"
proof -
  have "set [ones..<128] \<subseteq> {..<128}" by auto
  then show "length (set_tail_bits ones h) = 16" "i < 128 \<Longrightarrow> abit (set_tail_bits ones h) i = (abit h i \<or> ones \<le> i)"
    using set_abits [OF assms, of "[ones..<128]" i] unfolding set_tail_bits_def by auto
qed

lemma rangeOf_ParseCIDR:
  assumes "ParseCIDR s = Some (ip, n)" "cidr_prefix s = Some (p, k)" "length a = 16"
  obtains r where "rangeOf n = Some r" "k \<le> 128" "length p = 16" "length (r_lo r) = 16" "length (r_hi r) = 16" "r_lo r \<le> r_hi r"
    "r_lo r \<le> a \<and> a \<le> r_hi r \<longleftrightarrow> same_prefix k p a"
proof -
  obtain x m i where x: "ParseAddr (take i s) = Some x" "m \<le> BitLen x" "ip = As16 x"
      "n = \<lparr>net_IP = ip_Mask (As16 x) (CIDRMask m (BitLen x div 8)), net_Mask = CIDRMask m (BitLen x div 8)\<rparr>"
    using ParseCIDR_shape [OF assms(1)] by blast
  note len = ParseAddr_length [OF x(1)]
  have bl: "BitLen x = 32 \<or> BitLen x = 128" by (cases x) auto
  have sz: "mask_Size (net_Mask n) = (m, BitLen x)"
    using bl x(2) simpleMaskLength_CIDRMask [of m "BitLen x div 8"] by (auto simp: mask_Size_def x(4))
  define ones where "ones = (if BitLen x = 32 then m + 96 else m)"
  have k: "k = ones" "p = As16 x" "ones \<le> 128" using assms(1,2) sz bl x by (auto simp: cidr_prefix_def ones_def)
  obtain lo where lo: "To16 (net_IP n) = Some lo" "length lo = 16"
      "\<And>i. i < 128 \<Longrightarrow> abit lo i \<longleftrightarrow> abit (As16 x) i \<and> i < ones"
  proof (cases "BitLen x = 32")
    case False
    then have "net_IP n = map2 (AND) (As16 x) (CIDRMask m 16)" using bl len by (auto simp: x(4) ip_Mask_def)
    then show ?thesis using that [of "map2 (AND) (As16 x) (CIDRMask m 16)"] len False
      by (simp add: To16_def ones_def abit_map2_AND abit_CIDRMask)
  next
    case True
    let ?q = "map2 (AND) (drop 12 (As16 x)) (CIDRMask m 4)"
    have ip: "net_IP n = ?q" using True len by (simp add: x(4) ip_Mask_def)
    have "As16 x = v4InV6Prefix @ drop 12 (As16 x)" using True len append_take_drop_id [of 12 "As16 x"] by simp
    then have "abit (v4InV6Prefix @ ?q) i \<longleftrightarrow> abit (As16 x) i \<and> i < ones" if "i < 128" for i
      using abit_append [of v4InV6Prefix "drop 12 (As16 x)" i] abit_append [of v4InV6Prefix ?q i] that len True
      by (auto simp: ones_def abit_map2_AND abit_CIDRMask)
    then show ?thesis using that [of "v4InV6Prefix @ ?q"] ip len by (simp add: To16_def)
  qed
  let ?r = "\<lparr>r_lo = lo, r_hi = set_tail_bits ones lo\<rparr>"
  have "rangeOf n = Some ?r" using lo(1) sz bl by (auto simp: rangeOf_def ones_def)
  moreover have "lo \<le> a \<and> a \<le> set_tail_bits ones lo \<longleftrightarrow> same_prefix ones lo a"
    using lo(2,3) set_tail_bits_spec [OF lo(2), where ones = ones] assms(3) k(3) by (intro prefix_range) simp_all
  moreover have "lo \<le> lo \<and> lo \<le> set_tail_bits ones lo \<longleftrightarrow> same_prefix ones lo lo"
    using lo(2,3) set_tail_bits_spec [OF lo(2), where ones = ones] k(3) by (intro prefix_range) simp_all
  then have "lo \<le> set_tail_bits ones lo" by (simp add: same_prefix_def)
  moreover have "same_prefix ones lo a \<longleftrightarrow> same_prefix ones (As16 x) a"
    using lo(3) k(3) by (auto simp: same_prefix_def)
  ultimately show thesis using that [of ?r] k lo(2) set_tail_bits_spec(1) [OF lo(2), of ones] len by simp
qed

section \<open>Lookup and refresh\<close>

text \<open>The networks a text lists, as address and number of leading bits.\<close>

definition line_prefix :: "string \<Rightarrow> (bytes \<times> nat) option" where
  "line_prefix l = (let line = trim_space l in if line = [] \<or> has_prefix line ''#'' then None else cidr_prefix line)"

definition networks :: "string list \<Rightarrow> (bytes \<times> nat) list" where
  "networks ls = List.map_filter line_prefix ls"

lemma line_range_prefix:
  assumes "length a = 16"
  shows "(line_range l = None \<longleftrightarrow> line_prefix l = None) \<and>
    (\<forall>r p k. line_range l = Some r \<longrightarrow> line_prefix l = Some (p, k) \<longrightarrow>
       length (r_hi r) = 16 \<and> r_lo r \<le> r_hi r \<and> (r_lo r \<le> a \<and> a \<le> r_hi r \<longleftrightarrow> same_prefix k p a))"
proof (cases "trim_space l = [] \<or> has_prefix (trim_space l) ''#''")
  case False
  show ?thesis
  proof (cases "ParseCIDR (trim_space l)")
    case None
    then show ?thesis by (simp add: line_range_def line_prefix_def cidr_prefix_def Let_def)
  next
    case (Some x)
    obtain ip n where x: "ParseCIDR (trim_space l) = Some (ip, n)" using Some by (cases x) auto
    obtain p k where pk: "cidr_prefix (trim_space l) = Some (p, k)" using x by (simp add: cidr_prefix_def)
    obtain r where "rangeOf n = Some r" "length (r_hi r) = 16" "r_lo r \<le> r_hi r"
        "r_lo r \<le> a \<and> a \<le> r_hi r \<longleftrightarrow> same_prefix k p a"
      using rangeOf_ParseCIDR [OF x pk assms] by metis
    then show ?thesis using False x pk by (simp add: line_range_def line_prefix_def Let_def)
  qed
qed (auto simp: line_range_def line_prefix_def Let_def)

lemma ranges_networks:
  assumes a: "length a = 16"
  shows "length (filter (\<lambda>r. r_lo r \<le> a \<and> a \<le> r_hi r) (List.map_filter line_range ls)) =
      length (filter (\<lambda>(p, k). same_prefix k p a) (networks ls))"
    "r \<in> set (List.map_filter line_range ls) \<Longrightarrow> length (r_hi r) = 16 \<and> r_lo r \<le> r_hi r"
    "(\<exists>r \<in> set (List.map_filter line_range ls). r_lo r \<le> a \<and> a \<le> r_hi r) \<longleftrightarrow> (\<exists>(p, k) \<in> set (networks ls). same_prefix k p a)"
proof -
  have step: "List.map_filter f (l # ls) = (case f l of None \<Rightarrow> [] | Some x \<Rightarrow> [x]) @ List.map_filter f ls" for f :: "string \<Rightarrow> 'b option" and l ls
    by (auto simp: List.map_filter_def split: option.split)
  have nil: "List.map_filter f [] = []" for f :: "string \<Rightarrow> 'b option" by (simp add: List.map_filter_def)
  show len: "length (filter (\<lambda>r. r_lo r \<le> a \<and> a \<le> r_hi r) (List.map_filter line_range ls)) =
      length (filter (\<lambda>(p, k). same_prefix k p a) (networks ls))"
  proof (induction ls)
    case (Cons l ls)
    then show ?case using line_range_prefix [OF a, of l]
      by (cases "line_range l"; cases "line_prefix l") (auto simp: networks_def step)
  qed (simp add: networks_def nil)
  show "length (r_hi r) = 16 \<and> r_lo r \<le> r_hi r" if "r \<in> set (List.map_filter line_range ls)" for r
    using that
  proof (induction ls)
    case (Cons l ls)
    then show ?case using line_range_prefix [OF a, of l]
      by (cases "line_range l"; cases "line_prefix l") (auto simp: step)
  qed (simp add: nil)
  show "(\<exists>r \<in> set (List.map_filter line_range ls). r_lo r \<le> a \<and> a \<le> r_hi r) \<longleftrightarrow> (\<exists>(p, k) \<in> set (networks ls). same_prefix k p a)"
    using len by (auto simp: filter_empty_conv simp flip: length_0_conv) (metis (no_types, lifting) filter_empty_conv length_0_conv case_prodI)+
qed

lemma sort_key_nth_mono: "i \<le> j \<Longrightarrow> j < length xs \<Longrightarrow> f (sort_key f xs ! i) \<le> f (sort_key f xs ! j)"
  using sorted_nth_mono [of "map f (sort_key f xs)" i j] by simp

lemma length_filter_sort_key: "length (filter P (sort_key f xs)) = length (filter P xs)"
  by (simp add: filter_sort)

text \<open>
  C13: on a list whose networks do not overlap, the lookup by binary search answers exactly
  whether one of the listed networks holds the address: the address agrees with it in as many
  leading bits as the network has.
\<close>

theorem geo_Contains_networks:
  assumes "scan_lines (take geoIPMaxBytes text) = Some ls" "parseGeoIP text = Some ranges" "geo_ranges g = Some ranges"
    and disj: "\<And>a. length a = 16 \<Longrightarrow> length (filter (\<lambda>(p, k). same_prefix k p a) (networks ls)) \<le> 1"
    and a: "To16 ip = Some a"
  shows "geo_Contains g ip \<longleftrightarrow> (\<exists>(p, k) \<in> set (networks ls). same_prefix k p a)"
proof -
  let ?rs = "List.map_filter line_range ls"
  have rs: "ranges = sort_key r_hi ?rs" using assms(1,2) by (simp add: parseGeoIP_def)
  have len: "length a = 16" using To16_length [OF a] .
  have ok: "r \<in> set ranges \<Longrightarrow> length (r_hi r) = 16 \<and> r_lo r \<le> r_hi r" for r
    using ranges_networks(2) [OF len, of r ls] by (simp add: rs)
  have le1: "length b = 16 \<Longrightarrow> length (filter (\<lambda>q. r_lo q \<le> b \<and> b \<le> r_hi q) ranges) \<le> 1" for b
    using disj [of b] ranges_networks(1) [of b ls] by (simp add: rs length_filter_sort_key)
  have sorted: "i \<le> j \<Longrightarrow> j < length ranges \<Longrightarrow> r_hi (ranges ! i) \<le> r_hi (ranges ! j)" for i j
    by (simp add: rs sort_key_nth_mono)
  have "i < j \<Longrightarrow> j < length ranges \<Longrightarrow> r_hi (ranges ! i) < r_lo (ranges ! j)" for i j
    by (rule disjoint_ranges_ordered [where rs = ranges]) (use sorted ok le1 in simp_all)
  from range_search_hit(1) [of ranges r_hi r_lo, OF sorted this, of a]
  have "geo_Contains g ip \<longleftrightarrow> (\<exists>r \<in> set ranges. r_lo r \<le> a \<and> a \<le> r_hi r)"
    using a assms(3) by (simp add: geo_Contains_def Let_def)
  also have "\<dots> \<longleftrightarrow> (\<exists>(p, k) \<in> set (networks ls). same_prefix k p a)"
    using ranges_networks(3) [OF len, of ls] by (simp add: rs)
  finally show ?thesis .
qed

lemma le_append_same [simp]: "xs @ ys \<le> xs @ zs \<longleftrightarrow> ys \<le> (zs :: bytes)"
  by (induction xs) auto

lemma geo_demo_masks:
  "CIDRMask 8 4 = [255, 0, 0, 0]" "CIDRMask 16 4 = [255, 255, 0, 0]"
  "simpleMaskLength [255, 0, 0, 0] = Some 8" "simpleMaskLength [255, 255, 0, 0] = Some 16" "byte_ones 0 = 0"
  "set_tail_bits 104 (v4InV6Prefix @ [10, 0, 0, 0]) = v4InV6Prefix @ [10, 255, 255, 255]"
  "set_tail_bits 112 (v4InV6Prefix @ [10, 1, 0, 0]) = v4InV6Prefix @ [10, 1, 255, 255]"
  by code_simp+

lemmas parse_eval = ParseCIDR_def ParseAddr_def parseIPv4_def is_digit_def digit_val_def dtoi_def less_eq_char_def
  Let_def ip_Mask_def geo_demo_masks

lemma geo_demo_parse:
  "scan_lines ''10.0.0.0/8'' = Some [''10.0.0.0/8'']"
  "scan_lines (''10.0.0.0/8'' @ [CHR 0x0A] @ ''10.1.0.0/16'') = Some [''10.0.0.0/8'', ''10.1.0.0/16'']"
  "ParseCIDR ''10.0.0.0/8'' = Some (v4InV6Prefix @ [10, 0, 0, 0], \<lparr>net_IP = [10, 0, 0, 0], net_Mask = [255, 0, 0, 0]\<rparr>)"
  "ParseCIDR ''10.1.0.0/16'' = Some (v4InV6Prefix @ [10, 1, 0, 0], \<lparr>net_IP = [10, 1, 0, 0], net_Mask = [255, 255, 0, 0]\<rparr>)"
  by (simp_all add: scan_lines_def drop_cr_def parse_eval)

lemma geo_demo_ranges:
  "cidr_prefix ''10.0.0.0/8'' = Some (v4InV6Prefix @ [10, 0, 0, 0], 104)"
  "line_prefix ''10.0.0.0/8'' = Some (v4InV6Prefix @ [10, 0, 0, 0], 104)"
  "line_range ''10.0.0.0/8'' = Some \<lparr>r_lo = v4InV6Prefix @ [10, 0, 0, 0], r_hi = v4InV6Prefix @ [10, 255, 255, 255]\<rparr>"
  "line_range ''10.1.0.0/16'' = Some \<lparr>r_lo = v4InV6Prefix @ [10, 1, 0, 0], r_hi = v4InV6Prefix @ [10, 1, 255, 255]\<rparr>"
  by (simp_all add: cidr_prefix_def line_prefix_def line_range_def trim_space_def is_space_def geo_demo_parse rangeOf_def
      mask_Size_def To16_def geo_demo_masks Let_def)

theorem geo_Contains_networks_witness:
  "geo_Contains \<lparr>geo_ranges = parseGeoIP ''10.0.0.0/8'', geo_etag = []\<rparr> [10, 1, 2, 3]"
proof -
  have tk: "take geoIPMaxBytes ''10.0.0.0/8'' = ''10.0.0.0/8''" by (simp add: geoIPMaxBytes_def)
  obtain rs where rs: "parseGeoIP ''10.0.0.0/8'' = Some rs" by (simp add: parseGeoIP_def tk geo_demo_parse)
  have sp: "same_prefix 104 (v4InV6Prefix @ [10, 0, 0, 0]) (v4InV6Prefix @ [10, 1, 2, 3])"
    unfolding same_prefix_def by code_simp
  show ?thesis
    using geo_Contains_networks [of "''10.0.0.0/8''" "[''10.0.0.0/8'']" rs "\<lparr>geo_ranges = Some rs, geo_etag = []\<rparr>" "[10, 1, 2, 3]" "v4InV6Prefix @ [10, 1, 2, 3]"] rs sp
    by (simp add: tk geo_demo_parse geo_demo_ranges networks_def List.map_filter_def To16_def)
qed



lemma KeepFresh_wait_bounds:
  assumes "0 < retry" "retry \<le> geoIPRetryMax" "KeepFresh_wait ok g retry = (wait, retry')"
  shows "0 < wait \<and> wait \<le> geoIPRefresh \<and> 0 < retry' \<and> (\<not> ok \<longrightarrow> wait \<le> geoIPRetryMax \<and> retry' \<le> 2 * geoIPRetryMax)"
  using assms by (auto simp: KeepFresh_wait_def Let_def geoIPRefresh_def geoIPRetryMin_def geoIPRetryMax_def
      geoIPRetryEmpty_def split: if_splits)

end
