(* ===== verification/RangeSweep.thy ===== *)
theory RangeSweep
  imports GoNet "HOL-Library.Product_Lexorder"
begin

text \<open>
  \<^verbatim>\<open>flattenRanges\<close> of \<^verbatim>\<open>common/split_tunnel/split_tunnel.go\<close>: a sweep over the ends of address
  ranges that turns overlapping ranges of numbered rules into disjoint ranges, each with the
  rule that wins there. \<^verbatim>\<open>container/heap\<close> over the rule numbers keeps the smallest one in
  front and is a sorted list here. An index out of range is a panic (\<open>None\<close>).
\<close>

record idxRange =
  x_lo :: bytes
  x_hi :: bytes
  x_idx :: nat

record rangeEvent =
  ev_at :: bytes
  ev_idx :: nat
  ev_start :: bool

text \<open>The two loops run from the last byte to the first, so on the reversed array.\<close>

fun inc_rev :: "bytes \<Rightarrow> bytes \<times> bool" where
  "inc_rev [] = ([], False)"
| "inc_rev (b # bs) = (if b + 1 \<noteq> 0 then ((b + 1) # bs, True) else let (r, ok) = inc_rev bs in (0 # r, ok))"

definition incAddr :: "bytes \<Rightarrow> bytes \<times> bool" where
  "incAddr a = (let (r, ok) = inc_rev (rev a) in (rev r, ok))"

fun dec_rev :: "bytes \<Rightarrow> bytes" where
  "dec_rev [] = []"
| "dec_rev (b # bs) = (if b \<noteq> 0 then (b - 1) # bs else 0xff # dec_rev bs)"

definition decAddr :: "bytes \<Rightarrow> bytes" where
  "decAddr a = rev (dec_rev (rev a))"

definition heap_push :: "nat \<Rightarrow> nat list \<Rightarrow> nat list" where
  "heap_push x h = insort x h"

text \<open>The inner loop: all events at one address.\<close>

fun absorb :: "bytes \<Rightarrow> rangeEvent list \<Rightarrow> nat list \<Rightarrow> bool list \<Rightarrow> (rangeEvent list \<times> nat list \<times> bool list) option" where
  "absorb at [] active ended = Some ([], active, ended)"
| "absorb at (e # es) active ended =
     (if ev_at e \<noteq> at then Some (e # es, active, ended)
      else if ev_start e then absorb at es (heap_push (ev_idx e) active) ended
      else if ev_idx e < length ended then absorb at es active (ended[ev_idx e := True])
      else None)"

fun pop_ended :: "nat list \<Rightarrow> bool list \<Rightarrow> nat list option" where
  "pop_ended [] ended = Some []"
| "pop_ended (i # active) ended =
     (if i < length ended then if ended ! i then pop_ended active ended else Some (i # active) else None)"

definition emit :: "bytes \<Rightarrow> bytes \<Rightarrow> nat \<Rightarrow> idxRange list \<Rightarrow> idxRange list" where
  "emit at end best out =
     (if out \<noteq> [] \<and> x_idx (last out) = best \<and> incAddr (x_hi (last out)) = (at, True)
      then butlast out @ [(last out)\<lparr>x_hi := end\<rparr>]
      else out @ [\<lparr>x_lo = at, x_hi = end, x_idx = best\<rparr>])"

lemma absorb_length: "absorb at es active ended = Some (rest, r) \<Longrightarrow> length rest \<le> length es"
  by (induction at es active ended rule: absorb.induct) (auto split: if_splits)

function sweep :: "rangeEvent list \<Rightarrow> nat list \<Rightarrow> bool list \<Rightarrow> idxRange list \<Rightarrow> idxRange list option" where
  "sweep events active ended out =
     (case events of [] \<Rightarrow> Some out
      | e # _ \<Rightarrow>
          (case absorb (ev_at e) events active ended of None \<Rightarrow> None
           | Some (rest, active, ended) \<Rightarrow>
               (case pop_ended active ended of None \<Rightarrow> None
                | Some active \<Rightarrow>
                    (case active of [] \<Rightarrow> sweep rest active ended out
                     | best # _ \<Rightarrow>
                         let end = (case rest of e' # _ \<Rightarrow> decAddr (ev_at e') | [] \<Rightarrow> replicate 16 0xff)
                         in sweep rest active ended (emit (ev_at e) end best out)))))"
  by pat_completeness auto
termination
  by (relation "measure (\<lambda>(events, _, _, _). length events)") (auto dest!: absorb_length split: if_splits)

declare sweep.simps [simp del]

definition range_events :: "idxRange \<Rightarrow> rangeEvent list" where
  "range_events r =
     \<lparr>ev_at = x_lo r, ev_idx = x_idx r, ev_start = True\<rparr> #
     (let (next, ok) = incAddr (x_hi r) in if ok then [\<lparr>ev_at = next, ev_idx = x_idx r, ev_start = False\<rparr>] else [])"

definition flattenRanges :: "idxRange list \<Rightarrow> nat \<Rightarrow> idxRange list option" where
  "flattenRanges raw ruleCount =
     (if raw = [] then Some []
      else sweep (sort_key (\<lambda>e. (ev_at e, \<not> ev_start e)) (concat (map range_events raw)))
             [] (replicate ruleCount False) [])"

section \<open>Successor and predecessor of an address\<close>

lemma bnum_rev_Cons: "bnum (rev (b # bs)) = bnum (rev bs) * 256 + unat b"
  by (simp add: bnum_append)

lemma length_inc_rev: "length (fst (inc_rev bs)) = length bs"
  by (induction bs) (auto simp: case_prod_beta)

lemma inc_rev_bnum: "(snd (inc_rev bs) \<longrightarrow> bnum (rev (fst (inc_rev bs))) = bnum (rev bs) + 1) \<and>
    (\<not> snd (inc_rev bs) \<longrightarrow> bnum (rev bs) = 256 ^ length bs - 1)"
proof (induction bs)
  case (Cons b bs)
  have lt: "unat b < 2 ^ LENGTH(8)" by (rule unsigned_less)
  have e: "unat (b + 1) = (unat b + 1) mod 256" by (simp add: unat_word_ariths)
  show ?case
  proof (cases "b + 1 = 0")
    case True
    then have "(unat b + 1) mod 256 = 0" using e by simp
    then have "unat b = 255" using lt by simp presburger
    moreover have "(256 ^ length bs - 1) * 256 + 255 = 256 * 256 ^ length bs - (1::nat)"
      by (cases "256 ^ length bs :: nat") simp_all
    ultimately show ?thesis using Cons True by (simp add: bnum_append case_prod_beta)
  next
    case False
    then have "(unat b + 1) mod 256 \<noteq> 0" using e by (metis unat_eq_0)
    then have "unat b + 1 \<noteq> 256" by (intro notI) simp
    then have "unat (b + 1) = unat b + 1" using e lt by simp
    then show ?thesis using False by (simp add: bnum_append)
  qed
qed simp

lemma incAddr_bnum:
  "length (fst (incAddr a)) = length a"
  "snd (incAddr a) \<Longrightarrow> bnum (fst (incAddr a)) = bnum a + 1"
  "\<not> snd (incAddr a) \<Longrightarrow> bnum a = 256 ^ length a - 1"
  using inc_rev_bnum [of "rev a"] length_inc_rev [of "rev a"] by (auto simp: incAddr_def case_prod_beta)

lemma length_dec_rev: "length (dec_rev bs) = length bs"
  by (induction bs) auto

lemma dec_rev_bnum: "bnum (rev bs) \<noteq> 0 \<Longrightarrow> bnum (rev (dec_rev bs)) = bnum (rev bs) - 1"
proof (induction bs)
  case (Cons b bs)
  show ?case
  proof (cases "b = 0")
    case True
    then have "bnum (rev bs) \<noteq> 0" using Cons.prems by (simp add: bnum_append)
    then show ?thesis using Cons.IH True by (simp add: bnum_append)
  next
    case False
    then have "unat (b - 1) = unat b - 1" by (rule unat_minus_one)
    moreover have "unat b \<noteq> 0" using False by (simp add: unat_eq_0)
    ultimately show ?thesis using False by (simp add: bnum_append)
  qed
qed simp

lemma decAddr_bnum: "length (decAddr a) = length a" "bnum a \<noteq> 0 \<Longrightarrow> bnum (decAddr a) = bnum a - 1"
  using dec_rev_bnum [of "rev a"] length_dec_rev [of "rev a"] by (simp_all add: decAddr_def)

section \<open>One step of the sweep\<close>

definition starts :: "rangeEvent list \<Rightarrow> nat set" where
  "starts es = ev_idx ` {e \<in> set es. ev_start e}"

definition ends :: "rangeEvent list \<Rightarrow> nat set" where
  "ends es = ev_idx ` {e \<in> set es. \<not> ev_start e}"

lemma starts_simps [simp]: "starts [] = {}" "starts (xs @ ys) = starts xs \<union> starts ys"
  "starts (e # es) = (if ev_start e then insert (ev_idx e) (starts es) else starts es)"
  by (auto simp: starts_def)

lemma ends_simps [simp]: "ends [] = {}" "ends (xs @ ys) = ends xs \<union> ends ys"
  "ends (e # es) = (if ev_start e then ends es else insert (ev_idx e) (ends es))"
  by (auto simp: ends_def)

text \<open>What the two loop variables hold after the events \<open>done\<close>.\<close>

definition tracks :: "nat \<Rightarrow> rangeEvent list \<Rightarrow> nat list \<Rightarrow> bool list \<Rightarrow> bool" where
  "tracks n done active ended \<longleftrightarrow> sorted active \<and> length ended = n \<and>
     (\<forall>i < n. ended ! i \<longleftrightarrow> i \<in> ends done) \<and>
     set active \<subseteq> starts done \<and> starts done - ends done \<subseteq> set active"

lemma absorb_tracks:
  assumes "tracks n done active ended" "\<forall>e \<in> set es. ev_idx e < n"
  shows "\<exists>active' ended'. absorb at es active ended = Some (dropWhile (\<lambda>e. ev_at e = at) es, active', ended') \<and>
    tracks n (done @ takeWhile (\<lambda>e. ev_at e = at) es) active' ended'"
  using assms
proof (induction at es active ended arbitrary: "done" rule: absorb.induct)
  case (2 at e es active ended)
  show ?case
  proof (cases "ev_at e = at")
    case at: True
    show ?thesis
    proof (cases "ev_start e")
      case True
      have "tracks n (done @ [e]) (heap_push (ev_idx e) active) ended"
        using 2(3) True by (auto simp: tracks_def heap_push_def sorted_insort set_insort_key)
      from 2(1) [OF _ True this] at True 2(4) show ?thesis by simp
    next
      case False
      have "tracks n (done @ [e]) active (ended[ev_idx e := True])"
        using 2(3,4) False by (auto simp: tracks_def nth_list_update)
      from 2(2) [OF _ False _ this] at False 2(3,4) show ?thesis by (simp add: tracks_def)
    qed
  next
    case False
    then show ?thesis using 2(3) by simp
  qed
qed simp

lemma pop_ended_tracks:
  assumes "tracks n done active ended" "starts done \<subseteq> {..<n}"
  shows "\<exists>active'. pop_ended active ended = Some active' \<and> tracks n done active' ended \<and>
    (active' = [] \<longrightarrow> starts done - ends done = {}) \<and>
    (active' \<noteq> [] \<longrightarrow> starts done - ends done \<noteq> {} \<and> hd active' = Min (starts done - ends done))"
  using assms(1)
proof (induction active)
  case Nil
  then show ?case by (auto simp: tracks_def)
next
  case (Cons i active)
  have i: "i < n" "length ended = n" using Cons.prems assms(2) by (auto simp: tracks_def)
  show ?case
  proof (cases "ended ! i")
    case True
    have "tracks n done active ended" using Cons.prems True i by (auto simp: tracks_def)
    from Cons.IH [OF this] True i show ?thesis by auto
  next
    case False
    have fin: "finite (starts done - ends done)" using assms(2) by (auto intro: finite_subset)
    have "i \<in> starts done - ends done" using Cons.prems False i by (auto simp: tracks_def)
    moreover have "j \<in> starts done - ends done \<Longrightarrow> i \<le> j" for j using Cons.prems by (auto simp: tracks_def)
    ultimately have "Min (starts done - ends done) = i" "starts done - ends done \<noteq> {}"
      using fin by (auto intro: Min_eqI)
    then show ?thesis using Cons.prems False i by auto
  qed
qed

section \<open>The rules live at an address\<close>

definition raw_ok :: "idxRange list \<Rightarrow> nat \<Rightarrow> bool" where
  "raw_ok raw n \<longleftrightarrow> distinct (map x_idx raw) \<and>
     (\<forall>r \<in> set raw. length (x_lo r) = 16 \<and> length (x_hi r) = 16 \<and> x_lo r \<le> x_hi r \<and> x_idx r < n)"

definition live_at :: "idxRange list \<Rightarrow> nat \<Rightarrow> nat set" where
  "live_at raw x = x_idx ` {r \<in> set raw. bnum (x_lo r) \<le> x \<and> x \<le> bnum (x_hi r)}"

definition all_events :: "idxRange list \<Rightarrow> rangeEvent set" where
  "all_events raw = set (concat (map range_events raw))"

lemma bnum_lt_max: "length a = 16 \<Longrightarrow> bnum a < 2 ^ 128"
  using bnum_less [of a] by simp

lemma all_events_iff: "e \<in> all_events raw \<longleftrightarrow>
    (\<exists>r \<in> set raw. ev_idx e = x_idx r \<and>
      (if ev_start e then ev_at e = x_lo r else incAddr (x_hi r) = (ev_at e, True)))"
proof -
  have "e \<in> set (range_events r) \<longleftrightarrow> ev_idx e = x_idx r \<and>
      (if ev_start e then ev_at e = x_lo r else incAddr (x_hi r) = (ev_at e, True))" for r
    by (cases e) (auto simp: range_events_def split: prod.splits)
  then show ?thesis by (auto simp: all_events_def)
qed

lemma all_events_ok:
  assumes "raw_ok raw n" "e \<in> all_events raw"
  shows "length (ev_at e) = 16" "ev_idx e < n"
proof -
  obtain r where r: "r \<in> set raw" "ev_idx e = x_idx r"
      "if ev_start e then ev_at e = x_lo r else incAddr (x_hi r) = (ev_at e, True)"
    using assms(2) by (auto simp: all_events_iff)
  then show "length (ev_at e) = 16" "ev_idx e < n"
    using assms(1) incAddr_bnum(1) [of "x_hi r"] by (auto simp: raw_ok_def split: if_splits)
qed

lemma starts_done:
  assumes ok: "raw_ok raw n" and E: "set (done @ rest) = all_events raw"
    and d: "\<forall>e \<in> set done. bnum (ev_at e) \<le> a" and r: "\<forall>e \<in> set rest. p \<le> bnum (ev_at e)" and ap: "a < p" and p128: "p \<le> 2 ^ 128"
  shows "starts done = x_idx ` {r \<in> set raw. bnum (x_lo r) \<le> a}"
    and "ends done = x_idx ` {r \<in> set raw. bnum (x_hi r) + 1 \<le> a}"
proof -
  have iff: "e \<in> set done \<longleftrightarrow> e \<in> all_events raw \<and> bnum (ev_at e) \<le> a" for e
    using E d r ap by (metis Un_iff le_less_trans linorder_not_less set_append)
  show "starts done = x_idx ` {r \<in> set raw. bnum (x_lo r) \<le> a}"
  proof (intro equalityI subsetI)
    fix i assume "i \<in> x_idx ` {r \<in> set raw. bnum (x_lo r) \<le> a}"
    then obtain q where q: "q \<in> set raw" "bnum (x_lo q) \<le> a" "i = x_idx q" by auto
    then have "\<lparr>ev_at = x_lo q, ev_idx = x_idx q, ev_start = True\<rparr> \<in> set done"
      unfolding iff by (auto simp: all_events_iff)
    then show "i \<in> starts done" using q(3) by (force simp: starts_def)
  qed (auto simp: starts_def iff all_events_iff)
  show "ends done = x_idx ` {r \<in> set raw. bnum (x_hi r) + 1 \<le> a}"
  proof (intro equalityI subsetI)
    fix i assume "i \<in> x_idx ` {r \<in> set raw. bnum (x_hi r) + 1 \<le> a}"
    then obtain q where q: "q \<in> set raw" "bnum (x_hi q) + 1 \<le> a" "i = x_idx q" by auto
    have len: "length (x_hi q) = 16" using ok q(1) by (simp add: raw_ok_def)
    show "i \<in> ends done"
    proof (cases "snd (incAddr (x_hi q))")
      case True
      then have "\<lparr>ev_at = fst (incAddr (x_hi q)), ev_idx = x_idx q, ev_start = False\<rparr> \<in> set done"
        unfolding iff using q incAddr_bnum(2) [OF True] by (auto simp: all_events_iff prod_eq_iff)
      then show ?thesis using q(3) by (force simp: ends_def)
    next
      case False
      then have "bnum (x_hi q) = 2 ^ 128 - 1" using incAddr_bnum(3) [OF False] len by simp
      then show ?thesis using q(2) ap p128 by simp
    qed
  next
    fix i assume "i \<in> ends done"
    then obtain e where e: "e \<in> set done" "\<not> ev_start e" "i = ev_idx e" by (auto simp: ends_def)
    then obtain q where "q \<in> set raw" "i = x_idx q" "incAddr (x_hi q) = (ev_at e, True)" "bnum (ev_at e) \<le> a"
      by (auto simp: iff all_events_iff)
    then show "i \<in> x_idx ` {r \<in> set raw. bnum (x_hi r) + 1 \<le> a}" using incAddr_bnum(2) [of "x_hi q"] by auto
  qed
qed

lemma live_between:
  assumes ok: "raw_ok raw n" and E: "set (done @ rest) = all_events raw"
    and d: "\<forall>e \<in> set done. bnum (ev_at e) \<le> a" and r: "\<forall>e \<in> set rest. p \<le> bnum (ev_at e)"
    and ap: "a < p" "p \<le> 2 ^ 128" and x: "a \<le> x" "x < p"
  shows "live_at raw x = starts done - ends done"
proof -
  note sd = starts_done [OF ok E d r ap]
  have uniq: "x_idx q = x_idx q' \<Longrightarrow> q \<in> set raw \<Longrightarrow> q' \<in> set raw \<Longrightarrow> q = q'" for q q'
    using ok by (auto simp: raw_ok_def distinct_map inj_on_def)
  have lo: "bnum (x_lo q) \<le> x \<longleftrightarrow> bnum (x_lo q) \<le> a" if q: "q \<in> set raw" for q
  proof
    assume le: "bnum (x_lo q) \<le> x"
    have "\<lparr>ev_at = x_lo q, ev_idx = x_idx q, ev_start = True\<rparr> \<in> set done \<union> set rest"
      using E q by (auto simp: all_events_iff)
    then show "bnum (x_lo q) \<le> a" using d r le x by force
  qed (use x in simp)
  have hi: "x \<le> bnum (x_hi q) \<longleftrightarrow> \<not> bnum (x_hi q) + 1 \<le> a" if q: "q \<in> set raw" for q
  proof
    assume ge: "\<not> bnum (x_hi q) + 1 \<le> a"
    show "x \<le> bnum (x_hi q)"
    proof (cases "snd (incAddr (x_hi q))")
      case True
      then have "\<lparr>ev_at = fst (incAddr (x_hi q)), ev_idx = x_idx q, ev_start = False\<rparr> \<in> set done \<union> set rest"
        using E q by (auto simp: all_events_iff prod_eq_iff)
      then show ?thesis using d r ge x incAddr_bnum(2) [OF True] by force
    next
      case False
      then have "bnum (x_hi q) = 2 ^ 128 - 1" using incAddr_bnum(3) [OF False] ok q by (simp add: raw_ok_def)
      then show ?thesis using x ap by simp
    qed
  qed (use x in simp)
  show ?thesis unfolding sd live_at_def using lo hi uniq by blast
qed

section \<open>The ranges written so far\<close>

definition covers :: "idxRange \<Rightarrow> nat \<Rightarrow> bool" where
  "covers r x \<longleftrightarrow> bnum (x_lo r) \<le> x \<and> x \<le> bnum (x_hi r)"

definition out_ok :: "idxRange list \<Rightarrow> nat \<Rightarrow> idxRange list \<Rightarrow> bool" where
  "out_ok raw p out \<longleftrightarrow> sorted_wrt (\<lambda>r s. bnum (x_hi r) < bnum (x_lo s)) out \<and>
     (\<forall>r \<in> set out. length (x_lo r) = 16 \<and> length (x_hi r) = 16 \<and> bnum (x_lo r) \<le> bnum (x_hi r) \<and> bnum (x_hi r) < p) \<and>
     (\<forall>x < p. \<forall>i. (\<exists>r \<in> set out. covers r x \<and> x_idx r = i) \<longleftrightarrow> live_at raw x \<noteq> {} \<and> i = Min (live_at raw x))"

lemma out_ok_skip:
  assumes "out_ok raw p out" "p \<le> p'" "\<And>x. p \<le> x \<Longrightarrow> x < p' \<Longrightarrow> live_at raw x = {}"
  shows "out_ok raw p' out"
  unfolding out_ok_def
proof (intro conjI allI impI)
  fix x i assume x: "x < p'"
  show "(\<exists>r \<in> set out. covers r x \<and> x_idx r = i) = (live_at raw x \<noteq> {} \<and> i = Min (live_at raw x))"
  proof (cases "x < p")
    case True
    then show ?thesis using assms(1) by (simp add: out_ok_def)
  next
    case False
    then have "\<not> covers r x" if "r \<in> set out" for r using assms(1) that by (auto simp: out_ok_def covers_def)
    then show ?thesis using assms(3) [of x] False x by auto
  qed
qed (use assms(1,2) in \<open>auto simp: out_ok_def\<close>)

lemma out_ok_emit:
  assumes o: "out_ok raw (bnum at) out" and len: "length at = 16" "length e = 16"
    and e: "bnum at \<le> bnum e" "p = bnum e + 1"
    and live: "\<And>x. bnum at \<le> x \<Longrightarrow> x < p \<Longrightarrow> live_at raw x \<noteq> {} \<and> Min (live_at raw x) = best"
  shows "out_ok raw p (emit at e best out)"
proof -
  have below: "r \<in> set out \<Longrightarrow> bnum (x_hi r) < bnum at" for r using o by (simp add: out_ok_def)
  have cov: "(\<exists>r \<in> set (emit at e best out). covers r x \<and> x_idx r = i) \<longleftrightarrow>
      (\<exists>r \<in> set out. covers r x \<and> x_idx r = i) \<or> (bnum at \<le> x \<and> x \<le> bnum e \<and> i = best)" for x i
  proof (cases "out \<noteq> [] \<and> x_idx (last out) = best \<and> incAddr (x_hi (last out)) = (at, True)")
    case True
    have adj: "bnum (x_hi (last out)) + 1 = bnum at" using True incAddr_bnum(2) [of "x_hi (last out)"] by auto
    have "bnum (x_lo (last out)) \<le> bnum (x_hi (last out))" using o True by (auto simp: out_ok_def)
    then have "covers ((last out)\<lparr>x_hi := e\<rparr>) x \<longleftrightarrow> covers (last out) x \<or> (bnum at \<le> x \<and> x \<le> bnum e)"
      using adj e by (auto simp: covers_def)
    moreover have "set out = insert (last out) (set (butlast out))" using True
      by (metis append_butlast_last_id list.set(1) list.simps(15) set_append sup_bot.right_neutral Un_insert_right)
    moreover have "emit at e best out = butlast out @ [(last out)\<lparr>x_hi := e\<rparr>]" using True by (simp add: emit_def)
    ultimately show ?thesis using True by auto
  next
    case False
    then have "emit at e best out = out @ [\<lparr>x_lo = at, x_hi = e, x_idx = best\<rparr>]" by (simp only: emit_def if_False)
    then show ?thesis by (auto simp: covers_def)
  qed
  have srt: "sorted_wrt (\<lambda>r s. bnum (x_hi r) < bnum (x_lo s)) (emit at e best out)"
  proof (cases out rule: rev_cases)
    case (snoc ys z)
    then show ?thesis using o below by (auto simp: emit_def sorted_wrt_append out_ok_def)
  qed (simp add: emit_def)
  show ?thesis unfolding out_ok_def
  proof (intro conjI srt allI impI)
    show "\<forall>r \<in> set (emit at e best out). length (x_lo r) = 16 \<and> length (x_hi r) = 16 \<and>
        bnum (x_lo r) \<le> bnum (x_hi r) \<and> bnum (x_hi r) < p"
    proof -
      have "\<forall>r \<in> set out. length (x_lo r) = 16 \<and> length (x_hi r) = 16 \<and>
          bnum (x_lo r) \<le> bnum (x_hi r) \<and> bnum (x_hi r) < bnum at \<and> bnum (x_hi r) < p" using o e by (auto simp: out_ok_def)
      moreover from this have "out \<noteq> [] \<Longrightarrow> length (x_lo (last out)) = 16 \<and> bnum (x_lo (last out)) < bnum at"
        using last_in_set by fastforce
      ultimately show ?thesis using len e
        by (auto simp: emit_def dest: in_set_butlastD)
    qed
    fix x i assume x: "x < p"
    show "(\<exists>r \<in> set (emit at e best out). covers r x \<and> x_idx r = i) = (live_at raw x \<noteq> {} \<and> i = Min (live_at raw x))"
    proof (cases "x < bnum at")
      case True
      then show ?thesis unfolding cov using o by (auto simp: out_ok_def)
    next
      case False
      then have "\<not> covers r x" if "r \<in> set out" for r using below that by (fastforce simp: covers_def)
      then show ?thesis unfolding cov using live [of x] False x e by auto
    qed
  qed
qed

section \<open>Correctness of the sweep\<close>

lemma bnum_replicate_ff: "bnum (replicate n 0xff) = 256 ^ n - 1"
proof (induction n)
  case (Suc n)
  have "0 < (256::nat) ^ n" by simp
  then show ?case using Suc by simp
qed simp

definition evpos :: "rangeEvent list \<Rightarrow> nat" where
  "evpos es = (case es of [] \<Rightarrow> 2 ^ 128 | e # _ \<Rightarrow> bnum (ev_at e))"

lemma sweep_end:
  assumes "\<forall>x \<in> set es. length (ev_at x) = 16" "0 < evpos es"
  shows "length (case es of e' # _ \<Rightarrow> decAddr (ev_at e') | [] \<Rightarrow> replicate 16 0xff) = 16"
    "bnum (case es of e' # _ \<Rightarrow> decAddr (ev_at e') | [] \<Rightarrow> replicate 16 0xff) + 1 = evpos es"
  using assms decAddr_bnum by (cases es; simp add: evpos_def bnum_replicate_ff)+

lemma sweep_correct:
  assumes ok: "raw_ok raw n"
  shows "set (done @ events) = all_events raw \<Longrightarrow> sorted (map (\<lambda>e. bnum (ev_at e)) events) \<Longrightarrow>
    \<forall>d \<in> set done. bnum (ev_at d) < evpos events \<Longrightarrow> tracks n done active ended \<Longrightarrow> out_ok raw (evpos events) out \<Longrightarrow>
    \<exists>out'. sweep events active ended out = Some out' \<and> out_ok raw (2 ^ 128) out'"
proof (induction events arbitrary: "done" active ended out rule: measure_induct_rule [of length])
  case (less events)
  have ev: "e \<in> set done \<union> set events \<Longrightarrow> length (ev_at e) = 16 \<and> ev_idx e < n" for e
    using all_events_ok [OF ok] less.prems(1) by auto
  show ?case
  proof (cases events)
    case Nil
    then show ?thesis using less.prems(5) by (simp add: sweep.simps evpos_def)
  next
    case (Cons e es)
    let ?at = "ev_at e" and ?same = "\<lambda>x. ev_at x = ev_at e"
    let ?done = "done @ takeWhile ?same events" and ?rest = "dropWhile ?same events"
    have len: "length ?at = 16" using ev Cons by auto
    obtain a1 en1 where ab: "absorb ?at events active ended = Some (?rest, a1, en1)" "tracks n ?done a1 en1"
      using absorb_tracks [OF less.prems(4), of events ?at] ev by auto
    have dd: "\<forall>x \<in> set ?done. bnum (ev_at x) \<le> bnum ?at"
      using less.prems(3) Cons by (auto simp: evpos_def dest: set_takeWhileD)
    have split: "set (?done @ ?rest) = all_events raw" using less.prems(1) by simp
    have srt: "sorted (map (\<lambda>e. bnum (ev_at e)) ?rest)"
      using less.prems(2) by (simp add: dropWhile_eq_drop sorted_wrt_drop flip: drop_map)
    have pos: "bnum ?at < evpos ?rest \<and> evpos ?rest \<le> 2 ^ 128"
    proof (cases ?rest)
      case (Cons e' es')
      have e': "e' \<in> set events" "ev_at e' \<noteq> ?at"
        using set_dropWhileD [of e' ?same events] hd_dropWhile [of ?same events] Cons by simp_all
      have l: "length (ev_at e') = 16" using ev e'(1) by auto
      have "bnum ?at \<le> bnum (ev_at e')" using less.prems(2) e'(1) \<open>events = e # es\<close> by auto
      moreover have "bnum ?at \<noteq> bnum (ev_at e')" using e'(2) bnum_inj [of ?at "ev_at e'"] len l by auto
      ultimately show ?thesis using Cons bnum_lt_max [OF l] by (simp add: evpos_def)
    next
      case Nil
      then show ?thesis unfolding Nil evpos_def using bnum_lt_max [OF len] by simp
    qed
    have rr: "\<forall>x \<in> set ?rest. evpos ?rest \<le> bnum (ev_at x)"
    proof -
      have "sorted (map (\<lambda>e. bnum (ev_at e)) xs) \<Longrightarrow> \<forall>x \<in> set xs. evpos xs \<le> bnum (ev_at x)" for xs
        by (cases xs) (auto simp: evpos_def)
      then show ?thesis using srt by blast
    qed
    have d': "\<forall>x \<in> set ?done. bnum (ev_at x) < evpos ?rest" using dd pos by (meson le_less_trans)
    have live: "live_at raw x = starts ?done - ends ?done" if "bnum ?at \<le> x" "x < evpos ?rest" for x
      using live_between [OF ok split dd rr] pos that by simp
    have st: "starts ?done \<subseteq> {..<n}" using ev by (auto simp: starts_def dest: set_takeWhileD)
    obtain a2 where po: "pop_ended a1 en1 = Some a2" "tracks n ?done a2 en1"
        "a2 = [] \<longrightarrow> starts ?done - ends ?done = {}"
        "a2 \<noteq> [] \<longrightarrow> starts ?done - ends ?done \<noteq> {} \<and> hd a2 = Min (starts ?done - ends ?done)"
      using pop_ended_tracks [OF ab(2) st] by blast
    have shorter: "length ?rest < length events" using Cons by (simp add: le_imp_less_Suc length_dropWhile_le)
    have o: "out_ok raw (bnum ?at) out" using less.prems(5) Cons by (simp add: evpos_def)
    show ?thesis
    proof (cases a2)
      case Nil
      then have "out_ok raw (evpos ?rest) out" using o live pos po(3) by (intro out_ok_skip [OF o]) auto
      from less.IH [OF shorter split srt d' po(2) this] Nil ab(1) po(1) \<open>events = e # es\<close> show ?thesis
        by (subst sweep.simps) simp
    next
      case (Cons best a3)
      define end' where "end' = (case ?rest of e' # _ \<Rightarrow> decAddr (ev_at e') | [] \<Rightarrow> replicate 16 0xff)"
      have e: "length end' = 16" "bnum end' + 1 = evpos ?rest"
        using sweep_end [of ?rest] ev pos unfolding end'_def by (auto dest: set_dropWhileD)
      have "out_ok raw (evpos ?rest) (emit ?at end' best out)"
        using live po(4) Cons pos e by (intro out_ok_emit [OF o len e(1)]) auto
      from less.IH [OF shorter split srt d' po(2) this] Cons ab(1) po(1) \<open>events = e # es\<close> show ?thesis
        by (subst sweep.simps) (simp add: Let_def end'_def)
    qed
  qed
qed

lemma flattenRanges_correct:
  assumes ok: "raw_ok raw n"
  shows "\<exists>out. flattenRanges raw n = Some out \<and> out_ok raw (2 ^ 128) out"
proof (cases "raw = []")
  case True
  then show ?thesis by (simp add: flattenRanges_def out_ok_def live_at_def)
next
  case False
  let ?E = "sort_key (\<lambda>e. (ev_at e, \<not> ev_start e)) (concat (map range_events raw))"
  have E: "set ([] @ ?E) = all_events raw" by (simp add: all_events_def)
  have len: "e \<in> set ?E \<Longrightarrow> length (ev_at e) = 16" for e using all_events_ok(1) [OF ok] E by auto
  have "sorted (map (\<lambda>e. (ev_at e, \<not> ev_start e)) ?E)" by simp
  then have srt: "sorted (map (\<lambda>e. bnum (ev_at e)) ?E)"
    unfolding sorted_map
  proof (rule sorted_wrt_mono_rel [rotated])
    fix x y assume xy: "x \<in> set ?E" "y \<in> set ?E" "(ev_at x, \<not> ev_start x) \<le> (ev_at y, \<not> ev_start y)"
    then have "ev_at x \<le> ev_at y" by (auto simp: less_eq_prod_def)
    then show "bnum (ev_at x) \<le> bnum (ev_at y)" using len [OF xy(1)] len [OF xy(2)] by (simp add: bnum_le_iff)
  qed
  have tr: "tracks n [] [] (replicate n False)" by (simp add: tracks_def)
  have "live_at raw x = {}" if "x < evpos ?E" for x
  proof -
    have "evpos ?E \<le> bnum (x_lo r)" if "r \<in> set raw" for r
    proof -
      have "\<lparr>ev_at = x_lo r, ev_idx = x_idx r, ev_start = True\<rparr> \<in> set ?E"
        using E that by (auto simp: all_events_iff)
      then show ?thesis using srt by (cases ?E) (auto simp: evpos_def)
    qed
    then show ?thesis using that by (fastforce simp: live_at_def)
  qed
  then have "out_ok raw (evpos ?E) []" by (simp add: out_ok_def)
  from sweep_correct [OF ok E srt _ tr this] False show ?thesis by (simp add: flattenRanges_def)
qed

end
