(* ===== verification/Sharded.thy ===== *)
theory Sharded
  imports Prelude
begin

text \<open>
  Maps spread over shards by a hash of the key, as the verdict cache of the split tunnel and the
  set of seen tokens have them. The locale \<open>sharded\<close> is the contract of the function that picks
  the shard; it gives lookup after an update, and the invariant that a key sits in its own shard.
\<close>

unbundle bit_operations_syntax

text \<open>The 32-bit FNV-1a hash (\<^verbatim>\<open>hash/fnv\<close>, and the loop of \<^verbatim>\<open>shardFor\<close>).\<close>

definition fnv1a_byte :: "char \<Rightarrow> 32 word \<Rightarrow> 32 word" where
  "fnv1a_byte c h = (h XOR of_char c) * 16777619"

definition fnv1a :: "string \<Rightarrow> 32 word" where
  "fnv1a s = fold fnv1a_byte s 2166136261"

lemma unat_mod_word: "unat (m :: 32 word) \<noteq> 0 \<Longrightarrow> unat (w mod m) < unat m"
  by (simp add: unat_mod)

type_synonym ('k, 'v) shards = "('k, 'v) gomap list"

definition sh_get :: "('k \<Rightarrow> nat) \<Rightarrow> ('k, 'v) shards \<Rightarrow> 'k \<Rightarrow> 'v option" where
  "sh_get idx c k = gm_get (c ! idx k) k"

definition sh_update :: "nat \<Rightarrow> (('k, 'v) gomap \<Rightarrow> ('k, 'v) gomap) \<Rightarrow> ('k, 'v) shards \<Rightarrow> ('k, 'v) shards" where
  "sh_update i f c = c[i := f (c ! i)]"

definition sh_ok :: "nat \<Rightarrow> ('k \<Rightarrow> nat) \<Rightarrow> ('k, 'v) shards \<Rightarrow> bool" where
  "sh_ok n idx c \<longleftrightarrow> length c = n \<and> (\<forall>m \<in> set c. gm_ok m) \<and> (\<forall>i < n. \<forall>k \<in> fst ` set (c ! i). idx k = i)"

definition sh_count :: "('k, 'v) shards \<Rightarrow> nat" where
  "sh_count c = sum_list (map length c)"

lemma sh_okD:
  assumes "sh_ok n idx c"
  shows "length c = n" "m \<in> set c \<Longrightarrow> gm_ok m" "i < n \<Longrightarrow> k \<in> fst ` set (c ! i) \<Longrightarrow> idx k = i"
  using assms unfolding sh_ok_def by blast+

lemma sum_list_le_bound: "(\<And>x. x \<in> set xs \<Longrightarrow> f x \<le> b) \<Longrightarrow> sum_list (map f xs) \<le> length xs * (b::nat)"
  by (induction xs) (auto simp: add_mono)

lemma sh_update_all:
  assumes "\<forall>m \<in> set c. P m" "P (f (c ! i))"
  shows "\<forall>m \<in> set (sh_update i f c). P m"
  unfolding sh_update_def using assms by (auto dest: set_update_subset_insert [THEN subsetD])

locale sharded =
  fixes n :: nat and idx :: "'k \<Rightarrow> nat"
  assumes idx_less: "idx k < n"
begin

lemma get_update:
  assumes "length c = n"
  shows "sh_get idx (sh_update (idx k) f c) k' = (if idx k' = idx k then gm_get (f (c ! idx k)) k' else sh_get idx c k')"
  using assms idx_less by (simp add: sh_get_def sh_update_def)

lemma ok_empty: "sh_ok n idx (replicate n [])"
  by (auto simp: sh_ok_def)

lemma ok_update:
  assumes "sh_ok n idx c" "gm_ok (f (c ! idx k))" "fst ` set (f (c ! idx k)) \<subseteq> insert k (fst ` set (c ! idx k))"
  shows "sh_ok n idx (sh_update (idx k) f c)"
  unfolding sh_ok_def
proof (intro conjI ballI allI impI)
  note ok = sh_okD [OF assms(1)]
  show "length (sh_update (idx k) f c) = n" using ok(1) by (simp add: sh_update_def)
  show "gm_ok m" if "m \<in> set (sh_update (idx k) f c)" for m
    using that assms(2) ok(2) set_update_subset_insert [of c "idx k" "f (c ! idx k)"] unfolding sh_update_def by blast
  show "idx k' = i" if "i < n" "k' \<in> fst ` set (sh_update (idx k) f c ! i)" for i k'
  proof (cases "i = idx k")
    case True
    then have "k' \<in> fst ` set (f (c ! idx k))" using that ok(1) by (simp add: sh_update_def)
    then consider "k' = k" | "k' \<in> fst ` set (c ! idx k)" using assms(3) by blast
    then show ?thesis
    proof cases
      case 2
      then show ?thesis using ok(3) [OF that(1)] by (simp only: True)
    qed (simp only: True)
  next
    case False
    then have "sh_update (idx k) f c ! i = c ! i" by (simp add: sh_update_def)
    then show ?thesis using ok(3) [OF that(1)] that(2) by (simp only:)
  qed
qed

lemma ok_map:
  assumes "sh_ok n idx c" "\<And>m. gm_ok m \<Longrightarrow> gm_ok (f m)" "\<And>m. set (f m) \<subseteq> set m"
  shows "sh_ok n idx (map f c)"
  unfolding sh_ok_def
proof (intro conjI ballI allI impI)
  note ok = sh_okD [OF assms(1)]
  show "length (map f c) = n" using ok(1) by simp
  show "gm_ok m" if "m \<in> set (map f c)" for m using that assms(2) ok(2) by auto
  show "idx k = i" if "i < n" "k \<in> fst ` set (map f c ! i)" for i k
  proof (rule ok(3) [OF that(1)])
    show "k \<in> fst ` set (c ! i)" using that ok(1) assms(3) [of "c ! i"] by (simp add: image_iff) blast
  qed
qed

lemma get_map: "length c = n \<Longrightarrow> sh_get idx (map f c) k = gm_get (f (c ! idx k)) k"
  using idx_less by (simp add: sh_get_def)

lemma ok_shard: "sh_ok n idx c \<Longrightarrow> gm_ok (c ! idx k)"
  using sh_okD(1,2) [of n idx c] idx_less [of k] by (metis nth_mem)

lemma get_in:
  assumes ok: "sh_ok n idx c"
  shows "(\<exists>m \<in> set c. (k, v) \<in> set m) \<longleftrightarrow> sh_get idx c k = Some v"
proof
  assume "\<exists>m \<in> set c. (k, v) \<in> set m"
  then obtain i where i: "i < n" "(k, v) \<in> set (c ! i)"
    using sh_okD(1) [OF ok] by (metis in_set_conv_nth)
  then have "idx k = i" using sh_okD(3) [OF ok i(1)] by force
  then show "sh_get idx c k = Some v" using i(2) gm_get_in [OF ok_shard [OF ok, of k], of k v] by (simp add: sh_get_def)
next
  assume "sh_get idx c k = Some v"
  then have "(k, v) \<in> set (c ! idx k)" using gm_get_in [OF ok_shard [OF ok, of k], of k v] by (simp add: sh_get_def)
  then show "\<exists>m \<in> set c. (k, v) \<in> set m"
    using idx_less [of k] sh_okD(1) [OF ok] by (intro bexI [of _ "c ! idx k"]) simp_all
qed

end

end
