(* ===== verification/SplitTunnel.thy ===== *)
theory SplitTunnel
  imports GeoIP RangeSweep Sharded Threads
begin

text \<open>
  \<^verbatim>\<open>common/split_tunnel/split_tunnel.go\<close>: which connections go around the tunnel. The rules are
  kept sorted by priority without duplicates and compiled into a snapshot: hash maps for domain
  rules, a list of keywords and the disjoint ranges of \<open>RangeSweep\<close>. Hosts without a rule are
  decided by the country list, through a cache of verdicts that is filled in the background. The
  country lists are objects shared with their refresher: the model holds references to them, and
  the operations that read them get their present contents.
\<close>

section \<open>Verdict cache\<close>

record verdict =
  v_bypass :: bool
  v_expires :: int

definition verdictShards :: nat where "verdictShards = 64"
definition verdictTTL :: int where "verdictTTL = 60 * 1000000000"
definition verdictMax :: nat where "verdictMax = 4096"
definition appRulePriority :: int where "appRulePriority = 200"

type_synonym verdictCache = "(string, verdict) shards"

definition newVerdictCache :: verdictCache where
  "newVerdictCache = replicate verdictShards []"

definition shardFor :: "string \<Rightarrow> nat" where
  "shardFor host = unat (fnv1a host mod 64)"

definition vc_get :: "verdictCache \<Rightarrow> string \<Rightarrow> verdict option" where
  "vc_get c host = sh_get shardFor c host"

definition vc_room :: "int \<Rightarrow> (string, verdict) gomap \<Rightarrow> (string, verdict) gomap" where
  "vc_room now m =
     (if length m \<ge> verdictMax div verdictShards
      then let m = filter (\<lambda>(h, old). \<not> now > v_expires old) m
           in if length m \<ge> verdictMax div verdictShards then [] else m
      else m)"

definition vc_put :: "int \<Rightarrow> string \<Rightarrow> verdict \<Rightarrow> verdictCache \<Rightarrow> verdictCache" where
  "vc_put now host v c = sh_update (shardFor host) (\<lambda>m. gm_put host v (vc_room now m)) c"

definition vc_len :: "verdictCache \<Rightarrow> nat" where
  "vc_len c = sh_count c"

definition vc_reset :: "verdictCache \<Rightarrow> verdictCache" where
  "vc_reset c = map (\<lambda>_. []) c"

section \<open>Rules and snapshots\<close>

record SplitTunnelRule =
  ru_type :: string
  ru_value :: string
  ru_action :: string
  ru_description :: string
  ru_enabled :: bool
  ru_priority :: int
  ru_created :: int
  ru_modified :: int

record SplitTunnelConfig =
  cf_mode :: string
  cf_rules :: "SplitTunnelRule list"
  cf_default_action :: string
  cf_enabled :: bool
  cf_version :: string

text \<open>The resolvers are functions given by the caller: the addresses of a host, if known.\<close>

type_synonym resolveFunc = "string \<Rightarrow> IP list option"

record kwRule =
  kw_value :: string
  kw_idx :: nat

record ruleSnapshot =
  s_enabled :: bool
  s_byCountry :: bool
  s_geo :: "nat option"
  s_resolve :: "resolveFunc option"
  s_cached :: "resolveFunc option"
  s_suffix :: "(string, nat) gomap"
  s_exact :: "(string, nat) gomap"
  s_keyword :: "kwRule list"
  s_ranges :: "idxRange list"
  s_direct :: "bool list"

record SplitTunnelManager =
  m_config :: SplitTunnelConfig
  m_rules :: "SplitTunnelRule list"
  m_snap :: "ruleSnapshot option"
  m_geo :: "nat option"
  m_resolve :: "resolveFunc option"
  m_byCountry :: bool
  m_cached :: "resolveFunc option"
  m_verdicts :: verdictCache
  m_pending :: "(string, bool) gomap option"

definition NewSplitTunnelManager :: SplitTunnelManager where
  "NewSplitTunnelManager =
     \<lparr>m_config = \<lparr>cf_mode = ''exclude'', cf_rules = [], cf_default_action = ''tunnel'', cf_enabled = False,
        cf_version = ''1.0''\<rparr>,
      m_rules = [], m_snap = None, m_geo = None, m_resolve = None, m_byCountry = True, m_cached = None,
      m_verdicts = newVerdictCache, m_pending = None\<rparr>"

type_synonym ruleKey = "string \<times> string"

definition keyOf :: "SplitTunnelRule \<Rightarrow> ruleKey" where
  "keyOf r = (let value = to_lower (ru_value r)
     in (ru_type r, if ru_type r = ''domain'' then trim_prefix value ''*.'' else value))"

text \<open>The loop of \<^verbatim>\<open>recompileLocked\<close>: the first rule of each key stays.\<close>

fun unique_rules :: "ruleKey set \<Rightarrow> SplitTunnelRule list \<Rightarrow> SplitTunnelRule list" where
  "unique_rules seen [] = []"
| "unique_rules seen (r # rs) =
     (if keyOf r \<in> seen then unique_rules seen rs else r # unique_rules (insert (keyOf r) seen) rs)"

text \<open>\<^verbatim>\<open>sort.SliceStable\<close> by descending priority.\<close>

definition sortRulesByPriority :: "SplitTunnelRule list \<Rightarrow> SplitTunnelRule list" where
  "sortRulesByPriority rules = sort_key (\<lambda>r. - ru_priority r) rules"

text \<open>Adding one rule to the maps, keywords and ranges of a snapshot under construction.\<close>

definition first_put :: "string \<Rightarrow> nat \<Rightarrow> (string, nat) gomap \<Rightarrow> (string, nat) gomap" where
  "first_put v i m = (if gm_get m v = None then gm_put v i m else m)"

definition ip_ranges :: "string \<Rightarrow> nat \<Rightarrow> idxRange list" where
  "ip_ranges value i =
     (case ParseCIDR value of
        Some (_, network) \<Rightarrow>
          (case rangeOf network of Some rg \<Rightarrow> [\<lparr>x_lo = r_lo rg, x_hi = r_hi rg, x_idx = i\<rparr>] | None \<Rightarrow> [])
      | None \<Rightarrow>
          (case ParseIP value of
             Some ip \<Rightarrow> let a = (case To16 ip of Some a \<Rightarrow> a | None \<Rightarrow> replicate 16 0) in [\<lparr>x_lo = a, x_hi = a, x_idx = i\<rparr>]
           | None \<Rightarrow> []))"

definition publish_rule :: "nat \<times> SplitTunnelRule \<Rightarrow> ruleSnapshot \<times> idxRange list \<Rightarrow> ruleSnapshot \<times> idxRange list" where
  "publish_rule = (\<lambda>(i, r) (snap, raw).
     if \<not> ru_enabled r then (snap, raw)
     else if ru_type r = ''domain''
       then (snap\<lparr>s_suffix := first_put (to_lower (trim_prefix (ru_value r) ''*.'')) i (s_suffix snap)\<rparr>, raw)
     else if ru_type r = ''domain-exact''
       then (snap\<lparr>s_exact := first_put (to_lower (ru_value r)) i (s_exact snap)\<rparr>, raw)
     else if ru_type r = ''domain-keyword''
       then (snap\<lparr>s_keyword := s_keyword snap @ [\<lparr>kw_value = to_lower (ru_value r), kw_idx = i\<rparr>]\<rparr>, raw)
     else if ru_type r = ''ip'' then (snap, raw @ ip_ranges (ru_value r) i)
     else (snap, raw))"

definition snapshot_of :: "SplitTunnelManager \<Rightarrow> ruleSnapshot option" where
  "snapshot_of m =
     (let snap = \<lparr>s_enabled = cf_enabled (m_config m), s_byCountry = m_byCountry m, s_geo = m_geo m,
            s_resolve = m_resolve m, s_cached = m_cached m, s_suffix = [], s_exact = [], s_keyword = [],
            s_ranges = [], s_direct = map (\<lambda>r. ru_action r = ''direct'') (m_rules m)\<rparr>;
          (snap, raw) = fold publish_rule (enumerate 0 (m_rules m)) (snap, [])
      in map_option (\<lambda>rs. snap\<lparr>s_ranges := rs\<rparr>) (flattenRanges raw (length (m_rules m))))"

text \<open>A panic while building the snapshot leaves the old one (\<open>None\<close>: the operation panics).\<close>

definition publishLocked :: "SplitTunnelManager \<Rightarrow> SplitTunnelManager option" where
  "publishLocked m = map_option (\<lambda>s. m\<lparr>m_snap := Some s\<rparr>) (snapshot_of m)"

definition recompileLocked :: "SplitTunnelManager \<Rightarrow> SplitTunnelManager option" where
  "recompileLocked m = publishLocked (m\<lparr>m_rules := unique_rules {} (m_rules m)\<rparr>)"

definition add_rules :: "SplitTunnelRule list \<Rightarrow> SplitTunnelManager \<Rightarrow> SplitTunnelManager option" where
  "add_rules rs m = recompileLocked (m\<lparr>m_rules := sortRulesByPriority (m_rules m @ rs)\<rparr>)"

definition AddRule :: "int \<Rightarrow> SplitTunnelRule \<Rightarrow> SplitTunnelManager \<Rightarrow> SplitTunnelManager option" where
  "AddRule unix rule m = add_rules [rule\<lparr>ru_created := unix, ru_modified := unix\<rparr>] m"

text \<open>
  \<^verbatim>\<open>LoadConfig\<close> with what reading and decoding the file gave: \<open>None\<close> is a file name that is empty,
  \<open>Some None\<close> an error.
\<close>

definition LoadConfig :: "SplitTunnelConfig option option \<Rightarrow> SplitTunnelManager \<Rightarrow> (SplitTunnelManager \<times> bool) option" where
  "LoadConfig file m =
     (case file of None \<Rightarrow> Some (m, True)
      | Some None \<Rightarrow> Some (m, False)
      | Some (Some c) \<Rightarrow>
          let cfg = m_config m;
              cfg = (if cf_mode c \<noteq> [] then cfg\<lparr>cf_mode := cf_mode c\<rparr> else cfg);
              cfg = (if cf_default_action c \<noteq> [] then cfg\<lparr>cf_default_action := cf_default_action c\<rparr> else cfg)
          in map_option (\<lambda>m. (m, True)) (add_rules (cf_rules c) (m\<lparr>m_config := cfg\<rparr>)))"

definition SetMode :: "string \<Rightarrow> SplitTunnelManager \<Rightarrow> SplitTunnelManager" where
  "SetMode mode m = m\<lparr>m_config := (m_config m)\<lparr>cf_mode := mode\<rparr>\<rparr>"

definition SetEnabled :: "bool \<Rightarrow> SplitTunnelManager \<Rightarrow> SplitTunnelManager option" where
  "SetEnabled b m = publishLocked (m\<lparr>m_config := (m_config m)\<lparr>cf_enabled := b\<rparr>\<rparr>)"

definition isEnabled :: "SplitTunnelManager \<Rightarrow> bool" where
  "isEnabled m = cf_enabled (m_config m)"

definition SetGeoIP :: "nat option \<Rightarrow> SplitTunnelManager \<Rightarrow> SplitTunnelManager option" where
  "SetGeoIP geo m = publishLocked (m\<lparr>m_geo := geo\<rparr>)"

definition SetCachedResolver :: "resolveFunc option \<Rightarrow> SplitTunnelManager \<Rightarrow> SplitTunnelManager option" where
  "SetCachedResolver fn m = publishLocked (m\<lparr>m_cached := fn\<rparr>)"

definition SetResolver :: "resolveFunc option \<Rightarrow> SplitTunnelManager \<Rightarrow> SplitTunnelManager option" where
  "SetResolver fn m = map_option (\<lambda>m. m\<lparr>m_verdicts := vc_reset (m_verdicts m)\<rparr>) (publishLocked (m\<lparr>m_resolve := fn\<rparr>))"

record appRule =
  ar_kind :: string
  ar_suffix :: string
  ar_keyword :: string
  ar_domain :: string
  ar_cidr :: string
  ar_action :: string

definition app_value :: "appRule \<Rightarrow> string \<times> string" where
  "app_value r =
     (if ar_kind r = ''domain-suffix'' then (''domain'', ar_suffix r)
      else if ar_kind r = ''domain-exact'' then (''domain-exact'', ar_domain r)
      else if ar_kind r = ''domain-keyword'' then (''domain-keyword'', ar_keyword r)
      else if ar_kind r = ''ip-cidr'' then (''ip'', ar_cidr r)
      else ([], []))"

definition app_convert :: "appRule \<Rightarrow> SplitTunnelRule option" where
  "app_convert r =
     (let act = to_upper (ar_action r); (kind, value) = app_value r in
      if ar_kind r = ''geoip'' \<or> act = ''REJECT'' \<or> act = ''BLOCK'' \<or> value = [] then None
      else Some \<lparr>ru_type = kind, ru_value = value, ru_action = (if act = ''DIRECT'' then ''direct'' else ''tunnel''),
        ru_description = [], ru_enabled = True, ru_priority = appRulePriority, ru_created = 0, ru_modified = 0\<rparr>)"

definition app_byCountry :: "appRule list \<Rightarrow> bool" where
  "app_byCountry rs = fold (\<lambda>r b. if ar_kind r = ''geoip'' then to_lower (ar_action r) = ''direct'' else b) rs False"

definition LoadAppRules :: "appRule list option option \<Rightarrow> SplitTunnelManager \<Rightarrow> (SplitTunnelManager \<times> bool) option" where
  "LoadAppRules data m =
     (case data of None \<Rightarrow> Some (m, True)
      | Some None \<Rightarrow> Some (m, False)
      | Some (Some rs) \<Rightarrow>
          map_option (\<lambda>m. (m\<lparr>m_verdicts := vc_reset (m_verdicts m)\<rparr>, True))
            (add_rules (List.map_filter app_convert rs) (m\<lparr>m_byCountry := app_byCountry rs\<rparr>)))"

definition default_rule :: "string \<Rightarrow> string \<Rightarrow> SplitTunnelRule" where
  "default_rule value desc =
     \<lparr>ru_type = ''ip'', ru_value = value, ru_action = ''direct'', ru_description = desc, ru_enabled = True,
      ru_priority = 100, ru_created = 0, ru_modified = 0\<rparr>"

definition CreateDefaultRules :: "int \<Rightarrow> SplitTunnelManager \<Rightarrow> SplitTunnelManager option" where
  "CreateDefaultRules unix m =
     Option.bind (AddRule unix (default_rule ''192.168.0.0/16'' ''Local network (192.168.x.x)'') m) (\<lambda>m.
     Option.bind (AddRule unix (default_rule ''10.0.0.0/8'' ''Local network (10.x.x.x)'') m) (\<lambda>m.
     Option.bind (AddRule unix (default_rule ''172.16.0.0/12'' ''Local network (172.16-31.x.x)'') m) (\<lambda>m.
     AddRule unix (default_rule ''127.0.0.0/8'' ''Localhost'') m)))"

section \<open>Decisions\<close>

fun looksLikeIP_from :: "string \<Rightarrow> bool" where
  "looksLikeIP_from [] = True"
| "looksLikeIP_from (c # s) =
     (if c = CHR '':'' then True
      else if c \<noteq> CHR ''.'' \<and> (c < CHR ''0'' \<or> c > CHR ''9'') then False
      else looksLikeIP_from s)"

definition looksLikeIP :: "string \<Rightarrow> bool" where
  "looksLikeIP s = (s \<noteq> [] \<and> looksLikeIP_from s)"

text \<open>The present contents of the country lists.\<close>

type_synonym geo_store = "nat \<Rightarrow> GeoIPSet"

definition bypassIP :: "geo_store \<Rightarrow> ruleSnapshot \<Rightarrow> IP \<Rightarrow> bool option" where
  "bypassIP gs snap ip =
     (let addr = (case To16 ip of Some a \<Rightarrow> a | None \<Rightarrow> replicate 16 0);
          i = sort_Search (length (s_ranges snap)) (\<lambda>i. x_hi (s_ranges snap ! i) \<ge> addr)
      in if i < length (s_ranges snap) \<and> x_lo (s_ranges snap ! i) \<le> addr
         then let k = x_idx (s_ranges snap ! i) in if k < length (s_direct snap) then Some (s_direct snap ! k) else None
         else (case s_geo snap of Some g \<Rightarrow> if s_byCountry snap then Some (geo_Contains (gs g) ip) else Some False
               | None \<Rightarrow> Some False))"

definition better :: "nat option \<Rightarrow> nat option \<Rightarrow> nat option" where
  "better best i = (case i of None \<Rightarrow> best
     | Some i \<Rightarrow> (case best of None \<Rightarrow> Some i | Some b \<Rightarrow> if i < b then Some i else best))"

text \<open>The loop over a host name and its parent domains.\<close>

function suffix_loop :: "(string, nat) gomap \<Rightarrow> string \<Rightarrow> nat option \<Rightarrow> nat option" where
  "suffix_loop suffix h best =
     (let best = better best (gm_get suffix h) in
      case index_byte h (CHR ''.'') of None \<Rightarrow> best | Some dot \<Rightarrow> suffix_loop suffix (drop (dot + 1) h) best)"
  by pat_completeness auto
termination
proof (relation "measure (\<lambda>(_, h, _). length h)")
  fix suffix :: "(string, nat) gomap" and h :: string and best x dot
  assume "index_byte h (CHR ''.'') = Some dot"
  then have "dot < length h" by (simp add: index_byte_Some)
  then show "((suffix, drop (dot + 1) h, x), suffix, h, best) \<in> measure (\<lambda>(_, h, _). length h)" by simp
qed simp

declare suffix_loop.simps [simp del]

definition keyword_step :: "string \<Rightarrow> kwRule \<Rightarrow> nat option \<Rightarrow> nat option" where
  "keyword_step hostname k best =
     (if (case best of None \<Rightarrow> False | Some b \<Rightarrow> kw_idx k > b) then best
      else if str_contains hostname (kw_value k) then Some (kw_idx k) else best)"

definition host_rule :: "ruleSnapshot \<Rightarrow> string \<Rightarrow> nat option" where
  "host_rule snap hostname =
     fold (keyword_step hostname) (s_keyword snap) (suffix_loop (s_suffix snap) hostname (gm_get (s_exact snap) hostname))"

text \<open>
  \<^verbatim>\<open>recordCountry\<close>, and the country verdict of a host. The last component of its result says
  whether a lookup in the background was started.
\<close>

definition recordCountry :: "int \<Rightarrow> string \<Rightarrow> GeoIPSet \<Rightarrow> IP list \<Rightarrow> SplitTunnelManager \<Rightarrow> SplitTunnelManager \<times> bool" where
  "recordCountry now hostname geo ips m =
     (let bypass = (\<exists>ip \<in> set ips. geo_Contains geo ip)
      in (m\<lparr>m_verdicts := vc_put now hostname \<lparr>v_bypass = bypass, v_expires = now + verdictTTL\<rparr> (m_verdicts m)\<rparr>, bypass))"

definition learnInBackground :: "string \<Rightarrow> SplitTunnelManager \<Rightarrow> SplitTunnelManager \<times> bool" where
  "learnInBackground hostname m =
     (let pending = (case m_pending m of None \<Rightarrow> [] | Some p \<Rightarrow> p) in
      if gm_get pending hostname = Some True then (m\<lparr>m_pending := Some pending\<rparr>, False)
      else (m\<lparr>m_pending := Some (gm_put hostname True pending)\<rparr>, True))"

definition byCountryVerdict :: "int \<Rightarrow> geo_store \<Rightarrow> ruleSnapshot \<Rightarrow> string \<Rightarrow> SplitTunnelManager \<Rightarrow> SplitTunnelManager \<times> bool \<times> bool" where
  "byCountryVerdict now gs snap hostname m =
     (if \<not> s_byCountry snap then (m, False, False)
      else
        let known = (case vc_get (m_verdicts m) hostname of
                       Some v \<Rightarrow> if now < v_expires v then Some (v_bypass v) else None | None \<Rightarrow> None) in
        case known of Some b \<Rightarrow> (m, b, False)
        | None \<Rightarrow>
            (case s_geo snap of None \<Rightarrow> (m, False, False)
             | Some g \<Rightarrow>
                 if geo_Len (gs g) = 0 then (m, False, False)
                 else case (case s_cached snap of None \<Rightarrow> None | Some cached \<Rightarrow> cached hostname) of
                   Some ips \<Rightarrow> let (m, b) = recordCountry now hostname (gs g) ips m in (m, b, False)
                 | None \<Rightarrow>
                     (if s_resolve snap = None then (m, False, False)
                      else let (m, started) = learnInBackground hostname m in (m, False, started))))"

text \<open>A decision: the manager after it, the answer, whether it came from the country list, and whether a lookup was started.\<close>

definition bypassHostReason ::
  "int \<Rightarrow> geo_store \<Rightarrow> ruleSnapshot \<Rightarrow> string \<Rightarrow> SplitTunnelManager \<Rightarrow> (SplitTunnelManager \<times> bool \<times> bool \<times> bool) option" where
  "bypassHostReason now gs snap hostname m =
     (let hostname = to_lower (trim_suffix hostname ''.'') in
      case host_rule snap hostname of
        Some best \<Rightarrow> if best < length (s_direct snap) then Some (m, s_direct snap ! best, False, False) else None
      | None \<Rightarrow> let (m, b, started) = byCountryVerdict now gs snap hostname m in Some (m, b, True, started))"

definition bypassHost :: "int \<Rightarrow> geo_store \<Rightarrow> ruleSnapshot \<Rightarrow> string \<Rightarrow> SplitTunnelManager \<Rightarrow> (SplitTunnelManager \<times> bool) option" where
  "bypassHost now gs snap hostname m = map_option (\<lambda>(m, direct, _). (m, direct)) (bypassHostReason now gs snap hostname m)"

definition loaded :: "SplitTunnelManager \<Rightarrow> ruleSnapshot option" where
  "loaded m = (case m_snap m of None \<Rightarrow> None | Some snap \<Rightarrow> if s_enabled snap then Some snap else None)"

definition ShouldBypass :: "int \<Rightarrow> geo_store \<Rightarrow> string \<Rightarrow> SplitTunnelManager \<Rightarrow> (SplitTunnelManager \<times> bool) option" where
  "ShouldBypass now gs addr m =
     (case loaded m of None \<Rightarrow> Some (m, False)
      | Some snap \<Rightarrow>
          (case (if looksLikeIP addr then ParseIP addr else None) of
             Some ip \<Rightarrow> map_option (Pair m) (bypassIP gs snap ip)
           | None \<Rightarrow> bypassHost now gs snap addr m))"

definition BypassDecision :: "int \<Rightarrow> geo_store \<Rightarrow> string \<Rightarrow> SplitTunnelManager \<Rightarrow> (SplitTunnelManager \<times> bool \<times> bool) option" where
  "BypassDecision now gs addr m =
     (case loaded m of None \<Rightarrow> Some (m, False, False)
      | Some snap \<Rightarrow>
          (case (if looksLikeIP addr then ParseIP addr else None) of
             Some ip \<Rightarrow> map_option (\<lambda>b. (m, b, False)) (bypassIP gs snap ip)
           | None \<Rightarrow> map_option (\<lambda>(m, direct, byCountry, _). (m, direct, byCountry)) (bypassHostReason now gs snap addr m)))"

definition ShouldBypassByIP :: "geo_store \<Rightarrow> string \<Rightarrow> SplitTunnelManager \<Rightarrow> bool option" where
  "ShouldBypassByIP gs ipStr m =
     (case ParseIP ipStr of None \<Rightarrow> Some False
      | Some ip \<Rightarrow> (case loaded m of None \<Rightarrow> Some False | Some snap \<Rightarrow> bypassIP gs snap ip))"

definition ShouldBypassByHostname :: "int \<Rightarrow> geo_store \<Rightarrow> string \<Rightarrow> SplitTunnelManager \<Rightarrow> (SplitTunnelManager \<times> bool) option" where
  "ShouldBypassByHostname now gs hostname m =
     (case loaded m of None \<Rightarrow> Some (m, False) | Some snap \<Rightarrow> bypassHost now gs snap hostname m)"

section \<open>The goroutine that learns a verdict\<close>

text \<open>
  Decisions and the background lookups they start, as atomic actions: a decision, the recording
  of what the lookup found, and the removal of the host from the pending set. The time and the
  country lists at which a lookup ends are chosen by the environment.
\<close>

datatype st_action =
    Decide int geo_store ruleSnapshot string int geo_store
  | Learn int geo_store nat resolveFunc string
  | Unpend string

definition unpend :: "string \<Rightarrow> SplitTunnelManager \<Rightarrow> SplitTunnelManager" where
  "unpend hostname m = m\<lparr>m_pending := map_option (gm_del hostname) (m_pending m)\<rparr>"

fun st_exec :: "st_action \<Rightarrow> SplitTunnelManager \<Rightarrow> SplitTunnelManager \<times> st_action list" where
  "st_exec (Decide now gs snap hostname later gs') m =
     (let (m, b, started) = byCountryVerdict now gs snap hostname m
      in (m, if started then [Learn later gs' (the (s_geo snap)) (the (s_resolve snap)) hostname] else []))"
| "st_exec (Learn now gs g resolve hostname) m =
     (case resolve hostname of None \<Rightarrow> (m, [Unpend hostname])
      | Some ips \<Rightarrow> (fst (recordCountry now hostname (gs g) ips m), [Unpend hostname]))"
| "st_exec (Unpend hostname) m = (unpend hostname m, [])"

fun st_entry :: "st_action \<Rightarrow> bool" where
  "st_entry (Decide _ _ _ _ _ _) = True"
| "st_entry _ = False"

interpretation vshards: sharded verdictShards shardFor
proof
  fix k show "shardFor k < verdictShards"
    using unat_mod_word [of 64 "fnv1a k"] by (simp add: shardFor_def verdictShards_def)
qed

definition vc_ok :: "verdictCache \<Rightarrow> bool" where
  "vc_ok c \<longleftrightarrow> sh_ok verdictShards shardFor c \<and> (\<forall>m \<in> set c. length m \<le> verdictMax div verdictShards)"

lemma vc_room: "gm_ok m \<Longrightarrow> gm_ok (vc_room now m)" "set (vc_room now m) \<subseteq> set m" "length (vc_room now m) < verdictMax div verdictShards"
  by (auto simp: vc_room_def Let_def verdictMax_def verdictShards_def)

lemma vc_ok_new: "vc_ok newVerdictCache"
  using vshards.ok_empty by (auto simp: vc_ok_def newVerdictCache_def)

lemma vc_ok_put:
  assumes "vc_ok c"
  shows "vc_ok (vc_put now host v c)"
proof -
  let ?f = "\<lambda>m. gm_put host v (vc_room now m)"
  have sh: "sh_ok verdictShards shardFor c" using assms by (simp add: vc_ok_def)
  have g: "gm_ok (c ! shardFor host)" using vshards.ok_shard [OF sh] .
  have "fst ` set (vc_room now (c ! shardFor host)) \<subseteq> fst ` set (c ! shardFor host)" using vc_room(2) by (rule image_mono)
  then have "fst ` set (?f (c ! shardFor host)) \<subseteq> insert host (fst ` set (c ! shardFor host))" unfolding fst_set_gm_put by (rule insert_mono)
  from vshards.ok_update [where f = ?f and k = host, OF sh _ this] have "sh_ok verdictShards shardFor (vc_put now host v c)"
    using gm_ok_put [OF vc_room(1) [OF g]] unfolding vc_put_def by blast
  moreover have "length (?f (c ! shardFor host)) \<le> verdictMax div verdictShards"
    using vc_room(3) [of now "c ! shardFor host"] by (simp add: length_gm_put)
  then have "\<forall>m \<in> set (vc_put now host v c). length m \<le> verdictMax div verdictShards"
    unfolding vc_put_def using assms by (intro sh_update_all) (simp_all add: vc_ok_def)
  ultimately show ?thesis by (simp add: vc_ok_def)
qed

lemma vc_ok_reset: "vc_ok c \<Longrightarrow> vc_ok (vc_reset c)"
  using vshards.ok_map [of c "\<lambda>_. []"] by (simp add: vc_ok_def vc_reset_def)

lemma vc_len_bound: "vc_ok c \<Longrightarrow> vc_len c \<le> verdictMax"
  using sum_list_le_bound [of c length "verdictMax div verdictShards"]
  by (auto simp: vc_ok_def vc_len_def sh_count_def sh_ok_def verdictMax_def verdictShards_def)

lemma vc_get_put: "vc_ok c \<Longrightarrow> vc_get (vc_put now host v c) host = Some v"
  using vshards.get_update [of c host] by (simp add: vc_ok_def vc_get_def vc_put_def sh_ok_def)

text \<open>An entry of another host is kept, or dropped to make room; it is never changed.\<close>

lemma vc_get_put_other:
  assumes "vc_ok c" "h \<noteq> host" "vc_get (vc_put now host v c) h = Some w"
  shows "vc_get c h = Some w"
proof (cases "shardFor h = shardFor host")
  case True
  have sh: "sh_ok verdictShards shardFor c" using assms(1) by (simp add: vc_ok_def)
  have g: "gm_ok (c ! shardFor host)" using vshards.ok_shard [OF sh] .
  have "gm_get (vc_room now (c ! shardFor host)) h = Some w"
    using assms(2,3) True vshards.get_update [of c host] sh by (simp add: vc_get_def vc_put_def sh_ok_def)
  then have "(h, w) \<in> set (vc_room now (c ! shardFor host))" using gm_get_in [OF vc_room(1) [OF g]] by blast
  then have "(h, w) \<in> set (c ! shardFor host)" using vc_room(2) by (rule subsetD [rotated])
  then show ?thesis using g True by (simp add: gm_get_in vc_get_def sh_get_def)
next
  case False
  then show ?thesis using assms vshards.get_update [of c host] by (simp add: vc_get_def vc_put_def vc_ok_def sh_ok_def)
qed

section \<open>The rule list\<close>

lemma unique_rules_set: "set (unique_rules S rs) \<subseteq> set rs"
  by (induction S rs rule: unique_rules.induct) auto

lemma unique_rules_keys:
  "distinct (map keyOf (unique_rules S rs)) \<and> keyOf ` set (unique_rules S rs) \<inter> S = {}"
  by (induction S rs rule: unique_rules.induct) auto

lemma unique_rules_again: "S \<subseteq> T \<Longrightarrow> unique_rules T (unique_rules S rs) = unique_rules T rs"
proof (induction rs arbitrary: S T)
  case (Cons r rs)
  show ?case
  proof (cases "keyOf r \<in> T")
    case True
    then show ?thesis using Cons.IH [of S T] Cons.IH [of "insert (keyOf r) S" T] Cons.prems by auto
  next
    case False
    then show ?thesis using Cons.IH [of "insert (keyOf r) S" "insert (keyOf r) T"] Cons.prems by auto
  qed
qed simp

text \<open>A rule put into a sorted list behind the rules of at least its priority.\<close>

fun put_behind :: "SplitTunnelRule \<Rightarrow> SplitTunnelRule list \<Rightarrow> SplitTunnelRule list" where
  "put_behind r [] = [r]"
| "put_behind r (x # xs) = (if ru_priority x \<ge> ru_priority r then x # put_behind r xs else r # x # xs)"

lemma insort_put_behind:
  "insort_key (\<lambda>r. - ru_priority r) x (put_behind r l) = put_behind r (insort_key (\<lambda>r. - ru_priority r) x l)"
  by (induction l) auto

lemma sort_snoc: "sortRulesByPriority (xs @ [r]) = put_behind r (sortRulesByPriority xs)"
  unfolding sortRulesByPriority_def by (induction xs) (simp_all add: insort_put_behind)

lemma put_behind_head: "sorted_wrt (\<lambda>a b. ru_priority a \<ge> ru_priority b) (x # xs) \<Longrightarrow> ru_priority x < ru_priority r \<Longrightarrow> put_behind r xs = r # xs"
  by (cases xs) auto

lemma unique_put_behind:
  assumes "sorted_wrt (\<lambda>a b. ru_priority a \<ge> ru_priority b) l"
  shows "unique_rules S (put_behind r (unique_rules S l)) = unique_rules S (put_behind r l)"
  using assms
proof (induction l arbitrary: S)
  case (Cons x xs)
  have IH: "unique_rules T (put_behind r (unique_rules T xs)) = unique_rules T (put_behind r xs)" for T
    using Cons by simp
  show ?case
  proof (cases "ru_priority x \<ge> ru_priority r")
    case True
    then show ?thesis using IH [of S] IH [of "insert (keyOf x) S"] by simp
  next
    case False
    then have "put_behind r xs = r # xs" using put_behind_head [OF Cons.prems] by simp
    then show ?thesis using False IH [of S] by (auto simp: unique_rules_again insert_commute subset_insertI2)
  qed
qed simp

lemma sorted_sortRules: "sorted_wrt (\<lambda>a b. ru_priority a \<ge> ru_priority b) (sortRulesByPriority xs)"
  using sorted_sort_key [of "\<lambda>r. - ru_priority r" xs] by (simp add: sortRulesByPriority_def sorted_map)

lemma sorted_unique_rules:
  "sorted_wrt (\<lambda>a b. ru_priority a \<ge> ru_priority b) rs \<Longrightarrow> sorted_wrt (\<lambda>a b. ru_priority a \<ge> ru_priority b) (unique_rules S rs)"
proof (induction S rs rule: unique_rules.induct)
  case (2 seen r rs)
  then show ?case using unique_rules_set [of "insert (keyOf r) seen" rs] by auto
qed simp

lemma sort_sorted: "sorted_wrt (\<lambda>a b. ru_priority a \<ge> ru_priority b) rs \<Longrightarrow> sortRulesByPriority rs = rs"
  unfolding sortRulesByPriority_def by (rule sort_key_id_if_sorted) (simp add: sorted_map)

text \<open>
  Adding rules in any number of steps, with duplicates dropped after each, gives the list that
  sorting all of them at once and dropping duplicates gives.
\<close>

definition rule_list :: "SplitTunnelRule list \<Rightarrow> SplitTunnelRule list" where
  "rule_list given = unique_rules {} (sortRulesByPriority given)"

lemma rule_list_snoc: "rule_list (xs @ [r]) = unique_rules {} (put_behind r (rule_list xs))"
  by (simp add: rule_list_def sort_snoc unique_put_behind sorted_sortRules)

lemma rule_list_append: "rule_list (rule_list xs @ ys) = rule_list (xs @ ys)"
proof (induction ys rule: rev_induct)
  case Nil
  have "sortRulesByPriority (rule_list xs) = rule_list xs"
    unfolding rule_list_def by (intro sort_sorted sorted_unique_rules sorted_sortRules)
  then show ?case by (simp add: rule_list_def [of "rule_list xs"]) (simp add: rule_list_def unique_rules_again)
next
  case (snoc y ys)
  then show ?case by (simp only: append_assoc [symmetric] rule_list_snoc)
qed

lemma better_first: "better (first_idx P xs) (first_idx Q xs) = first_idx (\<lambda>x. P x \<or> Q x) xs"
proof (induction xs)
  case (Cons x xs)
  have "map_option Suc (first_idx (\<lambda>x. P x \<or> Q x) xs) = better (map_option Suc (first_idx P xs)) (map_option Suc (first_idx Q xs))"
    unfolding Cons.IH [symmetric] by (simp add: better_def split: option.split)
  then show ?case by (simp add: better_def split: option.split)
qed (simp add: better_def)

section \<open>What a snapshot holds\<close>

definition suffix_rule :: "string \<Rightarrow> SplitTunnelRule \<Rightarrow> bool" where
  "suffix_rule v r \<longleftrightarrow> ru_enabled r \<and> ru_type r = ''domain'' \<and> to_lower (trim_prefix (ru_value r) ''*.'') = v"

definition exact_rule :: "string \<Rightarrow> SplitTunnelRule \<Rightarrow> bool" where
  "exact_rule h r \<longleftrightarrow> ru_enabled r \<and> ru_type r = ''domain-exact'' \<and> to_lower (ru_value r) = h"

definition keyword_rule :: "string \<Rightarrow> SplitTunnelRule \<Rightarrow> bool" where
  "keyword_rule h r \<longleftrightarrow> ru_enabled r \<and> ru_type r = ''domain-keyword'' \<and> str_contains h (to_lower (ru_value r))"

definition kw_entries :: "nat \<times> SplitTunnelRule \<Rightarrow> kwRule list" where
  "kw_entries = (\<lambda>(i, r). if ru_enabled r \<and> ru_type r = ''domain-keyword'' then [\<lparr>kw_value = to_lower (ru_value r), kw_idx = i\<rparr>] else [])"

definition raw_ranges :: "nat \<times> SplitTunnelRule \<Rightarrow> idxRange list" where
  "raw_ranges = (\<lambda>(i, r). if ru_enabled r \<and> ru_type r = ''ip'' then ip_ranges (ru_value r) i else [])"

lemma publish_fold:
  assumes "s_suffix s0 = []" "s_exact s0 = []" "s_keyword s0 = []"
  defines "p \<equiv> \<lambda>rs. fold publish_rule (enumerate 0 rs) (s0, [])"
  shows "gm_get (s_suffix (fst (p rs))) v = first_idx (suffix_rule v) rs"
    and "gm_get (s_exact (fst (p rs))) v = first_idx (exact_rule v) rs"
    and "s_keyword (fst (p rs)) = concat (map kw_entries (enumerate 0 rs))"
    and "snd (p rs) = concat (map raw_ranges (enumerate 0 rs))"
    and "ruleSnapshot.truncate (fst (p rs)\<lparr>s_suffix := [], s_exact := [], s_keyword := []\<rparr>) = ruleSnapshot.truncate s0"
proof -
  have step: "p (rs @ [r]) = publish_rule (length rs, r) (p rs)" for rs r
    by (simp add: p_def enumerate_snoc)
  have nil: "p [] = (s0, [])" by (simp add: p_def)
  note defs = publish_rule_def first_put_def case_prod_beta
  show "gm_get (s_suffix (fst (p rs))) v = first_idx (suffix_rule v) rs"
    by (induction rs rule: rev_induct) (auto simp: nil step assms(1-3) first_idx_snoc defs suffix_rule_def split: option.splits)
  show "gm_get (s_exact (fst (p rs))) v = first_idx (exact_rule v) rs"
    by (induction rs rule: rev_induct) (auto simp: nil step assms(1-3) first_idx_snoc defs exact_rule_def split: option.splits)
  show "s_keyword (fst (p rs)) = concat (map kw_entries (enumerate 0 rs))"
    by (induction rs rule: rev_induct) (auto simp: nil step assms(1-3) enumerate_snoc defs kw_entries_def)
  show "snd (p rs) = concat (map raw_ranges (enumerate 0 rs))"
    by (induction rs rule: rev_induct) (auto simp: nil step enumerate_snoc defs raw_ranges_def)
  show "ruleSnapshot.truncate (fst (p rs)\<lparr>s_suffix := [], s_exact := [], s_keyword := []\<rparr>) = ruleSnapshot.truncate s0"
    by (induction rs rule: rev_induct) (auto simp: nil step assms(1-3) defs ruleSnapshot.defs)
qed

text \<open>The first matching rule wins: the specification of a decision for a host name and for an address.\<close>

definition host_matches :: "string \<Rightarrow> SplitTunnelRule \<Rightarrow> bool" where
  "host_matches h r \<longleftrightarrow> ru_enabled r \<and>
     (if ru_type r = ''domain''
      then let v = to_lower (trim_prefix (ru_value r) ''*.'') in h = v \<or> has_suffix h (CHR ''.'' # v)
      else if ru_type r = ''domain-exact'' then h = to_lower (ru_value r)
      else ru_type r = ''domain-keyword'' \<and> str_contains h (to_lower (ru_value r)))"

definition ip_matches :: "bytes \<Rightarrow> SplitTunnelRule \<Rightarrow> bool" where
  "ip_matches a r \<longleftrightarrow> ru_enabled r \<and> ru_type r = ''ip'' \<and>
     (case cidr_prefix (ru_value r) of Some (p, k) \<Rightarrow> same_prefix k p a | None \<Rightarrow> ParseIP (ru_value r) = Some a)"

lemma suffix_after_dot:
  assumes "index_byte h (CHR ''.'') = Some d"
  shows "has_suffix h (CHR ''.'' # p) \<longleftrightarrow> drop (d + 1) h = p \<or> has_suffix (drop (d + 1) h) (CHR ''.'' # p)"
proof -
  have d: "d < length h" "h ! d = CHR ''.''" "\<forall>j<d. h ! j \<noteq> CHR ''.''" using assms by (auto simp: index_byte_Some)
  have h: "h = take d h @ CHR ''.'' # drop (d + 1) h" using d(1,2) by (metis Suc_eq_plus1 id_take_nth_drop)
  have nd: "CHR ''.'' \<notin> set (take d h)" using d(1,3) by (auto simp: in_set_conv_nth)
  have "(\<exists>r. h = r @ CHR ''.'' # p) \<longleftrightarrow> drop (d + 1) h = p \<or> (\<exists>r. drop (d + 1) h = r @ CHR ''.'' # p)"
  proof
    assume "\<exists>r. h = r @ CHR ''.'' # p"
    then obtain r where "take d h @ CHR ''.'' # drop (d + 1) h = r @ CHR ''.'' # p" using h by metis
    then show "drop (d + 1) h = p \<or> (\<exists>r. drop (d + 1) h = r @ CHR ''.'' # p)"
      using nd by (auto simp: append_eq_append_conv2 append_eq_Cons_conv Cons_eq_append_conv)
  next
    assume "drop (d + 1) h = p \<or> (\<exists>r. drop (d + 1) h = r @ CHR ''.'' # p)"
    then show "\<exists>r. h = r @ CHR ''.'' # p"
    proof
      assume "\<exists>r. drop (d + 1) h = r @ CHR ''.'' # p"
      then obtain r where "drop (d + 1) h = r @ CHR ''.'' # p" ..
      then have "h = (take d h @ CHR ''.'' # r) @ CHR ''.'' # p" using h by simp
      then show ?thesis ..
    qed (use h in metis)
  qed
  then show ?thesis by (simp only: has_suffix_iff)
qed

lemma suffix_loop_first:
  assumes "\<And>v. gm_get suffix v = first_idx (S v) rs"
  shows "suffix_loop suffix h (first_idx B rs)
    = first_idx (\<lambda>r. B r \<or> (\<exists>p. (h = p \<or> has_suffix h (CHR ''.'' # p)) \<and> S p r)) rs"
proof (induction "length h" arbitrary: h B rule: less_induct)
  case less
  show ?case
  proof (cases "index_byte h (CHR ''.'')")
    case None
    then have "\<not> has_suffix h (CHR ''.'' # p)" for p by (auto simp: index_byte_None has_suffix_iff)
    then show ?thesis using None by (subst suffix_loop.simps) (simp add: Let_def assms better_first)
  next
    case (Some d)
    then have "length (drop (d + 1) h) < length h" unfolding index_byte_Some length_drop by linarith
    from less [OF this] Some suffix_after_dot [OF Some] show ?thesis
      by (subst suffix_loop.simps) (simp add: Let_def assms better_first conj_disj_distribR ex_disj_distrib disj_assoc)
  qed
qed

lemma keyword_fold:
  "fold (keyword_step h) (concat (map kw_entries (enumerate 0 rs))) best = better best (first_idx (keyword_rule h) rs)"
proof (induction rs rule: rev_induct)
  case (snoc r rs)
  let ?k = "\<lparr>kw_value = to_lower (ru_value r), kw_idx = length rs\<rparr>"
  have "fold (keyword_step h) (kw_entries (length rs, r)) b = (if keyword_rule h r then keyword_step h ?k b else b)" for b
    by (auto simp: kw_entries_def keyword_rule_def keyword_step_def split: option.split)
  moreover have "keyword_rule h r \<Longrightarrow> keyword_step h ?k b = (case b of None \<Rightarrow> Some (length rs) | Some i \<Rightarrow> if i < length rs then b else Some (length rs))" for b
    by (simp add: keyword_rule_def keyword_step_def split: option.split)
  ultimately show ?case
    using first_idx_less [of "keyword_rule h" rs]
    by (auto simp: enumerate_snoc snoc.IH first_idx_snoc better_def split: option.splits)
qed (simp add: better_def)

lemma host_rule_first:
  assumes "\<And>v. gm_get (s_suffix s) v = first_idx (suffix_rule v) rs" "\<And>v. gm_get (s_exact s) v = first_idx (exact_rule v) rs"
    "s_keyword s = concat (map kw_entries (enumerate 0 rs))"
  shows "host_rule s h = first_idx (host_matches h) rs"
proof -
  have "host_rule s h = first_idx (\<lambda>r. (exact_rule h r \<or> (\<exists>p. (h = p \<or> has_suffix h (CHR ''.'' # p)) \<and> suffix_rule p r)) \<or> keyword_rule h r) rs"
    by (simp add: host_rule_def assms suffix_loop_first [of "s_suffix s" suffix_rule, OF assms(1)] keyword_fold better_first)
  also have "(\<lambda>r. (exact_rule h r \<or> (\<exists>p. (h = p \<or> has_suffix h (CHR ''.'' # p)) \<and> suffix_rule p r)) \<or> keyword_rule h r) = host_matches h"
    by (rule ext) (auto simp: host_matches_def exact_rule_def suffix_rule_def keyword_rule_def Let_def)
  finally show ?thesis .
qed

definition ip_value_matches :: "string \<Rightarrow> bytes \<Rightarrow> bool" where
  "ip_value_matches v a = (case cidr_prefix v of Some (p, k) \<Rightarrow> same_prefix k p a | None \<Rightarrow> ParseIP v = Some a)"

lemma ip_ranges_spec:
  assumes "length a = 16"
  shows "ip_ranges v i = [] \<and> \<not> ip_value_matches v a \<or>
    (\<exists>x. ip_ranges v i = [x] \<and> x_idx x = i \<and> length (x_lo x) = 16 \<and> length (x_hi x) = 16 \<and> x_lo x \<le> x_hi x \<and>
       (x_lo x \<le> a \<and> a \<le> x_hi x \<longleftrightarrow> ip_value_matches v a))"
proof (cases "ParseCIDR v")
  case None
  then have m: "ip_value_matches v a \<longleftrightarrow> ParseIP v = Some a" by (simp add: ip_value_matches_def cidr_prefix_def)
  show ?thesis
  proof (cases "ParseIP v")
    case None
    then show ?thesis using m \<open>ParseCIDR v = None\<close> by (simp add: ip_ranges_def)
  next
    case (Some ip)
    then have "To16 ip = Some ip" "length ip = 16" using ParseIP_length by (auto simp: To16_def)
    then show ?thesis using m \<open>ParseCIDR v = None\<close> Some by (auto simp: ip_ranges_def)
  qed
next
  case (Some x)
  obtain ip n where x: "ParseCIDR v = Some (ip, n)" using Some by (cases x) auto
  obtain p k where pk: "cidr_prefix v = Some (p, k)" using x by (simp add: cidr_prefix_def)
  obtain r where "rangeOf n = Some r" "length (r_lo r) = 16" "length (r_hi r) = 16" "r_lo r \<le> r_hi r"
      "r_lo r \<le> a \<and> a \<le> r_hi r \<longleftrightarrow> same_prefix k p a"
    using rangeOf_ParseCIDR [OF x pk assms] by metis
  then show ?thesis using x pk by (simp add: ip_ranges_def ip_value_matches_def)
qed

lemma raw_ranges_spec:
  assumes "length a = 16"
  shows "raw_ranges (i, r) = [] \<and> \<not> ip_matches a r \<or>
    (\<exists>x. raw_ranges (i, r) = [x] \<and> x_idx x = i \<and> length (x_lo x) = 16 \<and> length (x_hi x) = 16 \<and> x_lo x \<le> x_hi x \<and>
       (x_lo x \<le> a \<and> a \<le> x_hi x \<longleftrightarrow> ip_matches a r))"
  using ip_ranges_spec [OF assms, of "ru_value r" i]
  by (auto simp: raw_ranges_def ip_matches_def ip_value_matches_def)

abbreviation all_ranges :: "SplitTunnelRule list \<Rightarrow> idxRange list" where
  "all_ranges rs \<equiv> concat (map raw_ranges (enumerate 0 rs))"

lemma live_at_append: "live_at (xs @ ys) n = live_at xs n \<union> live_at ys n"
  by (auto simp: live_at_def)

lemma raw_ok_snoc:
  "raw_ok xs n \<Longrightarrow> raw_ok xs (Suc n)"
  "raw_ok xs n \<Longrightarrow> x_idx x = n \<Longrightarrow> length (x_lo x) = 16 \<Longrightarrow> length (x_hi x) = 16 \<Longrightarrow> x_lo x \<le> x_hi x \<Longrightarrow> raw_ok (xs @ [x]) (Suc n)"
  by (auto simp: raw_ok_def less_Suc_eq)

lemma all_ranges_ok: "raw_ok (all_ranges rs) (length rs)"
proof (induction rs rule: rev_induct)
  case (snoc r rs)
  have "length (replicate 16 (0::byte)) = 16" by simp
  then have "raw_ranges (length rs, r) = [] \<or> (\<exists>x. raw_ranges (length rs, r) = [x] \<and> x_idx x = length rs \<and>
      length (x_lo x) = 16 \<and> length (x_hi x) = 16 \<and> x_lo x \<le> x_hi x)"
    using raw_ranges_spec [of "replicate 16 0" "length rs" r] by blast
  then show ?case
  proof (elim disjE exE)
    assume "raw_ranges (length rs, r) = []"
    then show ?thesis using raw_ok_snoc [OF snoc] by (simp add: enumerate_snoc)
  next
    fix x assume "raw_ranges (length rs, r) = [x] \<and> x_idx x = length rs \<and> length (x_lo x) = 16 \<and> length (x_hi x) = 16 \<and> x_lo x \<le> x_hi x"
    then show ?thesis using raw_ok_snoc [OF snoc] by (simp add: enumerate_snoc)
  qed
qed (simp add: raw_ok_def)

lemma live_all_ranges:
  assumes a: "length a = 16"
  shows "live_at (all_ranges rs) (bnum a) = {i. i < length rs \<and> ip_matches a (rs ! i)}"
proof (induction rs rule: rev_induct)
  case (snoc r rs)
  have "live_at (raw_ranges (length rs, r)) (bnum a) = (if ip_matches a r then {length rs} else {})"
    using raw_ranges_spec [OF a, of "length rs" r]
  proof (elim disjE exE)
    fix x assume x: "raw_ranges (length rs, r) = [x] \<and> x_idx x = length rs \<and> length (x_lo x) = 16 \<and> length (x_hi x) = 16 \<and>
      x_lo x \<le> x_hi x \<and> (x_lo x \<le> a \<and> a \<le> x_hi x \<longleftrightarrow> ip_matches a r)"
    then have "bnum (x_lo x) \<le> bnum a \<and> bnum a \<le> bnum (x_hi x) \<longleftrightarrow> ip_matches a r"
      using a bnum_le_iff [of "x_lo x" a] bnum_le_iff [of a "x_hi x"] by simp
    then show ?thesis using x by (auto simp: live_at_def)
  qed (auto simp: live_at_def)
  then show ?case by (auto simp: enumerate_snoc live_at_append snoc.IH nth_append less_Suc_eq)
qed (simp add: live_at_def)

lemma flattened_lookup:
  assumes out: "out_ok (all_ranges rs) (2 ^ 128) out" and a: "length a = 16"
  defines "k \<equiv> sort_Search (length out) (\<lambda>i. x_hi (out ! i) \<ge> a)"
  shows "(if k < length out \<and> x_lo (out ! k) \<le> a then Some (x_idx (out ! k)) else None) = first_idx (ip_matches a) rs"
proof -
  have srt: "sorted_wrt (\<lambda>r s. bnum (x_hi r) < bnum (x_lo s)) out"
    and len: "r \<in> set out \<Longrightarrow> length (x_lo r) = 16 \<and> length (x_hi r) = 16 \<and> bnum (x_lo r) \<le> bnum (x_hi r)" for r
    using out by (auto simp: out_ok_def)
  have disj: "x_hi (out ! i) < x_lo (out ! j)" if "i < j" "j < length out" for i j
    using sorted_wrt_nth_less [OF srt that] len [of "out ! i"] len [of "out ! j"] that bnum_less_iff by simp
  have le: "x_lo r \<le> x_hi r" if "r \<in> set out" for r using len [OF that] bnum_le_iff by simp
  have sorted: "x_hi (out ! i) \<le> x_hi (out ! j)" if "i \<le> j" "j < length out" for i j
    using disj [of i j] le [of "out ! j"] that by (cases "i = j") auto
  have cov: "covers r (bnum a) \<longleftrightarrow> x_lo r \<le> a \<and> a \<le> x_hi r" if "r \<in> set out" for r
    using len [OF that] a by (simp add: covers_def bnum_le_iff)
  have win: "(\<exists>r \<in> set out. x_lo r \<le> a \<and> a \<le> x_hi r \<and> x_idx r = i) \<longleftrightarrow> first_idx (ip_matches a) rs = Some i" for i
  proof -
    have "(\<exists>r \<in> set out. x_lo r \<le> a \<and> a \<le> x_hi r \<and> x_idx r = i) \<longleftrightarrow> (\<exists>r \<in> set out. covers r (bnum a) \<and> x_idx r = i)"
      using cov by blast
    also have "\<dots> \<longleftrightarrow> {i. i < length rs \<and> ip_matches a (rs ! i)} \<noteq> {} \<and> i = Min {i. i < length rs \<and> ip_matches a (rs ! i)}"
      using out bnum_lt_max [OF a] live_all_ranges [OF a, of rs] by (simp add: out_ok_def)
    also have "\<dots> \<longleftrightarrow> first_idx (ip_matches a) rs = Some i"
      using Min_first_idx [of rs "ip_matches a"] first_idx_None [of "ip_matches a" rs]
      by (cases "{i. i < length rs \<and> ip_matches a (rs ! i)} = {}") (auto simp: in_set_conv_nth)
    finally show ?thesis .
  qed
  have hit1: "k < length out \<and> x_lo (out ! k) \<le> a \<longleftrightarrow> (\<exists>r \<in> set out. x_lo r \<le> a \<and> a \<le> x_hi r)"
    unfolding k_def by (rule range_search_hit(1)) (erule (1) sorted, erule (1) disj)
  have hit2: "out ! k = r" if "r \<in> set out" "x_lo r \<le> a" "a \<le> x_hi r" for r
    unfolding k_def using that by (intro range_search_hit(2) [where lo = x_lo]) (auto intro: sorted disj)
  show ?thesis
  proof (cases "\<exists>r \<in> set out. x_lo r \<le> a \<and> a \<le> x_hi r")
    case True
    then obtain r where r: "r \<in> set out" "x_lo r \<le> a" "a \<le> x_hi r" by blast
    then have "first_idx (ip_matches a) rs = Some (x_idx r)" using win by blast
    moreover have "k < length out \<and> x_lo (out ! k) \<le> a" using hit1 True by blast
    ultimately show ?thesis using hit2 [OF r] by simp
  next
    case False
    then have "first_idx (ip_matches a) rs \<noteq> Some i" for i using win [of i] by blast
    then have "first_idx (ip_matches a) rs = None" by (cases "first_idx (ip_matches a) rs") blast+
    moreover have "\<not> (k < length out \<and> x_lo (out ! k) \<le> a)" using hit1 False by blast
    ultimately show ?thesis by (simp only: if_False)
  qed
qed

section \<open>Decisions of a published snapshot\<close>

definition snap_ok :: "SplitTunnelRule list \<Rightarrow> ruleSnapshot \<Rightarrow> bool" where
  "snap_ok rs s \<longleftrightarrow> (\<forall>v. gm_get (s_suffix s) v = first_idx (suffix_rule v) rs) \<and>
     (\<forall>v. gm_get (s_exact s) v = first_idx (exact_rule v) rs) \<and>
     s_keyword s = concat (map kw_entries (enumerate 0 rs)) \<and>
     out_ok (all_ranges rs) (2 ^ 128) (s_ranges s) \<and> s_direct s = map (\<lambda>r. ru_action r = ''direct'') rs"

lemma snapshot_of_total:
  "\<exists>s. snapshot_of m = Some s \<and> snap_ok (m_rules m) s \<and> s_enabled s = cf_enabled (m_config m) \<and>
     s_byCountry s = m_byCountry m \<and> s_geo s = m_geo m \<and> s_resolve s = m_resolve m \<and> s_cached s = m_cached m"
proof -
  let ?s0 = "\<lparr>s_enabled = cf_enabled (m_config m), s_byCountry = m_byCountry m, s_geo = m_geo m,
            s_resolve = m_resolve m, s_cached = m_cached m, s_suffix = [], s_exact = [], s_keyword = [],
            s_ranges = [], s_direct = map (\<lambda>r. ru_action r = ''direct'') (m_rules m)\<rparr>"
  obtain s raw where p: "fold publish_rule (enumerate 0 (m_rules m)) (?s0, []) = (s, raw)" by fastforce
  note f = publish_fold [of ?s0, where rs = "m_rules m", unfolded p fst_conv snd_conv]
  obtain out where out: "flattenRanges raw (length (m_rules m)) = Some out" "out_ok (all_ranges (m_rules m)) (2 ^ 128) out"
    using flattenRanges_correct [OF all_ranges_ok, of "m_rules m"] f(4) by auto
  have "snapshot_of m = Some (s\<lparr>s_ranges := out\<rparr>)" using p out(1) by (simp add: snapshot_of_def)
  then show ?thesis using f out(2) by (simp add: snap_ok_def ruleSnapshot.defs)
qed

lemma bypassIP_snapshot:
  assumes s: "snap_ok rs s" and a: "To16 ip = Some a"
  shows "bypassIP gs s ip = Some (case first_idx (ip_matches a) rs of
      Some i \<Rightarrow> ru_action (rs ! i) = ''direct''
    | None \<Rightarrow> s_byCountry s \<and> (case s_geo s of None \<Rightarrow> False | Some g \<Rightarrow> geo_Contains (gs g) ip))"
proof -
  let ?k = "sort_Search (length (s_ranges s)) (\<lambda>i. x_hi (s_ranges s ! i) \<ge> a)"
  have out: "out_ok (all_ranges rs) (2 ^ 128) (s_ranges s)" and d: "s_direct s = map (\<lambda>r. ru_action r = ''direct'') rs"
    using s by (auto simp: snap_ok_def)
  note look = flattened_lookup [OF out To16_length [OF a]]
  show ?thesis
  proof (cases "?k < length (s_ranges s) \<and> x_lo (s_ranges s ! ?k) \<le> a")
    case True
    then have f: "first_idx (ip_matches a) rs = Some (x_idx (s_ranges s ! ?k))" using look by simp
    then have "x_idx (s_ranges s ! ?k) < length rs" by (rule first_idx_less)
    then show ?thesis using True f a d by (simp add: bypassIP_def Let_def)
  next
    case False
    then have "first_idx (ip_matches a) rs = None" using look by (simp only: if_False)
    then show ?thesis unfolding bypassIP_def Let_def a option.case if_not_P [OF False] by (auto split: option.split)
  qed
qed

lemma bypassHostReason_snapshot:
  assumes s: "snap_ok rs s"
  shows "bypassHostReason now gs s hostname m =
    (let h = to_lower (trim_suffix hostname ''.'') in
     case first_idx (host_matches h) rs of
       Some i \<Rightarrow> Some (m, ru_action (rs ! i) = ''direct'', False, False)
     | None \<Rightarrow> let (m, b, started) = byCountryVerdict now gs s h m in Some (m, b, True, started))"
proof -
  have "host_rule s h = first_idx (host_matches h) rs" for h
    using s by (intro host_rule_first) (auto simp: snap_ok_def)
  then show ?thesis using s first_idx_less [of _ rs]
    by (auto simp: bypassHostReason_def Let_def snap_ok_def split: option.split)
qed

section \<open>The manager\<close>

text \<open>Every way the manager is used: the calls that configure it and the decisions.\<close>

datatype st_op =
    OpAddRule int SplitTunnelRule
  | OpLoadConfig "SplitTunnelConfig option option"
  | OpLoadAppRules "appRule list option option"
  | OpDefaultRules int
  | OpSetMode string
  | OpSetEnabled bool
  | OpSetGeoIP "nat option"
  | OpSetCachedResolver "resolveFunc option"
  | OpSetResolver "resolveFunc option"
  | OpDecide int geo_store string

fun st_apply :: "st_op \<Rightarrow> SplitTunnelManager \<Rightarrow> SplitTunnelManager option" where
  "st_apply (OpAddRule unix r) m = AddRule unix r m"
| "st_apply (OpLoadConfig f) m = map_option fst (LoadConfig f m)"
| "st_apply (OpLoadAppRules d) m = map_option fst (LoadAppRules d m)"
| "st_apply (OpDefaultRules unix) m = CreateDefaultRules unix m"
| "st_apply (OpSetMode s) m = Some (SetMode s m)"
| "st_apply (OpSetEnabled b) m = SetEnabled b m"
| "st_apply (OpSetGeoIP g) m = SetGeoIP g m"
| "st_apply (OpSetCachedResolver f) m = SetCachedResolver f m"
| "st_apply (OpSetResolver f) m = SetResolver f m"
| "st_apply (OpDecide now gs addr) m = map_option fst (BypassDecision now gs addr m)"

fun st_run :: "st_op list \<Rightarrow> SplitTunnelManager \<Rightarrow> SplitTunnelManager option" where
  "st_run [] m = Some m"
| "st_run (x # xs) m = Option.bind (st_apply x m) (st_run xs)"

text \<open>The rules a call gives the manager.\<close>

definition stamped :: "int \<Rightarrow> SplitTunnelRule \<Rightarrow> SplitTunnelRule" where
  "stamped unix r = r\<lparr>ru_created := unix, ru_modified := unix\<rparr>"

definition default_rules :: "int \<Rightarrow> SplitTunnelRule list" where
  "default_rules unix = map (stamped unix)
     [default_rule ''192.168.0.0/16'' ''Local network (192.168.x.x)'', default_rule ''10.0.0.0/8'' ''Local network (10.x.x.x)'',
      default_rule ''172.16.0.0/12'' ''Local network (172.16-31.x.x)'', default_rule ''127.0.0.0/8'' ''Localhost'']"

fun given_by :: "st_op \<Rightarrow> SplitTunnelRule list" where
  "given_by (OpAddRule unix r) = [stamped unix r]"
| "given_by (OpLoadConfig (Some (Some c))) = cf_rules c"
| "given_by (OpLoadAppRules (Some (Some rs))) = List.map_filter app_convert rs"
| "given_by (OpDefaultRules unix) = default_rules unix"
| "given_by _ = []"

text \<open>
  The invariant: the rule list is what all rules given so far reduce to, the snapshot is the one
  of the present rules and settings, and the verdict cache is well formed.
\<close>

definition published :: "SplitTunnelManager \<Rightarrow> ruleSnapshot \<Rightarrow> bool" where
  "published m s \<longleftrightarrow> snap_ok (m_rules m) s \<and> s_enabled s = cf_enabled (m_config m) \<and>
     s_byCountry s = m_byCountry m \<and> s_geo s = m_geo m \<and> s_resolve s = m_resolve m \<and> s_cached s = m_cached m"

definition stm_ok :: "SplitTunnelRule list \<Rightarrow> SplitTunnelManager \<Rightarrow> bool" where
  "stm_ok given m \<longleftrightarrow> m_rules m = rule_list given \<and> (\<forall>s. m_snap m = Some s \<longrightarrow> published m s) \<and> vc_ok (m_verdicts m)"

lemma published_frame [simp]:
  "published (m\<lparr>m_verdicts := v\<rparr>) s = published m s" "published (m\<lparr>m_pending := p\<rparr>) s = published m s"
  "published (m\<lparr>m_snap := x\<rparr>) s = published m s"
  by (simp_all add: published_def)

lemma publish_total:
  "\<exists>s. publishLocked m = Some (m\<lparr>m_snap := Some s\<rparr>) \<and> published m s"
  using snapshot_of_total [of m] by (auto simp: publishLocked_def published_def)

lemma publish_ok:
  assumes "m_rules m = rule_list given" "vc_ok (m_verdicts m)"
  obtains m' where "publishLocked m = Some m'" "stm_ok given m'" "m_verdicts m' = m_verdicts m"
proof -
  obtain s where s: "publishLocked m = Some (m\<lparr>m_snap := Some s\<rparr>)" "published m s"
    using publish_total by blast
  then have "published (m\<lparr>m_snap := Some s\<rparr>) s" by (simp add: published_def)
  then show thesis using that [OF s(1)] assms by (simp add: stm_ok_def)
qed

lemma add_rules_ok:
  assumes "m_rules m = rule_list given" "vc_ok (m_verdicts m)"
  obtains m' where "add_rules rs m = Some m'" "stm_ok (given @ rs) m'" "m_verdicts m' = m_verdicts m"
proof -
  let ?m = "m\<lparr>m_rules := unique_rules {} (sortRulesByPriority (m_rules m @ rs))\<rparr>"
  have "m_rules ?m = rule_list (given @ rs)"
    using assms(1) rule_list_append [of given rs] by (simp add: rule_list_def)
  then obtain m' where "publishLocked ?m = Some m'" "stm_ok (given @ rs) m'" "m_verdicts m' = m_verdicts ?m"
    using publish_ok [of ?m] assms(2) by auto
  then show thesis using that by (simp add: add_rules_def recompileLocked_def)
qed

lemma stm_okD: "stm_ok given m \<Longrightarrow> m_rules m = rule_list given \<and> vc_ok (m_verdicts m)"
  by (simp add: stm_ok_def)

lemma AddRule_ok:
  assumes "stm_ok given m"
  obtains m' where "AddRule unix r m = Some m'" "stm_ok (given @ [stamped unix r]) m'"
  using add_rules_ok [of m given "[stamped unix r]"] stm_okD [OF assms] unfolding AddRule_def stamped_def by metis

lemma stm_ok_reset: "stm_ok given m \<Longrightarrow> stm_ok given (m\<lparr>m_verdicts := vc_reset (m_verdicts m)\<rparr>)"
  using vc_ok_reset by (simp add: stm_ok_def)

lemma CreateDefaultRules_ok:
  assumes "stm_ok given m"
  obtains m' where "CreateDefaultRules unix m = Some m'" "stm_ok (given @ default_rules unix) m'"
proof -
  let ?a = "default_rule ''192.168.0.0/16'' ''Local network (192.168.x.x)''"
  let ?b = "default_rule ''10.0.0.0/8'' ''Local network (10.x.x.x)''"
  let ?c = "default_rule ''172.16.0.0/12'' ''Local network (172.16-31.x.x)''"
  let ?d = "default_rule ''127.0.0.0/8'' ''Localhost''"
  obtain m1 where 1: "AddRule unix ?a m = Some m1" "stm_ok (given @ [stamped unix ?a]) m1"
    by (rule AddRule_ok [OF assms])
  obtain m2 where 2: "AddRule unix ?b m1 = Some m2" "stm_ok ((given @ [stamped unix ?a]) @ [stamped unix ?b]) m2"
    by (rule AddRule_ok [OF 1(2)])
  obtain m3 where 3: "AddRule unix ?c m2 = Some m3" "stm_ok (((given @ [stamped unix ?a]) @ [stamped unix ?b]) @ [stamped unix ?c]) m3"
    by (rule AddRule_ok [OF 2(2)])
  obtain m4 where 4: "AddRule unix ?d m3 = Some m4"
      "stm_ok ((((given @ [stamped unix ?a]) @ [stamped unix ?b]) @ [stamped unix ?c]) @ [stamped unix ?d]) m4"
    by (rule AddRule_ok [OF 3(2)])
  have "(((given @ [stamped unix ?a]) @ [stamped unix ?b]) @ [stamped unix ?c]) @ [stamped unix ?d] = given @ default_rules unix"
    by (simp add: default_rules_def)
  with 4(2) have "stm_ok (given @ default_rules unix) m4" by (simp only:)
  moreover have "CreateDefaultRules unix m = Some m4"
    unfolding CreateDefaultRules_def 1(1) 2(1) 3(1) 4(1) bind.bind_lunit ..
  ultimately show thesis using that by blast
qed

text \<open>The part of the manager a decision may change: the verdicts and the set of pending hosts.\<close>

definition same_rules :: "SplitTunnelManager \<Rightarrow> SplitTunnelManager \<Rightarrow> bool" where
  "same_rules m m' \<longleftrightarrow> m' = m\<lparr>m_verdicts := m_verdicts m', m_pending := m_pending m'\<rparr> \<and> (vc_ok (m_verdicts m) \<longrightarrow> vc_ok (m_verdicts m'))"

lemma same_rules_refl [simp]: "same_rules m m"
  by (simp add: same_rules_def)

lemma byCountryVerdict_same: "byCountryVerdict now gs s h m = (m', b, st) \<Longrightarrow> same_rules m m'"
  by (auto simp: byCountryVerdict_def recordCountry_def learnInBackground_def Let_def same_rules_def vc_ok_put
      split: if_splits option.splits)

lemma stm_ok_same: "stm_ok given m \<Longrightarrow> same_rules m m' \<Longrightarrow> stm_ok given m'"
proof -
  assume ok: "stm_ok given m" and s: "same_rules m m'"
  have e: "m' = m\<lparr>m_verdicts := m_verdicts m', m_pending := m_pending m'\<rparr>" and v: "vc_ok (m_verdicts m')"
    using ok s by (auto simp: same_rules_def stm_ok_def)
  show "stm_ok given m'" by (subst e) (use ok v in \<open>simp add: stm_ok_def\<close>)
qed

lemma loaded_published: "stm_ok given m \<Longrightarrow> loaded m = Some s \<Longrightarrow> published m s \<and> m_rules m = rule_list given \<and> s_enabled s"
  by (auto simp: loaded_def stm_ok_def split: option.splits if_splits)

lemma BypassDecision_ok:
  assumes "stm_ok given m"
  shows "\<exists>m' d c. BypassDecision now gs addr m = Some (m', d, c) \<and> stm_ok given m'"
proof (cases "loaded m")
  case None
  then show ?thesis using assms by (simp add: BypassDecision_def) blast
next
  case (Some s)
  then have s: "snap_ok (m_rules m) s" using loaded_published [OF assms] unfolding published_def by blast
  show ?thesis
  proof (cases "if looksLikeIP addr then ParseIP addr else None")
    case None
    obtain m' b st where v: "byCountryVerdict now gs s (to_lower (trim_suffix addr ''.'')) m = (m', b, st)"
      using prod_cases3 by blast
    have "stm_ok given m'" using stm_ok_same [OF assms byCountryVerdict_same [OF v]] .
    then show ?thesis using Some None v assms
      by (cases "first_idx (host_matches (to_lower (trim_suffix addr ''.''))) (m_rules m)";
          simp add: BypassDecision_def bypassHostReason_snapshot [OF s] Let_def; blast)
  next
    case (Some ip)
    have "To16 ip = Some ip" using Some ParseIP_length by (auto simp: To16_def split: if_splits)
    then show ?thesis using \<open>loaded m = Some s\<close> Some assms bypassIP_snapshot [OF s]
      by (simp add: BypassDecision_def) blast
  qed
qed

lemma st_apply_ok:
  assumes ok: "stm_ok given m"
  shows "\<exists>m'. st_apply x m = Some m' \<and> stm_ok (given @ given_by x) m'"
proof (cases x)
  case (OpAddRule unix r)
  then show ?thesis using AddRule_ok [OF ok, of unix r] by auto
next
  case (OpLoadConfig f)
  show ?thesis
  proof (cases "f = None \<or> f = Some None")
    case True
    then show ?thesis using OpLoadConfig ok by (auto simp: LoadConfig_def)
  next
    case False
    then obtain c where f: "f = Some (Some c)" by (metis option.exhaust)
    let ?cfg = "let cfg = m_config m;
        cfg = (if cf_mode c \<noteq> [] then cfg\<lparr>cf_mode := cf_mode c\<rparr> else cfg)
      in if cf_default_action c \<noteq> [] then cfg\<lparr>cf_default_action := cf_default_action c\<rparr> else cfg"
    obtain m' where "add_rules (cf_rules c) (m\<lparr>m_config := ?cfg\<rparr>) = Some m'" "stm_ok (given @ cf_rules c) m'"
      using add_rules_ok [of "m\<lparr>m_config := ?cfg\<rparr>" given "cf_rules c"] stm_okD [OF ok] by auto
    then show ?thesis using OpLoadConfig f by (simp add: LoadConfig_def Let_def)
  qed
next
  case (OpLoadAppRules d)
  show ?thesis
  proof (cases "d = None \<or> d = Some None")
    case True
    then show ?thesis using OpLoadAppRules ok by (auto simp: LoadAppRules_def)
  next
    case False
    then obtain rs where d: "d = Some (Some rs)" by (metis option.exhaust)
    obtain m' where "add_rules (List.map_filter app_convert rs) (m\<lparr>m_byCountry := app_byCountry rs\<rparr>) = Some m'"
        "stm_ok (given @ List.map_filter app_convert rs) m'"
      using add_rules_ok [of "m\<lparr>m_byCountry := app_byCountry rs\<rparr>" given "List.map_filter app_convert rs"] stm_okD [OF ok] by auto
    then show ?thesis using OpLoadAppRules d stm_ok_reset by (simp add: LoadAppRules_def)
  qed
next
  case (OpDefaultRules unix)
  then show ?thesis using CreateDefaultRules_ok [OF ok, of unix] by auto
next
  case (OpSetMode s)
  then show ?thesis using ok by (auto simp: SetMode_def stm_ok_def published_def)
next
  case (OpSetEnabled b)
  then show ?thesis using publish_ok [of "m\<lparr>m_config := (m_config m)\<lparr>cf_enabled := b\<rparr>\<rparr>" given] stm_okD [OF ok]
    by (auto simp: SetEnabled_def)
next
  case (OpSetGeoIP g)
  then show ?thesis using publish_ok [of "m\<lparr>m_geo := g\<rparr>" given] stm_okD [OF ok] by (auto simp: SetGeoIP_def)
next
  case (OpSetCachedResolver f)
  then show ?thesis using publish_ok [of "m\<lparr>m_cached := f\<rparr>" given] stm_okD [OF ok] by (auto simp: SetCachedResolver_def)
next
  case (OpSetResolver f)
  obtain m' where "publishLocked (m\<lparr>m_resolve := f\<rparr>) = Some m'" "stm_ok given m'"
    using publish_ok [of "m\<lparr>m_resolve := f\<rparr>" given] stm_okD [OF ok] by auto
  then show ?thesis using OpSetResolver stm_ok_reset by (simp add: SetResolver_def)
next
  case (OpDecide now gs addr)
  obtain m' d c where "BypassDecision now gs addr m = Some (m', d, c)" "stm_ok given m'"
    using BypassDecision_ok [OF ok] by blast
  then show ?thesis using OpDecide by simp
qed

lemma stm_ok_new: "stm_ok [] NewSplitTunnelManager"
  using vc_ok_new by (simp add: stm_ok_def NewSplitTunnelManager_def rule_list_def sortRulesByPriority_def)

lemma st_run_ok: "stm_ok given m \<Longrightarrow> \<exists>m'. st_run xs m = Some m' \<and> stm_ok (given @ concat (map given_by xs)) m'"
proof (induction xs arbitrary: given m)
  case (Cons x xs)
  obtain m1 where "st_apply x m = Some m1" "stm_ok (given @ given_by x) m1"
    using st_apply_ok [OF Cons.prems] by blast
  with Cons.IH [of "given @ given_by x" m1] show ?case by simp
qed simp

text \<open>
  C18: no sequence of calls panics, and the rules in force are at all times what sorting every rule
  given so far by priority, older first, and keeping the first of each kind and value gives. No
  two rules in force have the same kind and value, and the verdict cache stays within its bound.
\<close>

theorem split_rules_refine:
  "\<exists>m. st_run ops NewSplitTunnelManager = Some m \<and>
     m_rules m = rule_list (concat (map given_by ops)) \<and>
     sorted_wrt (\<lambda>a b. ru_priority a \<ge> ru_priority b) (m_rules m) \<and> distinct (map keyOf (m_rules m)) \<and>
     vc_len (m_verdicts m) \<le> verdictMax"
proof -
  obtain m where m: "st_run ops NewSplitTunnelManager = Some m" "stm_ok (concat (map given_by ops)) m"
    using st_run_ok [OF stm_ok_new] by fastforce
  then show ?thesis using stm_okD [OF m(2)] vc_len_bound unique_rules_keys sorted_unique_rules [OF sorted_sortRules]
    by (auto simp: rule_list_def)
qed

lemma run_published:
  assumes "st_run ops NewSplitTunnelManager = Some m" "m_snap m \<noteq> None" "isEnabled m"
  obtains s where "loaded m = Some s" "published m s" "m_rules m = rule_list (concat (map given_by ops))"
proof -
  have ok: "stm_ok (concat (map given_by ops)) m" using st_run_ok [OF stm_ok_new, of ops] assms(1) by simp
  obtain s where s: "m_snap m = Some s" using assms(2) by auto
  then have "published m s" using ok by (simp add: stm_ok_def)
  then show thesis using that [of s] s ok assms(3) by (simp add: loaded_def published_def isEnabled_def stm_ok_def)
qed

text \<open>
  C17: for a destination given by name, the hash maps, the walk over parent domains and the keyword
  list decide as the first matching rule in force: the highest priority, the oldest among equals. When
  no rule matches, the answer is the country verdict and is reported as such.
\<close>

theorem bypass_by_name:
  assumes "st_run ops NewSplitTunnelManager = Some m" "m_snap m \<noteq> None" "isEnabled m"
    and "\<not> looksLikeIP addr \<or> ParseIP addr = None"
  shows "\<exists>m' d c. BypassDecision now gs addr m = Some (m', d, c) \<and>
    (case first_idx (host_matches (to_lower (trim_suffix addr ''.''))) (rule_list (concat (map given_by ops))) of
       Some i \<Rightarrow> m' = m \<and> d = (ru_action (rule_list (concat (map given_by ops)) ! i) = ''direct'') \<and> \<not> c
     | None \<Rightarrow> c \<and> (\<exists>s st. m_snap m = Some s \<and> byCountryVerdict now gs s (to_lower (trim_suffix addr ''.'')) m = (m', d, st)))"
proof -
  obtain s where s: "loaded m = Some s" "published m s" and r: "m_rules m = rule_list (concat (map given_by ops))"
    by (rule run_published [OF assms(1-3)])
  have ok: "snap_ok (m_rules m) s" using s(2) by (simp add: published_def)
  have snap: "m_snap m = Some s" using s(1) by (auto simp: loaded_def split: option.splits if_splits)
  obtain m' b st where "byCountryVerdict now gs s (to_lower (trim_suffix addr ''.'')) m = (m', b, st)"
    using prod_cases3 by blast
  moreover have "(if looksLikeIP addr then ParseIP addr else None) = None" using assms(4) by auto
  ultimately show ?thesis using s(1) snap unfolding r [symmetric]
    by (auto simp: BypassDecision_def bypassHostReason_snapshot [OF ok] Let_def split: option.split)
qed

text \<open>
  C16: for a destination address, the binary search in the flattened ranges decides as the first
  rule in force that names the address or a network that holds it, and as the country list when
  there is none.
\<close>

theorem bypass_by_address:
  assumes "st_run ops NewSplitTunnelManager = Some m" "m_snap m \<noteq> None" "isEnabled m"
    and ip: "ParseIP addr = Some ip"
  shows "ShouldBypassByIP gs addr m =
      Some (case first_idx (ip_matches ip) (rule_list (concat (map given_by ops))) of
         Some i \<Rightarrow> ru_action (rule_list (concat (map given_by ops)) ! i) = ''direct''
       | None \<Rightarrow> m_byCountry m \<and> (case m_geo m of None \<Rightarrow> False | Some g \<Rightarrow> geo_Contains (gs g) ip)) \<and>
    (looksLikeIP addr \<longrightarrow> ShouldBypass now gs addr m = map_option (Pair m) (ShouldBypassByIP gs addr m))"
proof -
  obtain s where s: "loaded m = Some s" "published m s" and r: "m_rules m = rule_list (concat (map given_by ops))"
    by (rule run_published [OF assms(1-3)])
  have ok: "snap_ok (m_rules m) s" and g: "s_geo s = m_geo m" "s_byCountry s = m_byCountry m" using s(2) by (simp_all add: published_def)
  have "To16 ip = Some ip" using ParseIP_length [OF ip] by (simp add: To16_def)
  note by_rule = bypassIP_snapshot [OF ok this, unfolded g]
  show ?thesis
    unfolding r [symmetric] using ip s(1) by (simp add: ShouldBypassByIP_def ShouldBypass_def by_rule)
qed

definition demo_rule :: "string \<Rightarrow> string \<Rightarrow> SplitTunnelRule" where
  "demo_rule kind value = \<lparr>ru_type = kind, ru_value = value, ru_action = ''direct'', ru_description = [], ru_enabled = True,
     ru_priority = 1, ru_created = 0, ru_modified = 0\<rparr>"

definition demo_ops :: "string \<Rightarrow> string \<Rightarrow> st_op list" where
  "demo_ops kind value = [OpAddRule 0 (demo_rule kind value), OpSetEnabled True]"

lemma demo_given: "rule_list (concat (map given_by (demo_ops kind value))) = [demo_rule kind value]"
  by (simp add: demo_ops_def rule_list_def sortRulesByPriority_def stamped_def demo_rule_def)

lemma demo_run:
  "\<exists>m. st_run (demo_ops kind value) NewSplitTunnelManager = Some m \<and> m_snap m \<noteq> None \<and> isEnabled m \<and>
     m_verdicts m = newVerdictCache \<and> m_geo m = None"
proof -
  let ?r = "(demo_rule kind value)\<lparr>ru_created := 0, ru_modified := 0\<rparr>"
  let ?m = "NewSplitTunnelManager\<lparr>m_rules := unique_rules {} (sortRulesByPriority [?r])\<rparr>"
  obtain s where "publishLocked ?m = Some (?m\<lparr>m_snap := Some s\<rparr>)" using publish_total by blast
  then have 1: "AddRule 0 (demo_rule kind value) NewSplitTunnelManager = Some (?m\<lparr>m_snap := Some s\<rparr>)"
    by (simp add: AddRule_def add_rules_def recompileLocked_def NewSplitTunnelManager_def)
  let ?n = "?m\<lparr>m_snap := Some s, m_config := (m_config ?m)\<lparr>cf_enabled := True\<rparr>\<rparr>"
  obtain t where "publishLocked ?n = Some (?n\<lparr>m_snap := Some t\<rparr>)" using publish_total by blast
  then show ?thesis using 1 by (simp add: demo_ops_def isEnabled_def SetEnabled_def NewSplitTunnelManager_def)
qed

lemma vc_get_new: "vc_get newVerdictCache h = None"
  using vshards.idx_less [of h] by (simp add: vc_get_def sh_get_def newVerdictCache_def)

lemmas lower_eval = to_lower_def to_lower_char_def trim_suffix_def trim_prefix_def has_suffix_def less_eq_char_def Let_def

theorem bypass_by_name_witness:
  "\<exists>m. st_run (demo_ops ''domain'' ''*.example.org'') NewSplitTunnelManager = Some m \<and>
     BypassDecision 0 (\<lambda>_. NewGeoIPSet) ''www.example.org'' m = Some (m, True, False)"
proof -
  obtain m where m: "st_run (demo_ops ''domain'' ''*.example.org'') NewSplitTunnelManager = Some m" "m_snap m \<noteq> None" "isEnabled m"
    using demo_run by blast
  have h: "\<not> looksLikeIP ''www.example.org''" by code_simp
  have f: "first_idx (host_matches (to_lower (trim_suffix ''www.example.org'' ''.''))) [demo_rule ''domain'' ''*.example.org''] = Some 0"
    by (simp add: host_matches_def demo_rule_def lower_eval)
  have d: "ru_action ([demo_rule ''domain'' ''*.example.org''] ! 0) = ''direct''" by (simp add: demo_rule_def)
  have "BypassDecision 0 (\<lambda>_. NewGeoIPSet) ''www.example.org'' m = Some (m, True, False)"
    using bypass_by_name [OF m disjI1 [OF h], of 0 "\<lambda>_. NewGeoIPSet", unfolded demo_given f option.case d] by auto
  with m(1) show ?thesis by blast
qed

theorem bypass_by_address_witness:
  "\<exists>m. st_run (demo_ops ''ip'' ''10.0.0.0/8'') NewSplitTunnelManager = Some m \<and>
     ShouldBypass 0 (\<lambda>_. NewGeoIPSet) ''10.1.2.3'' m = Some (m, True)"
proof -
  obtain m where m: "st_run (demo_ops ''ip'' ''10.0.0.0/8'') NewSplitTunnelManager = Some m" "m_snap m \<noteq> None" "isEnabled m"
    using demo_run by blast
  have l: "looksLikeIP ''10.1.2.3''" by code_simp
  have ip: "ParseIP ''10.1.2.3'' = Some (v4InV6Prefix @ [10, 1, 2, 3])"
    by (simp add: ParseIP_def parse_eval)
  have "same_prefix 104 (v4InV6Prefix @ [10, 0, 0, 0]) (v4InV6Prefix @ [10, 1, 2, 3])"
    unfolding same_prefix_def by code_simp
  then have f: "first_idx (ip_matches (v4InV6Prefix @ [10, 1, 2, 3])) [demo_rule ''ip'' ''10.0.0.0/8''] = Some 0"
    by (simp add: ip_matches_def demo_rule_def geo_demo_ranges)
  have "ru_action ([demo_rule ''ip'' ''10.0.0.0/8''] ! 0) = ''direct''" by (simp add: demo_rule_def)
  then show ?thesis
    using bypass_by_address [OF m ip, of "\<lambda>_. NewGeoIPSet" 0, unfolded demo_given f option.case] l m(1) by simp
qed


section \<open>One lookup per host\<close>

fun learning :: "st_action \<Rightarrow> string option" where
  "learning (Decide _ _ _ _ _ _) = None"
| "learning (Learn _ _ _ _ h) = Some h"
| "learning (Unpend h) = Some h"

definition is_pending :: "SplitTunnelManager \<Rightarrow> string \<Rightarrow> bool" where
  "is_pending m h \<longleftrightarrow> (case m_pending m of None \<Rightarrow> False | Some p \<Rightarrow> gm_get p h = Some True)"

definition lookups :: "string \<Rightarrow> st_action multiset \<Rightarrow> nat" where
  "lookups h M = size (filter_mset (\<lambda>a. learning a = Some h) M)"

definition single_inv :: "SplitTunnelManager \<Rightarrow> st_action multiset \<Rightarrow> bool" where
  "single_inv m M \<longleftrightarrow> (\<forall>h. lookups h M = (if is_pending m h then 1 else 0))"

lemma lookups_add [simp]:
  "lookups h (add_mset a M) = (if learning a = Some h then Suc (lookups h M) else lookups h M)" "lookups h {#} = 0"
  by (simp_all add: lookups_def)

lemma byCountryVerdict_pending:
  assumes "byCountryVerdict now gs s h m = (m', b, started)"
  shows "is_pending m' h' = (is_pending m h' \<or> started \<and> h' = h) \<and> (started \<longrightarrow> \<not> is_pending m h)"
  using assms
  by (auto simp: byCountryVerdict_def recordCountry_def learnInBackground_def Let_def is_pending_def
      split: if_splits option.splits)

interpretation learners: atomic_invariant st_exec st_entry single_inv
proof
  fix a m M assume "st_entry a" "single_inv m M"
  then show "single_inv m (add_mset a M)" by (cases a) (simp_all add: single_inv_def)
next
  fix a m m' fs M assume e: "st_exec a m = (m', fs)" and i: "single_inv m (add_mset a M)"
  show "single_inv m' (mset fs + M)"
  proof (cases a)
    case (Decide now gs snap h later gs')
    obtain m1 b st where v: "byCountryVerdict now gs snap h m = (m1, b, st)" using prod_cases3 by blast
    then have "m' = m1" "fs = (if st then [Learn later gs' (the (s_geo snap)) (the (s_resolve snap)) h] else [])"
      using e Decide by auto
    then show ?thesis using i Decide byCountryVerdict_pending [OF v] by (auto simp: single_inv_def)
  next
    case (Learn now gs g f h)
    then have "fs = [Unpend h]" "\<And>h'. is_pending m' h' = is_pending m h'"
      using e by (auto simp: is_pending_def recordCountry_def Let_def split: option.splits)
    then show ?thesis using i Learn by (simp add: single_inv_def)
  next
    case (Unpend h)
    then have "fs = []" "\<And>h'. is_pending m' h' = (is_pending m h' \<and> h' \<noteq> h)"
      using e by (auto simp: is_pending_def unpend_def split: option.splits if_splits)
    moreover have "lookups h' M = (if is_pending m h' \<and> h' \<noteq> h then 1 else 0)" for h'
      using i unfolding single_inv_def Unpend by (elim allE [of _ h']) (auto split: if_splits)
    ultimately show ?thesis by (simp add: single_inv_def)
  qed
qed

text \<open>
  C19: however the decisions and the background lookups interleave, a host has at most one lookup
  under way, the pending set holds exactly the hosts with one, and once all goroutines have
  finished no host is left pending: a later decision can start a lookup for it again.
\<close>

theorem learn_single_flight:
  assumes "treach st_exec st_entry NewSplitTunnelManager m ts"
  shows "lookups h (mset (concat ts)) = (if is_pending m h then 1 else 0) \<and>
    (concat ts = [] \<longrightarrow> \<not> is_pending m h)"
proof -
  have "single_inv NewSplitTunnelManager {#}"
    by (simp add: single_inv_def is_pending_def NewSplitTunnelManager_def)
  from learners.inv_reach [OF assms this]
  have n: "lookups h (mset (concat ts)) = (if is_pending m h then 1 else 0)" by (simp add: single_inv_def)
  moreover have "\<not> is_pending m h" if "concat ts = []"
    using n unfolding that mset.simps lookups_add(2) by (simp split: if_splits)
  ultimately show ?thesis by blast
qed

definition demo_snap :: ruleSnapshot where
  "demo_snap = \<lparr>s_enabled = True, s_byCountry = True, s_geo = Some 0, s_resolve = Some (\<lambda>_. None), s_cached = None,
     s_suffix = [], s_exact = [], s_keyword = [], s_ranges = [], s_direct = []\<rparr>"

definition demo_geo :: geo_store where
  "demo_geo = (\<lambda>_. \<lparr>geo_ranges = Some [\<lparr>r_lo = [], r_hi = []\<rparr>], geo_etag = []\<rparr>)"

theorem learn_single_flight_witness:
  "\<exists>m ts. treach st_exec st_entry NewSplitTunnelManager m ts \<and> is_pending m ''a'' \<and> lookups ''a'' (mset (concat ts)) = 1"
proof -
  let ?d = "Decide 0 demo_geo demo_snap ''a'' 1 demo_geo"
  let ?m = "NewSplitTunnelManager\<lparr>m_pending := Some [(''a'', True)]\<rparr>"
  let ?l = "Learn 1 demo_geo 0 (\<lambda>_. None) ''a''"
  have "st_exec ?d NewSplitTunnelManager = (?m, [?l])"
    using vc_get_new by (simp add: byCountryVerdict_def learnInBackground_def demo_snap_def demo_geo_def geo_Len_def
        NewSplitTunnelManager_def gm_put_def Let_def)
  then have "tstep st_exec st_entry (NewSplitTunnelManager, [] @ (?d # []) # []) (?m, [] @ ([?l] @ []) # [])"
    by (rule tstep.run)
  moreover have "tstep st_exec st_entry (NewSplitTunnelManager, []) (NewSplitTunnelManager, [[?d]])"
    by (rule tstep.spawn) simp
  ultimately have r: "treach st_exec st_entry NewSplitTunnelManager ?m [[?l]]" by simp
  have p: "is_pending ?m ''a''" by (simp add: is_pending_def gm_get_def)
  show ?thesis using learn_single_flight [OF r, of "''a''"] r p by (intro exI [of _ ?m] exI [of _ "[[?l]]"]) simp
qed

end
