(* ===== verification/GoCodec.thy ===== *)
theory GoCodec
  imports GoStrings
begin

text \<open>
  \<^verbatim>\<open>encoding/base64\<close> (the URL alphabet without padding) and \<^verbatim>\<open>encoding/hex\<close> as the program uses
  them, and the bytes of a string. The decoder is the lenient one of the Go library: it skips
  carriage returns and newlines and ignores the unused bits of the last character.
\<close>

definition bytes_of :: "string \<Rightarrow> bytes" where "bytes_of s = map (\<lambda>c. of_nat (of_char c)) s"
definition string_of :: "bytes \<Rightarrow> string" where "string_of bs = map (\<lambda>b. char_of (unat b)) bs"

lemma string_of_bytes_of [simp]: "string_of (bytes_of s) = s"
proof -
  have "char_of (unat (of_nat (of_char c) :: byte)) = c" for c
  proof -
    have "of_char c < (256::nat)" by (rule nat_of_char_less_256)
    then have "unat (of_nat (of_char c) :: byte) = of_char c" by (simp add: unat_of_nat)
    then show ?thesis by simp
  qed
  then show ?thesis by (simp add: string_of_def bytes_of_def o_def)
qed

lemma length_bytes_of [simp]: "length (bytes_of s) = length s" "length (string_of bs) = length bs"
  by (simp_all add: bytes_of_def string_of_def)

section \<open>Base64\<close>

definition encodeURL :: string where
  "encodeURL = ''ABCDEFGHIJKLMNOPQRSTUVWXYZabcdefghijklmnopqrstuvwxyz0123456789-_''"

text \<open>The six-bit groups of a byte string, the last one filled with zero bits.\<close>

fun b64_groups :: "bytes \<Rightarrow> nat list" where
  "b64_groups [] = []"
| "b64_groups [a] = [unat a div 4, unat a mod 4 * 16]"
| "b64_groups [a, b] = [unat a div 4, unat a mod 4 * 16 + unat b div 16, unat b mod 16 * 4]"
| "b64_groups (a # b # c # r) =
     [unat a div 4, unat a mod 4 * 16 + unat b div 16, unat b mod 16 * 4 + unat c div 64, unat c mod 64] @ b64_groups r"

definition b64url_encode :: "bytes \<Rightarrow> string" where
  "b64url_encode bs = map (\<lambda>n. encodeURL ! n) (b64_groups bs)"

fun b64_bytes :: "nat list \<Rightarrow> bytes option" where
  "b64_bytes [] = Some []"
| "b64_bytes [p] = None"
| "b64_bytes [p, q] = Some [of_nat (p * 4 + q div 16)]"
| "b64_bytes [p, q, r] = Some [of_nat (p * 4 + q div 16), of_nat (q mod 16 * 16 + r div 4)]"
| "b64_bytes (p # q # r # s # t) =
     map_option (\<lambda>bs. of_nat (p * 4 + q div 16) # of_nat (q mod 16 * 16 + r div 4) # of_nat (r mod 4 * 64 + s) # bs) (b64_bytes t)"

definition is_newline :: "char \<Rightarrow> bool" where
  "is_newline c \<longleftrightarrow> c = CHR 0x0A \<or> c = CHR 0x0D"

definition b64url_decode :: "string \<Rightarrow> bytes option" where
  "b64url_decode s = Option.bind (those (map (index_byte encodeURL) (filter (\<lambda>c. \<not> is_newline c) s))) b64_bytes"

lemma index_byte_nth: "distinct xs \<Longrightarrow> i < length xs \<Longrightarrow> index_byte xs (xs ! i) = Some i"
  by (auto simp: index_byte_Some nth_eq_iff_index_eq)

lemma distinct_encodeURL: "distinct encodeURL" "length encodeURL = 64" "\<forall>c \<in> set encodeURL. \<not> is_newline c"
  by (simp_all add: encodeURL_def is_newline_def)

lemma unat_byte_less: "unat (a :: byte) < 256"
proof -
  have "unat a < 2 ^ LENGTH(8)" by (rule unsigned_less)
  then show ?thesis by simp
qed

lemma bytes_of_string_of [simp]: "bytes_of (string_of bs) = bs"
proof -
  have "(of_nat (of_char (char_of (unat b) :: char)) :: byte) = b" for b :: byte
    using unat_byte_less [of b] by (simp add: of_char_of)
  then show ?thesis by (simp add: bytes_of_def string_of_def o_def)
qed

lemma b64_groups_less: "n \<in> set (b64_groups bs) \<Longrightarrow> n < 64"
proof (induction bs rule: b64_groups.induct)
  case (2 a)
  then show ?case using unat_byte_less [of a] by auto
next
  case (3 a b)
  then show ?case using unat_byte_less [of a] unat_byte_less [of b] by auto
next
  case (4 a b c r)
  then show ?case using unat_byte_less [of a] unat_byte_less [of b] unat_byte_less [of c] by auto
qed simp

lemma mult_add_div_mod: "0 < k \<Longrightarrow> (x * k + y) div k = x + y div k" "0 < k \<Longrightarrow> (x * k + y) mod k = y mod (k::nat)"
  by simp_all

lemma b64_arith:
  "(a::nat) div 4 * 4 + (a mod 4 * 16 + b div 16) div 16 = a + b div 256"
  "b < 256 \<Longrightarrow> (a mod 4 * 16 + b div 16) mod 16 * 16 + (b mod 16 * 4 + c div 64) div 4 = b + c div 256"
  "c < 256 \<Longrightarrow> (b mod 16 * 4 + c div 64) mod 4 * 64 + c mod 64 = c"
proof -
  have d: "x div 16 div 16 = x div 256" "x div 64 div 4 = x div 256" for x :: nat
    by (simp_all add: div_mult2_eq [symmetric])
  have "a div 4 * 4 + (a mod 4 * 16 + b div 16) div 16 = (a div 4 * 4 + a mod 4) + b div 256"
    by (simp only: mult_add_div_mod [of 16] zero_less_numeral d add.assoc)
  then show "a div 4 * 4 + (a mod 4 * 16 + b div 16) div 16 = a + b div 256" by (simp only: div_mult_mod_eq)
  show "(a mod 4 * 16 + b div 16) mod 16 * 16 + (b mod 16 * 4 + c div 64) div 4 = b + c div 256" if "b < 256"
  proof -
    have "b div 16 < 16" using that by (simp add: less_mult_imp_div_less)
    then have "b div 16 mod 16 = b div 16" by (rule mod_less)
    then have "(a mod 4 * 16 + b div 16) mod 16 * 16 + (b mod 16 * 4 + c div 64) div 4 = (b div 16 * 16 + b mod 16) + c div 256"
      by (simp only: mult_add_div_mod [of 16] mult_add_div_mod [of 4] zero_less_numeral d add.assoc)
    then show ?thesis by (simp only: div_mult_mod_eq)
  qed
  show "(b mod 16 * 4 + c div 64) mod 4 * 64 + c mod 64 = c" if "c < 256"
  proof -
    have "c div 64 < 4" using that by (simp add: less_mult_imp_div_less)
    then have "c div 64 mod 4 = c div 64" by (rule mod_less)
    then show ?thesis by (simp only: mult_add_div_mod [of 4] zero_less_numeral div_mult_mod_eq)
  qed
qed

lemma b64_bytes_groups: "b64_bytes (b64_groups bs) = Some bs"
proof (induction bs rule: b64_groups.induct)
  case (2 a)
  then show ?case using b64_arith(1) [of "unat a" 0] by simp
next
  case (3 a b)
  then show ?case using unat_byte_less [of b] b64_arith(1) [of "unat a" "unat b"] b64_arith(2) [of "unat b" "unat a" 0] by simp
next
  case (4 a b c r)
  then show ?case using unat_byte_less [of b] unat_byte_less [of c] b64_arith(1) [of "unat a" "unat b"]
      b64_arith(2) [of "unat b" "unat a" "unat c"] b64_arith(3) [of "unat c" "unat b"] by simp
qed simp

lemma those_map_Some: "(\<And>x. x \<in> set xs \<Longrightarrow> f x = Some (g x)) \<Longrightarrow> those (map f xs) = Some (map g xs)"
  by (induction xs) auto

lemma b64url_roundtrip: "b64url_decode (b64url_encode bs) = Some bs"
proof -
  let ?s = "map (\<lambda>n. encodeURL ! n) (b64_groups bs)"
  have "filter (\<lambda>c. \<not> is_newline c) ?s = ?s"
    using b64_groups_less distinct_encodeURL(2,3) by (auto simp: filter_id_conv)
  moreover have "those (map (\<lambda>n. index_byte encodeURL (encodeURL ! n)) (b64_groups bs)) = Some (map id (b64_groups bs))"
    by (rule those_map_Some) (simp add: index_byte_nth b64_groups_less distinct_encodeURL)
  ultimately show ?thesis by (simp add: b64url_decode_def b64url_encode_def o_def b64_bytes_groups)
qed

text \<open>The decoder does not see newlines: a string has many spellings.\<close>

lemma b64url_decode_newline: "b64url_decode (s @ [CHR 0x0A]) = b64url_decode s"
  by (simp add: b64url_decode_def is_newline_def)

lemma length_b64_groups: "length (b64_groups bs) = (length bs * 4 + 2) div 3"
  by (induction bs rule: b64_groups.induct) (auto simp: algebra_simps)

lemma length_b64url_encode: "length (b64url_encode bs) = (length bs * 4 + 2) div 3"
  by (simp add: b64url_encode_def length_b64_groups)

section \<open>Hexadecimal\<close>

definition hextable :: string where "hextable = ''0123456789abcdef''"

definition hex_encode :: "bytes \<Rightarrow> string" where
  "hex_encode bs = concat (map (\<lambda>b. [hextable ! (unat b div 16), hextable ! (unat b mod 16)]) bs)"

definition hex_digit :: "char \<Rightarrow> nat option" where
  "hex_digit c = (case index_byte hextable c of Some n \<Rightarrow> Some n | None \<Rightarrow> index_byte ''0123456789ABCDEF'' c)"

fun hex_decode :: "string \<Rightarrow> bytes option" where
  "hex_decode [] = Some []"
| "hex_decode [c] = None"
| "hex_decode (c # d # s) =
     (case (hex_digit c, hex_digit d) of
        (Some x, Some y) \<Rightarrow> map_option (\<lambda>bs. of_nat (x * 16 + y) # bs) (hex_decode s)
      | _ \<Rightarrow> None)"

lemma hex_digit_nth: "n < 16 \<Longrightarrow> hex_digit (hextable ! n) = Some n"
  using index_byte_nth [of hextable n] by (simp add: hex_digit_def hextable_def)

lemma hex_roundtrip: "hex_decode (hex_encode bs) = Some bs"
proof (induction bs)
  case (Cons b bs)
  have "unat b div 16 < 16" using unat_byte_less [of b] by (simp add: less_mult_imp_div_less)
  moreover have "unat b div 16 * 16 + unat b mod 16 = unat b" by (rule div_mult_mod_eq)
  then have "(of_nat (unat b div 16 * 16 + unat b mod 16) :: byte) = b" by simp
  ultimately show ?case using Cons hex_digit_nth [of "unat b div 16"] hex_digit_nth [of "unat b mod 16"]
    unfolding hex_encode_def by (simp del: of_nat_add of_nat_mult)
qed (simp add: hex_encode_def)

end
