(* ===== verification/TokenSet.thy ===== *)
theory TokenSet
  imports Sharded
begin

text \<open>
  \<^verbatim>\<open>core/protocol/tokenset.go\<close>: the tokens seen in the replay window, in sixteen shards. Times are
  Unix seconds. The specification keeps the whole history of accepted tokens.
\<close>

definition tokenSeenShardCount :: nat where "tokenSeenShardCount = 16"
definition tokenSeenShardCleanupThreshold :: nat where "tokenSeenShardCleanupThreshold = 1000 div tokenSeenShardCount"
definition authWindowSeconds :: int where "authWindowSeconds = 30"
definition authWindowTolerance :: int where "authWindowTolerance = 1"
definition replayWindowSeconds :: int where "replayWindowSeconds = (2 * authWindowTolerance + 1) * authWindowSeconds"

record tokenSeenSet =
  ts_once :: bool
  ts_shards :: "(string, int) shards"

definition new_seen :: tokenSeenSet where
  "new_seen = \<lparr>ts_once = False, ts_shards = []\<rparr>"

definition seen_init :: "tokenSeenSet \<Rightarrow> tokenSeenSet" where
  "seen_init s = (if ts_once s then s else \<lparr>ts_once = True, ts_shards = replicate tokenSeenShardCount []\<rparr>)"

definition tokenShardIndex :: "string \<Rightarrow> nat" where
  "tokenShardIndex token = unat (fnv1a token mod 16)"

definition drop_expired :: "int \<Rightarrow> (string, int) gomap \<Rightarrow> (string, int) gomap" where
  "drop_expired now m = filter (\<lambda>(k, t). \<not> now - t \<ge> replayWindowSeconds) m"

definition consume :: "string \<Rightarrow> int \<Rightarrow> tokenSeenSet \<Rightarrow> tokenSeenSet \<times> bool" where
  "consume token now s =
     (let s = seen_init s; i = tokenShardIndex token; seen = ts_shards s ! i in
      if (case gm_get seen token of Some t \<Rightarrow> now - t < replayWindowSeconds | None \<Rightarrow> False) then (s, False)
      else
        let seen = gm_put token now seen;
            seen = (if length seen > tokenSeenShardCleanupThreshold then drop_expired now seen else seen)
        in (s\<lparr>ts_shards := (ts_shards s)[i := seen]\<rparr>, True))"

definition seen_sweep :: "int \<Rightarrow> tokenSeenSet \<Rightarrow> tokenSeenSet" where
  "seen_sweep now s = (let s = seen_init s in s\<lparr>ts_shards := map (drop_expired now) (ts_shards s)\<rparr>)"

text \<open>Any sequence of uses, and the answers they get.\<close>

datatype seen_op = Consume string int | Sweep int

fun op_time :: "seen_op \<Rightarrow> int" where
  "op_time (Consume _ t) = t"
| "op_time (Sweep t) = t"

fun seen_run :: "seen_op list \<Rightarrow> tokenSeenSet \<Rightarrow> bool list" where
  "seen_run [] s = []"
| "seen_run (Consume k now # xs) s = (let (s, ok) = consume k now s in ok # seen_run xs s)"
| "seen_run (Sweep now # xs) s = seen_run xs (seen_sweep now s)"

section \<open>Specification\<close>

text \<open>A token is fresh when none of its accepted uses lies within the replay window.\<close>

definition fresh :: "(string \<times> int) list \<Rightarrow> string \<Rightarrow> int \<Rightarrow> bool" where
  "fresh uses k now \<longleftrightarrow> (\<forall>t. (k, t) \<in> set uses \<longrightarrow> now - t \<ge> replayWindowSeconds)"

fun spec_run :: "seen_op list \<Rightarrow> (string \<times> int) list \<Rightarrow> bool list" where
  "spec_run [] uses = []"
| "spec_run (Consume k now # xs) uses = fresh uses k now # spec_run xs (if fresh uses k now then (k, now) # uses else uses)"
| "spec_run (Sweep now # xs) uses = spec_run xs uses"

interpretation tokens: sharded tokenSeenShardCount tokenShardIndex
proof
  fix k show "tokenShardIndex k < tokenSeenShardCount"
    using unat_mod_word [of 16 "fnv1a k"] by (simp add: tokenShardIndex_def tokenSeenShardCount_def)
qed

text \<open>
  The relation between the shards and the history at a time \<open>now\<close>: an entry is the last accepted
  use of its token, and a token without an entry has no use within the window.
\<close>

definition seen_rel :: "int \<Rightarrow> tokenSeenSet \<Rightarrow> (string \<times> int) list \<Rightarrow> bool" where
  "seen_rel now s uses \<longleftrightarrow> sh_ok tokenSeenShardCount tokenShardIndex (ts_shards (seen_init s)) \<and>
     (\<forall>k t. sh_get tokenShardIndex (ts_shards (seen_init s)) k = Some t \<longrightarrow>
        (k, t) \<in> set uses \<and> (\<forall>t'. (k, t') \<in> set uses \<longrightarrow> t' \<le> t)) \<and>
     (\<forall>k. sh_get tokenShardIndex (ts_shards (seen_init s)) k = None \<longrightarrow> fresh uses k now)"

lemma fresh_later: "fresh uses k now \<Longrightarrow> now \<le> now' \<Longrightarrow> fresh uses k now'"
  unfolding fresh_def by (metis diff_right_mono order_trans)

lemma seen_rel_later: "seen_rel now s uses \<Longrightarrow> now \<le> now' \<Longrightarrow> seen_rel now' s uses"
  using fresh_later unfolding seen_rel_def by blast

lemma seen_rel_entry:
  assumes "seen_rel now s uses"
  shows "sh_get tokenShardIndex (ts_shards (seen_init s)) k = Some t \<Longrightarrow> (k, t) \<in> set uses \<and> (\<forall>t'. (k, t') \<in> set uses \<longrightarrow> t' \<le> t)"
    "sh_get tokenShardIndex (ts_shards (seen_init s)) k = None \<Longrightarrow> fresh uses k now"
  using assms unfolding seen_rel_def by blast+

lemma seen_init_once [simp]: "ts_once (seen_init s)" "seen_init (seen_init s) = seen_init s"
  "ts_once s \<Longrightarrow> seen_init s = s"
  by (simp_all add: seen_init_def)

lemma fresh_entry:
  assumes "seen_rel now s uses"
  shows "fresh uses k now \<longleftrightarrow>
    (case sh_get tokenShardIndex (ts_shards (seen_init s)) k of Some t \<Rightarrow> now - t \<ge> replayWindowSeconds | None \<Rightarrow> True)"
proof (cases "sh_get tokenShardIndex (ts_shards (seen_init s)) k")
  case None
  then show ?thesis using seen_rel_entry(2) [OF assms] by simp
next
  case (Some t)
  then show ?thesis using seen_rel_entry(1) [OF assms Some] by (fastforce simp: fresh_def)
qed

lemma drop_expired:
  "gm_ok m \<Longrightarrow> gm_ok (drop_expired now m)" "set (drop_expired now m) \<subseteq> set m"
  "gm_ok m \<Longrightarrow> gm_get (drop_expired now m) k =
     (case gm_get m k of Some t \<Rightarrow> if now - t \<ge> replayWindowSeconds then None else Some t | None \<Rightarrow> None)"
  by (auto simp: drop_expired_def gm_get_filter split: option.split)

text \<open>Dropping expired entries keeps the relation.\<close>

lemma seen_rel_drop:
  assumes r: "seen_rel now s uses" and ok: "sh_ok tokenSeenShardCount tokenShardIndex c"
    and get: "\<And>k. sh_get tokenShardIndex c k = sh_get tokenShardIndex (ts_shards (seen_init s)) k \<or>
      sh_get tokenShardIndex c k = None \<and> (\<exists>t. sh_get tokenShardIndex (ts_shards (seen_init s)) k = Some t \<and> now - t \<ge> replayWindowSeconds)"
  shows "seen_rel now \<lparr>ts_once = True, ts_shards = c\<rparr> uses"
proof -
  let ?c' = "ts_shards (seen_init s)"
  have "(k, t) \<in> set uses \<and> (\<forall>t'. (k, t') \<in> set uses \<longrightarrow> t' \<le> t)" if "sh_get tokenShardIndex c k = Some t" for k t
    using that get [of k] seen_rel_entry(1) [OF r, of k t] by auto
  moreover have "fresh uses k now" if "sh_get tokenShardIndex c k = None" for k
    using that get [of k] fresh_entry [OF r, of k] by auto
  ultimately show ?thesis using ok by (simp add: seen_rel_def)
qed

lemma seen_rel_sweep:
  assumes r: "seen_rel now s uses"
  shows "seen_rel now (seen_sweep now s) uses"
proof -
  let ?c = "ts_shards (seen_init s)"
  have ok: "sh_ok tokenSeenShardCount tokenShardIndex ?c" using r by (simp add: seen_rel_def)
  have s: "seen_sweep now s = \<lparr>ts_once = True, ts_shards = map (drop_expired now) ?c\<rparr>"
    by (simp add: seen_sweep_def seen_init_def)
  have g: "sh_get tokenShardIndex (map (drop_expired now) ?c) k =
      (case sh_get tokenShardIndex ?c k of Some t \<Rightarrow> if now - t \<ge> replayWindowSeconds then None else Some t | None \<Rightarrow> None)" for k
    unfolding tokens.get_map [OF sh_okD(1) [OF ok]] drop_expired(3) [OF tokens.ok_shard [OF ok]] by (simp add: sh_get_def)
  show ?thesis unfolding s
  proof (rule seen_rel_drop [OF r])
    show "sh_ok tokenSeenShardCount tokenShardIndex (map (drop_expired now) ?c)"
      using ok drop_expired(1,2) by (rule tokens.ok_map)
    show "sh_get tokenShardIndex (map (drop_expired now) ?c) k = sh_get tokenShardIndex ?c k \<or>
      sh_get tokenShardIndex (map (drop_expired now) ?c) k = None \<and>
      (\<exists>t. sh_get tokenShardIndex ?c k = Some t \<and> now - t \<ge> replayWindowSeconds)" for k
      unfolding g by (cases "sh_get tokenShardIndex ?c k") auto
  qed
qed

lemma consume_rel:
  assumes r: "seen_rel now s uses" and le: "\<And>k t. (k, t) \<in> set uses \<Longrightarrow> t \<le> now" and c: "consume k now s = (s', ok)"
  shows "ok = fresh uses k now" "seen_rel now s' (if ok then (k, now) # uses else uses)"
proof -
  let ?c = "ts_shards (seen_init s)" let ?i = "tokenShardIndex k"
  have sh: "sh_ok tokenSeenShardCount tokenShardIndex ?c" using r by (simp add: seen_rel_def)
  have refuse: "(case gm_get (?c ! ?i) k of Some t \<Rightarrow> now - t < replayWindowSeconds | None \<Rightarrow> False) \<longleftrightarrow> \<not> fresh uses k now"
    using fresh_entry [OF r, of k] by (auto simp: sh_get_def split: option.split)
  show ok: "ok = fresh uses k now" using c refuse by (auto simp: consume_def Let_def split: if_splits)
  show "seen_rel now s' (if ok then (k, now) # uses else uses)"
  proof (cases ok)
    case False
    then have "s' = seen_init s" using c refuse ok by (auto simp: consume_def Let_def split: if_splits)
    then show ?thesis using r False by (simp add: seen_rel_def)
  next
    case True
    let ?f = "\<lambda>m. if length (gm_put k now m) > tokenSeenShardCleanupThreshold then drop_expired now (gm_put k now m) else gm_put k now m"
    have s': "s' = (seen_init s)\<lparr>ts_shards := sh_update ?i ?f ?c\<rparr>"
      using c refuse ok True by (auto simp: consume_def Let_def sh_update_def split: if_splits)
    then have i': "ts_shards (seen_init s') = sh_update ?i ?f ?c" by (simp add: seen_init_def)
    have g: "gm_ok (gm_put k now (?c ! ?i))" using tokens.ok_shard [OF sh] by simp
    have get: "sh_get tokenShardIndex (sh_update ?i ?f ?c) j =
        (if j = k then Some now else sh_get tokenShardIndex ?c j) \<or>
        sh_get tokenShardIndex (sh_update ?i ?f ?c) j = None \<and> j \<noteq> k \<and>
          (\<exists>t. sh_get tokenShardIndex ?c j = Some t \<and> now - t \<ge> replayWindowSeconds)" for j
      using drop_expired(3) [OF g, of now j] tokens.get_update [OF sh_okD(1) [OF sh], of k ?f j]
      by (auto simp: sh_get_def replayWindowSeconds_def authWindowSeconds_def authWindowTolerance_def split: option.splits)
    have "fst ` set (?f (?c ! ?i)) \<subseteq> insert k (fst ` set (?c ! ?i))"
      using drop_expired(2) [of now "gm_put k now (?c ! ?i)"] image_mono [OF drop_expired(2) [of now "gm_put k now (?c ! ?i)"], of fst] fst_set_gm_put [of k now "?c ! ?i"]
      by (cases "length (gm_put k now (?c ! ?i)) > tokenSeenShardCleanupThreshold") simp_all
    then have "sh_ok tokenSeenShardCount tokenShardIndex (sh_update ?i ?f ?c)"
      by (rule tokens.ok_update [where f = ?f, OF sh, rotated]) (use g drop_expired(1) [OF g] in simp)
    moreover have "(j, t) \<in> set ((k, now) # uses) \<and> (\<forall>t'. (j, t') \<in> set ((k, now) # uses) \<longrightarrow> t' \<le> t)"
      if "sh_get tokenShardIndex (sh_update ?i ?f ?c) j = Some t" for j t
      using that get [of j] seen_rel_entry(1) [OF r, of j t] le by (cases "j = k") auto
    moreover have "fresh ((k, now) # uses) j now" if "sh_get tokenShardIndex (sh_update ?i ?f ?c) j = None" for j
      using that get [of j] fresh_entry [OF r, of j] by (cases "j = k") (auto simp: fresh_def split: if_splits)
    ultimately show ?thesis using True unfolding seen_rel_def i' by simp
  qed
qed

lemma seen_run_rel:
  assumes "seen_rel now s uses" "\<And>k t. (k, t) \<in> set uses \<Longrightarrow> t \<le> now" "sorted (now # map op_time xs)"
  shows "seen_run xs s = spec_run xs uses"
  using assms
proof (induction xs arbitrary: now s uses)
  case (Cons x xs)
  show ?case
  proof (cases x)
    case (Consume k t)
    then have le: "now \<le> t" and srt: "sorted (t # map op_time xs)" using Cons.prems(3) by auto
    obtain s' ok where c: "consume k t s = (s', ok)" by fastforce
    have r: "seen_rel t s uses" using seen_rel_later [OF Cons.prems(1) le] .
    have u: "\<And>k t'. (k, t') \<in> set uses \<Longrightarrow> t' \<le> t" using Cons.prems(2) le by fastforce
    note cr = consume_rel [OF r u c]
    have "seen_run xs s' = spec_run xs (if ok then (k, t) # uses else uses)"
      by (rule Cons.IH [OF cr(2) _ srt]) (use u in \<open>auto split: if_splits\<close>)
    then show ?thesis using Consume c cr(1) by simp
  next
    case (Sweep t)
    then have le: "now \<le> t" and srt: "sorted (t # map op_time xs)" using Cons.prems(3) by auto
    have u: "\<And>k t'. (k, t') \<in> set uses \<Longrightarrow> t' \<le> t" using Cons.prems(2) le by fastforce
    show ?thesis
      using Cons.IH [OF seen_rel_sweep [OF seen_rel_later [OF Cons.prems(1) le]] u srt] Sweep by simp
  qed
qed simp

lemma seen_rel_new: "seen_rel now new_seen []"
  using tokens.ok_empty tokens.idx_less
  by (simp add: seen_rel_def new_seen_def seen_init_def sh_get_def fresh_def)

text \<open>
  C24: while the clock does not run backwards, the sharded set with its clean-ups answers every
  request as the history of accepted tokens would: a token is accepted exactly when its last
  accepted use is at least a replay window ago.
\<close>

theorem tokens_refine:
  assumes "sorted (map op_time ops)"
  shows "seen_run ops new_seen = spec_run ops []"
proof (cases ops)
  case (Cons x xs)
  then show ?thesis using seen_run_rel [OF seen_rel_new, of "op_time x" ops] assms by simp
qed simp

theorem tokens_refine_witness:
  "seen_run [Consume ''a'' 100, Consume ''a'' 150, Sweep 190, Consume ''a'' 190] new_seen = [True, False, True]"
  using tokens_refine [of "[Consume ''a'' 100, Consume ''a'' 150, Sweep 190, Consume ''a'' 190]"]
  by (simp add: fresh_def replayWindowSeconds_def authWindowSeconds_def authWindowTolerance_def)

end
