(* ===== verification/Auth.thy ===== *)
theory Auth
  imports GoCodec TokenSet
begin

text \<open>
  Authentication of the server (\<^verbatim>\<open>core/protocol\<close>: \<^verbatim>\<open>pathgen.go\<close>, \<^verbatim>\<open>crypto.go\<close>, \<^verbatim>\<open>config.go\<close>, the
  admission part of \<^verbatim>\<open>listener.go\<close> and the preamble of \<^verbatim>\<open>client.go\<close>): a token is an HMAC over a
  half-minute window and the session, it is checked against every registered key and the windows
  around the present one, and it is consumed once. The cryptographic functions and the LRU
  cache of \<^verbatim>\<open>golang-lru\<close> are parameters. Times are Unix seconds.
\<close>

section \<open>Parameters\<close>

text \<open>HMAC-SHA256 of a message under a key; HKDF-SHA256 of a secret for a purpose.\<close>

record crypto =
  HMAC :: "bytes \<Rightarrow> bytes \<Rightarrow> bytes"
  HKDF :: "bytes \<Rightarrow> string \<Rightarrow> bytes"

record knownUser =
  k_id :: string
  k_psk :: bytes

text \<open>The cache of users: adding an entry, and looking one up, which also changes the order.\<close>

record 'c lru =
  lru_Add :: "bytes \<Rightarrow> knownUser \<Rightarrow> 'c \<Rightarrow> 'c"
  lru_Get :: "bytes \<Rightarrow> 'c \<Rightarrow> knownUser option \<times> 'c"

section \<open>Tokens\<close>

definition clockDriftProbeWindows :: int where "clockDriftProbeWindows = 10"

definition auth_message :: "int \<Rightarrow> bytes \<Rightarrow> bytes" where
  "auth_message window sessionID = put64 (word_of_int window) @ sessionID"

definition AuthToken :: "crypto \<Rightarrow> bytes \<Rightarrow> int \<Rightarrow> bytes \<Rightarrow> string" where
  "AuthToken cr authKey window sessionID = b64url_encode (HMAC cr authKey (auth_message window sessionID))"

definition ClientAuthToken :: "crypto \<Rightarrow> int \<Rightarrow> bytes \<Rightarrow> bytes \<Rightarrow> string" where
  "ClientAuthToken cr now authKey sessionID = AuthToken cr authKey (now div authWindowSeconds) sessionID"

definition macMatches :: "crypto \<Rightarrow> bytes \<Rightarrow> int \<Rightarrow> bytes \<Rightarrow> bytes \<Rightarrow> bool" where
  "macMatches cr authKey window sessionID want = (HMAC cr authKey (auth_message window sessionID) = want)"

definition VerifyAuthTokenRaw :: "crypto \<Rightarrow> int \<Rightarrow> bytes \<Rightarrow> bytes \<Rightarrow> bytes \<Rightarrow> bool" where
  "VerifyAuthTokenRaw cr now authKey raw sessionID =
     (length raw = 32 \<and>
      (let w = now div authWindowSeconds in
       list_ex (\<lambda>candidate. macMatches cr authKey candidate sessionID raw) [w - authWindowTolerance .. w + authWindowTolerance]))"

definition VerifyAuthToken :: "crypto \<Rightarrow> int \<Rightarrow> bytes \<Rightarrow> string \<Rightarrow> bytes \<Rightarrow> bool" where
  "VerifyAuthToken cr now authKey token sessionID =
     (case b64url_decode token of None \<Rightarrow> False | Some raw \<Rightarrow> VerifyAuthTokenRaw cr now authKey raw sessionID)"

text \<open>The probe for a wrong clock: the nearest window outside the tolerance that matches.\<close>

definition probe_offset :: "crypto \<Rightarrow> int \<Rightarrow> bytes \<Rightarrow> bytes \<Rightarrow> bytes \<Rightarrow> int \<Rightarrow> int option" where
  "probe_offset cr w authKey raw sessionID offset =
     (if macMatches cr authKey (w + offset) sessionID raw then Some offset
      else if macMatches cr authKey (w - offset) sessionID raw then Some (- offset) else None)"

definition ProbeClockDrift :: "crypto \<Rightarrow> int \<Rightarrow> bytes \<Rightarrow> string \<Rightarrow> bytes \<Rightarrow> int option" where
  "ProbeClockDrift cr now authKey token sessionID =
     (case b64url_decode token of None \<Rightarrow> None
      | Some raw \<Rightarrow>
          if length raw \<noteq> 32 then None
          else let w = now div authWindowSeconds in
            fold (\<lambda>offset found. case found of Some d \<Rightarrow> Some d | None \<Rightarrow> probe_offset cr w authKey raw sessionID offset)
              [authWindowTolerance + 1 .. clockDriftProbeWindows] None)"

text \<open>\<^verbatim>\<open>DeriveKeys\<close>: the cache in front of it holds the same value.\<close>

definition DeriveKeys :: "crypto \<Rightarrow> bytes \<Rightarrow> bytes" where
  "DeriveKeys cr sharedSecret = HKDF cr sharedSecret ''whispera-auth-v1''"

section \<open>Resolving a token to a key\<close>

record UserEntry =
  ue_UserID :: string
  ue_PSK :: bytes

text \<open>The shared secret and what \<^verbatim>\<open>GetUsers\<close> returns now (\<open>None\<close> when it is not set).\<close>

record ServerConfig =
  sc_SharedSecret :: bytes
  sc_users :: "UserEntry list option"
  sc_OnConn :: bool

record 'c sessionRegistry =
  seenTokens :: tokenSeenSet
  users :: 'c
  lastDriftProbe :: int

definition driftProbeInterval :: int where "driftProbeInterval = 60"

fun verify_users :: "crypto \<Rightarrow> int \<Rightarrow> bytes \<Rightarrow> bytes \<Rightarrow> UserEntry list \<Rightarrow> (bytes \<times> string) option" where
  "verify_users cr now raw sessionID [] = None"
| "verify_users cr now raw sessionID (u # us) =
     (if length (ue_PSK u) \<noteq> 32 then verify_users cr now raw sessionID us
      else if VerifyAuthTokenRaw cr now (DeriveKeys cr (ue_PSK u)) raw sessionID then Some (ue_PSK u, ue_UserID u)
      else verify_users cr now raw sessionID us)"

fun drift_users :: "crypto \<Rightarrow> int \<Rightarrow> string \<Rightarrow> bytes \<Rightarrow> UserEntry list \<Rightarrow> (string \<times> int) option" where
  "drift_users cr now token sessionID [] = None"
| "drift_users cr now token sessionID (u # us) =
     (if length (ue_PSK u) \<noteq> 32 then drift_users cr now token sessionID us
      else case ProbeClockDrift cr now (DeriveKeys cr (ue_PSK u)) token sessionID of
        Some d \<Rightarrow> Some (ue_UserID u, d) | None \<Rightarrow> drift_users cr now token sessionID us)"

text \<open>The warning about a client's clock, at most one a minute: the user and the drift it names.\<close>

definition probeClockDriftOnFailure ::
  "crypto \<Rightarrow> ServerConfig \<Rightarrow> int \<Rightarrow> string \<Rightarrow> bytes \<Rightarrow> 'c sessionRegistry \<Rightarrow> 'c sessionRegistry \<times> (string \<times> int) option" where
  "probeClockDriftOnFailure cr cfg now token sessionID r =
     (if now - lastDriftProbe r < driftProbeInterval then (r, None)
      else
        let r = r\<lparr>lastDriftProbe := now\<rparr> in
        case (if length (sc_SharedSecret cfg) = 32 then ProbeClockDrift cr now (DeriveKeys cr (sc_SharedSecret cfg)) token sessionID
              else None) of
          Some d \<Rightarrow> (r, Some (''default'', d))
        | None \<Rightarrow>
            (case sc_users cfg of None \<Rightarrow> (r, None) | Some us \<Rightarrow> (r, drift_users cr now token sessionID us)))"

definition resolveSecret ::
  "crypto \<Rightarrow> ServerConfig \<Rightarrow> int \<Rightarrow> string \<Rightarrow> bytes \<Rightarrow> 'c sessionRegistry \<Rightarrow> 'c sessionRegistry \<times> (bytes \<times> string) option" where
  "resolveSecret cr cfg now token sessionID r =
     (case b64url_decode token of None \<Rightarrow> (r, None)
      | Some raw \<Rightarrow>
          if length raw \<noteq> 32 then (r, None)
          else if length (sc_SharedSecret cfg) = 32 \<and> VerifyAuthTokenRaw cr now (DeriveKeys cr (sc_SharedSecret cfg)) raw sessionID
          then (r, Some (sc_SharedSecret cfg, ''default''))
          else case sc_users cfg of None \<Rightarrow> (r, None)
            | Some us \<Rightarrow>
                (case verify_users cr now raw sessionID us of
                   Some su \<Rightarrow> (r, Some su)
                 | None \<Rightarrow> (fst (probeClockDriftOnFailure cr cfg now token sessionID r), None)))"

definition resolveSecretFor ::
  "crypto \<Rightarrow> ServerConfig \<Rightarrow> int \<Rightarrow> knownUser \<Rightarrow> string \<Rightarrow> bytes \<Rightarrow> 'c sessionRegistry \<Rightarrow> 'c sessionRegistry \<times> (bytes \<times> string) option" where
  "resolveSecretFor cr cfg now known token sessionID r =
     (if length (k_psk known) = 32 \<and> VerifyAuthToken cr now (DeriveKeys cr (k_psk known)) token sessionID
      then (r, Some (k_psk known, k_id known))
      else resolveSecret cr cfg now token sessionID r)"

definition rememberUser :: "'c lru \<Rightarrow> bytes \<Rightarrow> knownUser \<Rightarrow> 'c sessionRegistry \<Rightarrow> 'c sessionRegistry" where
  "rememberUser l sessionID u r =
     (if length (k_psk u) \<noteq> 32 \<or> length sessionID = 0 then r else r\<lparr>users := lru_Add l sessionID u (users r)\<rparr>)"


definition consumeToken :: "string \<Rightarrow> int \<Rightarrow> 'c sessionRegistry \<Rightarrow> 'c sessionRegistry \<times> bool" where
  "consumeToken token now r = (let (s, ok) = consume token now (seenTokens r) in (r\<lparr>seenTokens := s\<rparr>, ok))"

section \<open>Admission\<close>

text \<open>An accepted connection: the user, the session and the key; or why it was turned away.\<close>

record AcceptedConn =
  ac_UserID :: string
  ac_SessionID :: bytes
  ac_Secret :: bytes

datatype admission = Rejected string | Accepted AcceptedConn

text \<open>The second half of \<^verbatim>\<open>handlePerflowConn\<close>: the session and the token are read, \<open>bs\<close> is still to come.\<close>

definition perflow_admit ::
  "crypto \<Rightarrow> 'c lru \<Rightarrow> ServerConfig \<Rightarrow> int \<Rightarrow> knownUser \<Rightarrow> bytes \<Rightarrow> string \<Rightarrow> bytes \<Rightarrow> 'c sessionRegistry \<Rightarrow>
   'c sessionRegistry \<times> admission \<times> bytes" where
  "perflow_admit cr l cfg now known sessionID tok bs r =
     (case resolveSecretFor cr cfg now known tok sessionID r of
        (r, None) \<Rightarrow> (r, Rejected ''unknown_token'', bs)
      | (r, Some (secret, userID)) \<Rightarrow>
          let r = rememberUser l sessionID \<lparr>k_id = userID, k_psk = secret\<rparr> r;
              (r, ok) = consumeToken tok now r in
          if \<not> ok then (r, Rejected ''token_replayed'', bs)
          else if \<not> sc_OnConn cfg then (r, Rejected ''no_conn_handler'', bs)
          else (r, Accepted \<lparr>ac_UserID = userID, ac_SessionID = sessionID, ac_Secret = secret\<rparr>, bs))"

text \<open>
  \<^verbatim>\<open>handlePerflowConn\<close> after the magic byte, on the bytes the peer sends; the rest of the bytes is
  what the accepted connection goes on with.
\<close>

definition handlePerflowConn ::
  "crypto \<Rightarrow> 'c lru \<Rightarrow> ServerConfig \<Rightarrow> int \<Rightarrow> knownUser \<Rightarrow> bytes \<Rightarrow> 'c sessionRegistry \<Rightarrow> 'c sessionRegistry \<times> admission \<times> bytes" where
  "handlePerflowConn cr l cfg now known bs r =
     (case read_full 16 bs of (Inl _, bs) \<Rightarrow> (r, Rejected ''session_id'', bs)
      | (Inr sessionID, bs) \<Rightarrow>
     (case read_full 2 bs of (Inl _, bs) \<Rightarrow> (r, Rejected ''token_length'', bs)
      | (Inr lb, bs) \<Rightarrow>
     (let tokLen = get16 (lb ! 0) (lb ! 1) in
      if tokLen = 0 \<or> tokLen > 512 then (r, Rejected ''token_length_out_of_range'', bs) else
     (case read_full (unat tokLen) bs of (Inl _, bs) \<Rightarrow> (r, Rejected ''token'', bs)
      | (Inr tok, bs) \<Rightarrow>
     perflow_admit cr l cfg now known sessionID (string_of tok) bs r))))"

text \<open>What the per-flow listener does with a connection.\<close>

datatype route = ToHTTP bytes | Closed | Perflow admission bytes

definition perflowMagic :: byte where "perflowMagic = 0xE7"

definition classify ::
  "crypto \<Rightarrow> 'c lru \<Rightarrow> ServerConfig \<Rightarrow> int \<Rightarrow> bool \<Rightarrow> knownUser \<Rightarrow> bytes \<Rightarrow> 'c sessionRegistry \<Rightarrow> 'c sessionRegistry \<times> route" where
  "classify cr l cfg now decoy known bs r =
     (if decoy then (r, ToHTTP bs)
      else case read_full 1 bs of (Inl _, _) \<Rightarrow> (r, Closed)
        | (Inr first, rest) \<Rightarrow>
            if first ! 0 = perflowMagic
            then let (r, a, rest) = handlePerflowConn cr l cfg now known rest r in (r, Perflow a rest)
            else (r, ToHTTP (first @ rest)))"




text \<open>The client's side: the preamble of a per-flow connection.\<close>

definition client_preamble :: "bytes \<Rightarrow> string \<Rightarrow> bytes" where
  "client_preamble sessionID token = [perflowMagic] @ sessionID @ put16 (of_nat (length token)) @ bytes_of token"

lemma chunk_shorter: "16 < n \<Longrightarrow> n - nat (8 + x mod (int n - 8)) < n"
proof -
  assume "16 < n"
  then have "0 \<le> x mod (int n - 8)" by (intro pos_mod_sign) simp
  then have "8 \<le> nat (8 + x mod (int n - 8))" by linarith
  then show ?thesis using \<open>16 < n\<close> by linarith
qed

text \<open>It is written in pieces of random length, none shorter than eight bytes but the last.\<close>

function preamble_chunks :: "rng \<Rightarrow> bytes \<Rightarrow> bytes list" where
  "preamble_chunks g pre =
     (if pre = [] then []
      else let n = int (length pre);
               (n, g) = (if n > 16 then let (d, g) = rng_intn g (n - 8) in (8 + d, g) else (n, g))
           in take (nat n) pre # preamble_chunks g (drop (nat n) pre))"
  by pat_completeness auto
termination
  by (relation "measure (\<lambda>(g, pre). length pre)") (auto simp: rng_intn_def Let_def chunk_shorter split: if_splits prod.splits)

declare preamble_chunks.simps [simp del]

section \<open>What verification means\<close>

lemma VerifyAuthTokenRaw_iff:
  "VerifyAuthTokenRaw cr now key raw sid \<longleftrightarrow> length raw = 32 \<and>
     (\<exists>w. \<bar>w - now div authWindowSeconds\<bar> \<le> authWindowTolerance \<and> raw = HMAC cr key (auth_message w sid))"
proof -
  have "set [now div authWindowSeconds - authWindowTolerance .. now div authWindowSeconds + authWindowTolerance]
      = {w. \<bar>w - now div authWindowSeconds\<bar> \<le> authWindowTolerance}" by auto
  then show ?thesis by (auto simp: VerifyAuthTokenRaw_def macMatches_def Let_def list_ex_iff)
qed

text \<open>A token a key makes for a session and a window close to the present one.\<close>

definition token_of :: "crypto \<Rightarrow> int \<Rightarrow> bytes \<Rightarrow> string \<Rightarrow> bytes \<Rightarrow> bool" where
  "token_of cr now secret token sid \<longleftrightarrow>
     (\<exists>w. \<bar>w - now div authWindowSeconds\<bar> \<le> authWindowTolerance \<and> length (HMAC cr (DeriveKeys cr secret) (auth_message w sid)) = 32 \<and>
       b64url_decode token = Some (HMAC cr (DeriveKeys cr secret) (auth_message w sid)))"

lemma VerifyAuthToken_iff: "VerifyAuthToken cr now (DeriveKeys cr secret) token sid \<longleftrightarrow> token_of cr now secret token sid"
  by (auto simp: VerifyAuthToken_def VerifyAuthTokenRaw_iff token_of_def split: option.split)

text \<open>A key the server knows, with the name of its user.\<close>

definition registered :: "ServerConfig \<Rightarrow> knownUser \<Rightarrow> bytes \<Rightarrow> string \<Rightarrow> bool" where
  "registered cfg known secret uid \<longleftrightarrow> length secret = 32 \<and>
     (secret = k_psk known \<and> uid = k_id known \<or> secret = sc_SharedSecret cfg \<and> uid = ''default'' \<or>
      (\<exists>us. sc_users cfg = Some us \<and> \<lparr>ue_UserID = uid, ue_PSK = secret\<rparr> \<in> set us))"

lemma verify_users_sound:
  "verify_users cr now raw sid us = Some (secret, uid) \<Longrightarrow>
     \<lparr>ue_UserID = uid, ue_PSK = secret\<rparr> \<in> set us \<and> length secret = 32 \<and> VerifyAuthTokenRaw cr now (DeriveKeys cr secret) raw sid"
proof (induction us)
  case (Cons u us)
  then show ?case by (cases u) (auto split: if_splits)
qed simp

lemma verify_users_some:
  "u \<in> set us \<Longrightarrow> length (ue_PSK u) = 32 \<Longrightarrow> VerifyAuthTokenRaw cr now (DeriveKeys cr (ue_PSK u)) raw sid \<Longrightarrow>
   \<exists>x. verify_users cr now raw sid us = Some x"
  by (induction us) auto

lemma probe_keeps: "seenTokens (fst (probeClockDriftOnFailure cr cfg now token sid r)) = seenTokens r"
  by (auto simp: probeClockDriftOnFailure_def Let_def split: option.split)

lemma resolveSecretFor_keeps: "resolveSecretFor cr cfg now known token sid r = (r', x) \<Longrightarrow> seenTokens r' = seenTokens r"
  by (auto simp: resolveSecretFor_def resolveSecret_def probe_keeps split: if_splits option.splits)

lemma resolveSecretFor_sound:
  "resolveSecretFor cr cfg now known token sid r = (r', Some (secret, uid)) \<Longrightarrow>
     r' = r \<and> registered cfg known secret uid \<and> token_of cr now secret token sid"
  unfolding VerifyAuthToken_iff [symmetric]
  by (auto simp: resolveSecretFor_def resolveSecret_def registered_def VerifyAuthToken_def
      dest: verify_users_sound split: if_splits option.splits)

text \<open>The answer does not depend on the state of the server.\<close>

lemma resolveSecretFor_state:
  "resolveSecretFor cr cfg now known token sid r = (r', Some x) \<Longrightarrow> resolveSecretFor cr cfg now known token sid q = (q, Some x)"
  by (auto simp: resolveSecretFor_def resolveSecret_def split: if_splits option.splits)

lemma rememberUser_keeps [simp]: "seenTokens (rememberUser l sid u r) = seenTokens r"
  by (simp add: rememberUser_def)

section \<open>The preamble\<close>

lemma read_full2: "read_full 2 bs = (Inr lb, r) \<Longrightarrow> bs = put16 (get16 (lb ! 0) (lb ! 1)) @ r"
proof -
  assume "read_full 2 bs = (Inr lb, r)"
  then have "bs = lb @ r" "length lb = 2" using read_full_InrD by blast+
  moreover then obtain a b where "lb = [a, b]" by (auto simp: numeral_2_eq_2 length_Suc_conv)
  ultimately show ?thesis by simp
qed

lemma handlePerflowConn_step:
  assumes "length sid = 16" "0 < length tok" "length tok \<le> 512"
  shows "handlePerflowConn cr l cfg now known (sid @ put16 (of_nat (length tok)) @ bytes_of tok @ rest) r =
    perflow_admit cr l cfg now known sid tok rest r"
proof -
  let ?n = "of_nat (length tok) :: 16 word"
  have u: "unat ?n = length tok" using assms(3) by (simp add: unat_of_nat)
  have g: "get16 (put16 ?n ! 0) (put16 ?n ! Suc 0) = ?n" by (simp add: put16_def)
  have z: "?n \<noteq> 0" using u assms(2) by auto
  have lt: "\<not> ?n > 512" using u assms(3) by (simp add: word_less_nat_alt)
  show ?thesis using assms(1) z lt
    by (simp add: handlePerflowConn_def g u Let_def)
qed

lemma handlePerflowConn_shape:
  assumes "handlePerflowConn cr l cfg now known bs r = (r', adm, rest)" "\<And>s. adm = Rejected s \<Longrightarrow> s = ''token_replayed'' \<or> s = ''no_conn_handler''"
  shows "\<exists>sid tok. bs = sid @ put16 (of_nat (length tok)) @ bytes_of tok @ rest \<and> length sid = 16 \<and> 0 < length tok \<and> length tok \<le> 512"
proof -
  obtain sid b1 where 1: "read_full 16 bs = (Inr sid, b1)"
    using assms by (auto simp: handlePerflowConn_def split: prod.splits sum.splits)
  obtain lb b2 where 2: "read_full 2 b1 = (Inr lb, b2)"
    using assms 1 by (auto simp: handlePerflowConn_def split: prod.splits sum.splits)
  let ?n = "get16 (lb ! 0) (lb ! 1)"
  have n: "?n \<noteq> 0" "\<not> ?n > 512"
    using assms 1 2 by (auto simp: handlePerflowConn_def Let_def split: if_splits)
  obtain tok b3 where 3: "read_full (unat ?n) b2 = (Inr tok, b3)"
    using assms 1 2 n by (auto simp: handlePerflowConn_def Let_def split: prod.splits sum.splits if_splits)
  have r: "rest = b3"
    using assms 1 2 3 n by (auto simp: handlePerflowConn_def perflow_admit_def Let_def split: if_splits option.splits prod.splits)
  note f = read_full_InrD [OF 1] read_full2 [OF 2] read_full_InrD [OF 3]
  have "unat ?n \<le> 512" using n(2) by (simp add: word_less_nat_alt)
  moreover have "0 < unat ?n" using n(1) by (metis gr0I unat_eq_0)
  moreover have "of_nat (length (string_of tok)) = ?n" using f(3) by simp
  ultimately show ?thesis using f r by (intro exI [of _ sid] exI [of _ "string_of tok"]) simp
qed

text \<open>
  C22: a per-flow connection is accepted only for a preamble of a 16-byte session and a token of 1
  to 512 bytes that a registered 32-byte key makes for this session and a window at most one away
  from the server's, and only when the token is not among those seen; acceptance records it.
\<close>

theorem perflow_admission_sound:
  assumes "handlePerflowConn cr l cfg now known bs r = (r', Accepted a, rest)"
  shows "\<exists>tok. bs = ac_SessionID a @ put16 (of_nat (length tok)) @ bytes_of tok @ rest \<and>
    length (ac_SessionID a) = 16 \<and> 0 < length tok \<and> length tok \<le> 512 \<and>
    registered cfg known (ac_Secret a) (ac_UserID a) \<and> token_of cr now (ac_Secret a) tok (ac_SessionID a) \<and>
    consume tok now (seenTokens r) = (seenTokens r', True)"
proof -
  obtain sid tok where bs: "bs = sid @ put16 (of_nat (length tok)) @ bytes_of tok @ rest" "length sid = 16" "0 < length tok" "length tok \<le> 512"
    using handlePerflowConn_shape [OF assms] by auto
  note step = handlePerflowConn_step [OF bs(2-4), of cr l cfg now known rest r, folded bs(1), unfolded perflow_admit_def]
  obtain r1 x where res: "resolveSecretFor cr cfg now known tok sid r = (r1, x)" by fastforce
  obtain secret uid where x: "x = Some (secret, uid)" using assms step res by (cases x) auto
  note sound = resolveSecretFor_sound [OF res [unfolded x]]
  let ?r = "rememberUser l sid \<lparr>k_id = uid, k_psk = secret\<rparr> r"
  obtain r2 ok where c: "consumeToken tok now ?r = (r2, ok)" by fastforce
  have "ok" "r' = r2" "a = \<lparr>ac_UserID = uid, ac_SessionID = sid, ac_Secret = secret\<rparr>"
    using assms step res x sound c by (auto split: if_splits)
  then show ?thesis using bs sound c by (auto simp: consumeToken_def split: prod.splits)
qed

text \<open>
  C25: a token that was accepted can be used again at once under another spelling: the server
  verifies what base64 decoding makes of it but remembers the text, and the decoder skips
  newlines. Whoever has seen an accepted preamble gets a second connection by appending one.
\<close>

theorem perflow_replay_respelled:
  assumes "handlePerflowConn cr l cfg now known (sid @ put16 (of_nat (length tok)) @ bytes_of tok @ rest) r = (r', Accepted a, rest)"
    and "length sid = 16" "0 < length tok" "length tok < 512"
    and unseen: "consume (tok @ [CHR 0x0A]) now (seenTokens r') = (s, True)"
  shows "\<exists>r''. handlePerflowConn cr l cfg now known
      (sid @ put16 (of_nat (length (tok @ [CHR 0x0A]))) @ bytes_of (tok @ [CHR 0x0A]) @ rest) r' = (r'', Accepted a, rest)"
proof -
  have le: "length tok \<le> 512" and t2: "0 < length (tok @ [CHR 0x0A])" "length (tok @ [CHR 0x0A]) \<le> 512" using assms(4) by auto
  note step = handlePerflowConn_step [OF assms(2,3) le, of cr l cfg now known rest r, unfolded perflow_admit_def]
  obtain r1 x where res: "resolveSecretFor cr cfg now known tok sid r = (r1, x)" by fastforce
  obtain secret uid where x: "x = Some (secret, uid)" using assms(1) step res by (cases x) auto
  have r1: "r1 = r" using resolveSecretFor_sound [OF res [unfolded x]] by simp
  obtain r2 ok where c: "consumeToken tok now (rememberUser l sid \<lparr>k_id = uid, k_psk = secret\<rparr> r) = (r2, ok)" by fastforce
  have a: "sc_OnConn cfg" "a = \<lparr>ac_UserID = uid, ac_SessionID = sid, ac_Secret = secret\<rparr>"
    using assms(1) step res x r1 c by (auto split: if_splits)
  have "resolveSecretFor cr cfg now known (tok @ [CHR 0x0A]) sid r' = (r', Some (secret, uid))"
    using resolveSecretFor_state [OF res [unfolded x], of r']
    unfolding resolveSecretFor_def resolveSecret_def VerifyAuthToken_def probeClockDriftOnFailure_def b64url_decode_newline
    by (auto split: if_splits option.splits)
  moreover obtain r3 where "consumeToken (tok @ [CHR 0x0A]) now (rememberUser l sid \<lparr>k_id = uid, k_psk = secret\<rparr> r') = (r3, True)"
    using unseen by (simp add: consumeToken_def)
  ultimately show ?thesis
    unfolding handlePerflowConn_step [OF assms(2) t2] perflow_admit_def using a by simp
qed

section \<open>Client and server together\<close>

lemma concat_preamble_chunks: "concat (preamble_chunks g pre) = pre"
proof (induction g pre rule: preamble_chunks.induct)
  case (1 g pre)
  show ?case
  proof (cases "pre = []")
    case False
    obtain n g' where n: "(if int (length pre) > 16 then let (d, g) = rng_intn g (int (length pre) - 8) in (8 + d, g) else (int (length pre), g)) = (n, g')"
      by fastforce
    have "preamble_chunks g pre = take (nat n) pre # preamble_chunks g' (drop (nat n) pre)"
      using False n by (subst preamble_chunks.simps) (simp add: Let_def)
    then show ?thesis using 1 [OF False refl n [symmetric] refl] by simp
  qed (simp add: preamble_chunks.simps)
qed

lemma verify_users_only:
  assumes "u \<in> set us" "length (ue_PSK u) = 32" "VerifyAuthTokenRaw cr now (DeriveKeys cr (ue_PSK u)) raw sid"
    and only: "\<And>v. v \<in> set us \<Longrightarrow> length (ue_PSK v) = 32 \<Longrightarrow> VerifyAuthTokenRaw cr now (DeriveKeys cr (ue_PSK v)) raw sid \<Longrightarrow> v = u"
  shows "verify_users cr now raw sid us = Some (ue_PSK u, ue_UserID u)"
proof -
  obtain secret uid where x: "verify_users cr now raw sid us = Some (secret, uid)"
    using verify_users_some [OF assms(1-3)] by auto
  from verify_users_sound [OF x] have "\<lparr>ue_UserID = uid, ue_PSK = secret\<rparr> = u" by (intro only) auto
  then show ?thesis using x by auto
qed

lemma client_gets_in:
  fixes r :: "'c sessionRegistry"
  assumes u: "sc_users cfg = Some us" "u \<in> set us" "length (ue_PSK u) = 32"
    and only: "\<And>v. v \<in> set us \<Longrightarrow> length (ue_PSK v) = 32 \<Longrightarrow>
      VerifyAuthToken cr now (DeriveKeys cr (ue_PSK v)) (ClientAuthToken cr client_now (DeriveKeys cr (ue_PSK u)) sid) sid \<Longrightarrow> v = u"
    and alone: "length (k_psk known) \<noteq> 32" "length (sc_SharedSecret cfg) \<noteq> 32"
    and hmac: "\<And>k m. length (HMAC cr k m) = 32"
    and clocks: "\<bar>client_now div authWindowSeconds - now div authWindowSeconds\<bar> \<le> authWindowTolerance"
    and sid: "length sid = 16" and on: "sc_OnConn cfg"
    and fresh: "consume (ClientAuthToken cr client_now (DeriveKeys cr (ue_PSK u)) sid) now (seenTokens r) = (s, True)"
  shows "\<exists>r'. classify cr l cfg now False known
      (concat (preamble_chunks g (client_preamble sid (ClientAuthToken cr client_now (DeriveKeys cr (ue_PSK u)) sid))) @ payload) r =
    (r', Perflow (Accepted \<lparr>ac_UserID = ue_UserID u, ac_SessionID = sid, ac_Secret = ue_PSK u\<rparr>) payload)"
proof -
  let ?w = "client_now div authWindowSeconds"
  let ?raw = "HMAC cr (DeriveKeys cr (ue_PSK u)) (auth_message ?w sid)"
  let ?tok = "ClientAuthToken cr client_now (DeriveKeys cr (ue_PSK u)) sid"
  have tok: "?tok = b64url_encode ?raw" by (simp add: ClientAuthToken_def AuthToken_def)
  have dec: "b64url_decode ?tok = Some ?raw" unfolding tok by (rule b64url_roundtrip)
  have len: "0 < length ?tok" "length ?tok \<le> 512" unfolding tok length_b64url_encode hmac by simp_all
  have v: "VerifyAuthTokenRaw cr now (DeriveKeys cr (ue_PSK u)) ?raw sid"
    unfolding VerifyAuthTokenRaw_iff using hmac clocks by blast
  have "verify_users cr now ?raw sid us = Some (ue_PSK u, ue_UserID u)"
    by (rule verify_users_only [OF u(2,3) v]) (use only dec in \<open>simp add: VerifyAuthToken_def\<close>)
  then have res: "resolveSecretFor cr cfg now known ?tok sid r = (r, Some (ue_PSK u, ue_UserID u))"
    using alone u(1) by (simp add: resolveSecretFor_def resolveSecret_def dec hmac)
  obtain r' where c: "consumeToken ?tok now (rememberUser l sid \<lparr>k_id = ue_UserID u, k_psk = ue_PSK u\<rparr> r) = (r', True)"
    using fresh by (simp add: consumeToken_def)
  have "handlePerflowConn cr l cfg now known (sid @ put16 (of_nat (length ?tok)) @ bytes_of ?tok @ payload) r =
      (r', Accepted \<lparr>ac_UserID = ue_UserID u, ac_SessionID = sid, ac_Secret = ue_PSK u\<rparr>, payload)"
    unfolding handlePerflowConn_step [OF sid len] perflow_admit_def res using c on by simp
  moreover have "read_full 1 (perflowMagic # x) = (Inr [perflowMagic], x)" for x by (simp add: read_full_def)
  ultimately show ?thesis unfolding concat_preamble_chunks by (simp add: classify_def client_preamble_def)
qed


section \<open>Every way in, over time\<close>
















section \<open>Examples\<close>

text \<open>A toy instance of the parameters: the MAC is the window and 24 zero bytes.\<close>

definition demo_crypto :: crypto where
  "demo_crypto = \<lparr>HMAC = (\<lambda>k m. take 8 (m @ replicate 8 0) @ replicate 24 0), HKDF = (\<lambda>s i. s)\<rparr>"

definition demo_lru :: "(bytes \<times> knownUser) list lru" where
  "demo_lru = \<lparr>lru_Add = (\<lambda>k u c. (k, u) # c), lru_Get = (\<lambda>k c. (map_of c k, c))\<rparr>"

definition demo_cfg :: ServerConfig where
  "demo_cfg = \<lparr>sc_SharedSecret = [], sc_users = Some [\<lparr>ue_UserID = ''alice'', ue_PSK = replicate 32 7\<rparr>], sc_OnConn = True\<rparr>"

definition demo_reg :: "(bytes \<times> knownUser) list sessionRegistry" where
  "demo_reg = \<lparr>seenTokens = new_seen, users = [], lastDriftProbe = 0\<rparr>"

abbreviation nobody :: knownUser where "nobody \<equiv> \<lparr>k_id = [], k_psk = []\<rparr>"

definition demo_token :: string where
  "demo_token = ClientAuthToken demo_crypto 3000 (DeriveKeys demo_crypto (replicate 32 7)) (replicate 16 1)"

abbreviation demo_conn :: AcceptedConn where
  "demo_conn \<equiv> \<lparr>ac_UserID = ''alice'', ac_SessionID = replicate 16 1, ac_Secret = replicate 32 7\<rparr>"

lemma demo_hmac: "length (HMAC demo_crypto k m) = 32"
  by (simp add: demo_crypto_def)

lemma consume_unseen: "seen_rel now s uses \<Longrightarrow> \<forall>(k, t) \<in> set uses. t \<le> now \<Longrightarrow> fresh uses tok now \<Longrightarrow>
    \<exists>s'. consume tok now s = (s', True) \<and> seen_rel now s' ((tok, now) # uses)"
  using consume_rel [of now s uses tok] by (cases "consume tok now s") fastforce

lemma consume_new: "\<exists>s. consume tok now new_seen = (s, True) \<and> seen_rel now s [(tok, now)]"
  by (rule consume_unseen [OF seen_rel_new]) (simp_all add: fresh_def)


abbreviation demo_stream :: bytes where
  "demo_stream \<equiv> replicate 16 1 @ put16 (of_nat (length demo_token)) @ bytes_of demo_token @ [42]"

lemma demo_accepted:
  "\<exists>r'. handlePerflowConn demo_crypto demo_lru demo_cfg 3010 nobody demo_stream demo_reg = (r', Accepted demo_conn, [42])"
proof -
  let ?u = "\<lparr>ue_UserID = ''alice'', ue_PSK = replicate 32 7\<rparr>"
  obtain s where "consume demo_token 3010 (seenTokens demo_reg) = (s, True)"
    using consume_new by (auto simp: demo_reg_def)
  then obtain r' where "classify demo_crypto demo_lru demo_cfg 3010 False nobody
      (concat (preamble_chunks \<lparr>src = \<lambda>n. n, pos = 0\<rparr> (client_preamble (replicate 16 1) demo_token)) @ [42]) demo_reg =
    (r', Perflow (Accepted demo_conn) [42])"
    using client_gets_in [of demo_cfg "[?u]" ?u demo_crypto 3010 3000 "replicate 16 1" nobody demo_reg s demo_lru "\<lparr>src = \<lambda>n. n, pos = 0\<rparr>" "[42]"] demo_hmac
    by (auto simp: demo_cfg_def demo_token_def authWindowSeconds_def authWindowTolerance_def)
  then show ?thesis unfolding concat_preamble_chunks
    by (auto simp: classify_def client_preamble_def read_full_def split: prod.splits)
qed

theorem perflow_admission_sound_witness:
  "\<exists>tok. token_of demo_crypto 3010 (replicate 32 7) tok (replicate 16 1) \<and> registered demo_cfg nobody (replicate 32 7) ''alice'' \<and>
     demo_stream = replicate 16 1 @ put16 (of_nat (length tok)) @ bytes_of tok @ [42]"
  using demo_accepted perflow_admission_sound [of demo_crypto demo_lru demo_cfg 3010 nobody demo_stream demo_reg _ demo_conn "[42]"] by fastforce

lemma demo_token_length: "length demo_token = 43"
  unfolding demo_token_def ClientAuthToken_def AuthToken_def length_b64url_encode demo_hmac by simp

theorem perflow_replay_respelled_witness:
  "\<exists>r' r''. handlePerflowConn demo_crypto demo_lru demo_cfg 3010 nobody demo_stream demo_reg = (r', Accepted demo_conn, [42]) \<and>
     handlePerflowConn demo_crypto demo_lru demo_cfg 3010 nobody
       (replicate 16 1 @ put16 (of_nat (length (demo_token @ [CHR 0x0A]))) @ bytes_of (demo_token @ [CHR 0x0A]) @ [42]) r' =
       (r'', Accepted demo_conn, [42])"
proof -
  obtain r' where r': "handlePerflowConn demo_crypto demo_lru demo_cfg 3010 nobody demo_stream demo_reg = (r', Accepted demo_conn, [42])"
    using demo_accepted by blast
  have sid: "length (replicate 16 (1::byte)) = 16" by simp
  have tok: "0 < length demo_token" "length demo_token < 512" "length demo_token \<le> 512" by (simp_all add: demo_token_length)
  obtain s where s: "consume demo_token 3010 new_seen = (s, True)" "seen_rel 3010 s [(demo_token, 3010)]"
    using consume_new by blast
  have "seenTokens r' = s"
    using r' s(1) unfolding handlePerflowConn_step [OF sid tok(1,3)]
    by (auto simp: perflow_admit_def consumeToken_def demo_reg_def dest: resolveSecretFor_keeps split: prod.splits option.splits if_splits)
  moreover obtain s' where "consume (demo_token @ [CHR 0x0A]) 3010 s = (s', True)"
    using consume_unseen [OF s(2)] by (auto simp: fresh_def)
  ultimately show ?thesis
    using perflow_replay_respelled [OF r' sid tok(1,2), of s'] r' by blast
qed



end
