(* ===== verification/GoAddr.thy ===== *)
theory GoAddr
  imports GoCodec GoNet
begin

text \<open>
  Numbers and addresses as text: \<^verbatim>\<open>strconv.Itoa\<close>, \<^verbatim>\<open>strings.Join\<close>, \<^verbatim>\<open>IP.String\<close>, \<^verbatim>\<open>net.JoinHostPort\<close>
  and the \<^verbatim>\<open>String\<close> of a TCP or UDP address. Two addresses with the same text have the same
  port and the same IP address, up to the two forms of an IPv4 address.
\<close>

section \<open>Numbers\<close>

function radix :: "nat \<Rightarrow> nat \<Rightarrow> string" where
  "radix b n = (if b < 2 \<or> n < b then [hextable ! n] else radix b (n div b) @ [hextable ! (n mod b)])"
  by pat_completeness auto
termination
  by (relation "measure snd") (auto intro: div_less_dividend)

declare radix.simps [simp del]

definition radix_val :: "nat \<Rightarrow> string \<Rightarrow> nat" where
  "radix_val b s = foldl (\<lambda>a c. a * b + the (hex_digit c)) 0 s"

lemma radix_roundtrip: "2 \<le> b \<Longrightarrow> b \<le> 16 \<Longrightarrow> radix_val b (radix b n) = n"
proof (induction b n rule: radix.induct)
  case (1 b n)
  show ?case
  proof (cases "n < b")
    case True
    then have "hex_digit (hextable ! n) = Some n" using 1(3) by (intro hex_digit_nth) simp
    then show ?thesis using True by (simp add: radix.simps [of b n] radix_val_def)
  next
    case False
    have "n mod b < 16" using 1(2,3) mod_less_divisor [of b n] by linarith
    then have "hex_digit (hextable ! (n mod b)) = Some (n mod b)" by (rule hex_digit_nth)
    moreover have "radix_val b (radix b (n div b)) = n div b" using 1 False by simp
    ultimately show ?thesis using False 1(2) by (simp add: radix.simps [of b n] radix_val_def)
  qed
qed

lemma radix_inject: "2 \<le> b \<Longrightarrow> b \<le> 16 \<Longrightarrow> radix b m = radix b n \<Longrightarrow> m = n"
  by (metis radix_roundtrip)

lemma radix_chars: "2 \<le> b \<Longrightarrow> b \<le> 16 \<Longrightarrow> set (radix b n) \<subseteq> set hextable"
proof (induction b n rule: radix.induct)
  case (1 b n)
  have "n mod b < 16" using 1(2,3) mod_less_divisor [of b n] by linarith
  then have "hextable ! (n mod b) \<in> set hextable" by (intro nth_mem) (simp add: hextable_def)
  moreover have "n < b \<Longrightarrow> hextable ! n \<in> set hextable" using 1(3) by (intro nth_mem) (simp add: hextable_def)
  ultimately show ?case using 1 by (simp add: radix.simps [of b n])
qed

lemma hextable_sep: "CHR '':'' \<notin> set hextable" "CHR ''.'' \<notin> set hextable" "CHR ''-'' \<notin> set hextable" "CHR ''%'' \<notin> set hextable"
  "CHR ''?'' \<notin> set hextable" "CHR ''<'' \<notin> set hextable" "CHR ''['' \<notin> set hextable"
  by (simp_all add: hextable_def)

lemma radix_nonempty [simp]: "radix b n \<noteq> []"
  by (subst radix.simps) simp

definition itoa :: "int \<Rightarrow> string" where
  "itoa i = (if i < 0 then CHR ''-'' # radix 10 (nat (- i)) else radix 10 (nat i))"

lemma itoa_chars: "set (itoa i) \<subseteq> insert (CHR ''-'') (set hextable)"
  using radix_chars [of 10] by (auto simp: itoa_def)

lemma itoa_inject [simp]: "itoa i = itoa j \<longleftrightarrow> i = j"
proof
  assume eq: "itoa i = itoa j"
  have pos: "radix 10 m \<noteq> CHR ''-'' # s" for m s
  proof
    assume "radix 10 m = CHR ''-'' # s"
    then have "CHR ''-'' \<in> set (radix 10 m)" by simp
    then show False using radix_chars [of 10 m] hextable_sep(3) by auto
  qed
  have inj: "radix 10 m = radix 10 n \<Longrightarrow> m = n" for m n by (rule radix_inject [of 10]) simp_all
  show "i = j"
  proof (cases "i < 0")
    case True
    then have "j < 0" using eq pos [of "nat j" "radix 10 (nat (- i))"] unfolding itoa_def by (metis (full_types))
    with True eq have "nat (- i) = nat (- j)" by (intro inj) (simp add: itoa_def)
    then show ?thesis using True \<open>j < 0\<close> by simp
  next
    case False
    then have "\<not> j < 0" using eq pos [of "nat i" "radix 10 (nat (- j))"] unfolding itoa_def by (metis (full_types))
    with False eq have "nat i = nat j" by (intro inj) (simp add: itoa_def)
    then show ?thesis using False \<open>\<not> j < 0\<close> by simp
  qed
qed simp

section \<open>Joining\<close>

fun str_join :: "'a \<Rightarrow> 'a list list \<Rightarrow> 'a list" where
  "str_join sep [] = []"
| "str_join sep [s] = s"
| "str_join sep (s # t # ss) = s @ sep # str_join sep (t # ss)"

lemma split_on_free: "x \<notin> set s \<Longrightarrow> split_on x s = [s]"
  by (induction s) auto

lemma split_on_append: "split_on x (u @ x # v) = split_on x u @ split_on x v"
proof (induction u)
  case (Cons c u)
  then show ?case using split_on_nonempty [of x u] by (cases "split_on x u") auto
qed simp

lemma split_on_join:
  "(\<forall>s \<in> set ss. x \<notin> set s) \<Longrightarrow> split_on x (str_join x ss) = (if ss = [] then [[]] else ss)"
proof (induction x ss rule: str_join.induct)
  case (3 x s t ss)
  then show ?case by (simp add: split_on_append split_on_free)
qed (simp_all add: split_on_free)

lemma set_str_join: "set (str_join x ss) \<subseteq> insert x (\<Union> (set ` set ss))"
  by (induction x ss rule: str_join.induct) auto

section \<open>IP addresses\<close>

definition ipv4_text :: "bytes \<Rightarrow> string" where
  "ipv4_text b = str_join (CHR ''.'') (map (\<lambda>x. radix 10 (unat x)) b)"

fun groups16 :: "bytes \<Rightarrow> nat list" where
  "groups16 (a # b # r) = (unat a * 256 + unat b) # groups16 r"
| "groups16 _ = []"

definition zrun :: "nat list \<Rightarrow> nat \<Rightarrow> nat" where
  "zrun gs i = length (takeWhile (\<lambda>g. g = 0) (drop i gs))"

text \<open>The first longest run of at least two zero groups; 255 stands for no run.\<close>

definition zero_run :: "nat list \<Rightarrow> nat \<times> nat" where
  "zero_run gs = fold (\<lambda>i (s, e). let l = zrun gs i in if l \<ge> 2 \<and> l > e - s then (i, i + l) else (s, e)) [0..<8] (255, 255)"

definition ipv6_text :: "nat list \<Rightarrow> string" where
  "ipv6_text gs =
     (let (s, e) = zero_run gs; hex = map (radix 16) in
      if s = 255 then str_join (CHR '':'') (hex gs)
      else str_join (CHR '':'') (hex (take s gs)) @ ''::'' @ str_join (CHR '':'') (hex (drop e gs)))"

definition ip_String :: "IP \<Rightarrow> string" where
  "ip_String ip =
     (if ip = [] then ''<nil>''
      else if length ip \<noteq> 4 \<and> length ip \<noteq> 16 then ''?'' @ hex_encode ip
      else case To4 ip of Some p4 \<Rightarrow> ipv4_text p4 | None \<Rightarrow> ipv6_text (groups16 ip))"

text \<open>The same address, whichever form an IPv4 address has.\<close>

definition same_ip :: "IP \<Rightarrow> IP \<Rightarrow> bool" where
  "same_ip a b \<longleftrightarrow> a = b \<or> (To4 a = To4 b \<and> To4 a \<noteq> None)"

lemma ipv4_text_inject:
  assumes "ipv4_text a = ipv4_text b" "a \<noteq> []" "b \<noteq> []"
  shows "a = b"
proof -
  let ?t = "\<lambda>x::byte. radix 10 (unat x)"
  have "CHR ''.'' \<notin> set (?t x)" for x using radix_chars [of 10 "unat x"] hextable_sep(2) by auto
  then have s: "split_on (CHR ''.'') (ipv4_text b) = (if b = [] then [[]] else map ?t b)" for b
    unfolding ipv4_text_def by (subst split_on_join) auto
  have "inj ?t"
  proof (rule injI)
    fix x y :: byte
    assume "?t x = ?t y"
    then have "unat x = unat y" by (rule radix_inject [rotated 2]) simp_all
    then show "x = y" by (rule unsigned_word_eqI)
  qed
  moreover have "map ?t a = map ?t b" using s [of a] s [of b] assms by simp
  ultimately show ?thesis by (metis inj_map_eq_map)
qed

lemma zero_run_fold:
  assumes "length gs = 8"
  defines "ok \<equiv> \<lambda>p :: nat \<times> nat. p = (255, 255) \<or> (fst p < snd p \<and> snd p \<le> 8 \<and> (\<forall>i. fst p \<le> i \<and> i < snd p \<longrightarrow> gs ! i = 0))"
  shows "ok p \<Longrightarrow> set is \<subseteq> {..<8} \<Longrightarrow> ok (fold (\<lambda>i (s, e). let l = zrun gs i in if l \<ge> 2 \<and> l > e - s then (i, i + l) else (s, e)) is p)"
proof (induction "is" arbitrary: p)
  case (Cons i "is")
  have run: "ok (i, i + zrun gs i)" if "zrun gs i \<ge> 2"
  proof -
    have le: "zrun gs i \<le> 8 - i" using length_takeWhile_le [of "\<lambda>g. g = 0" "drop i gs"] assms(1) by (simp add: zrun_def)
    have "gs ! j = 0" if "i \<le> j" "j < i + zrun gs i" for j
    proof -
      have "j - i < length (takeWhile (\<lambda>g. g = 0) (drop i gs))" using that by (simp add: zrun_def)
      then have "drop i gs ! (j - i) = 0" using takeWhile_nth [of "j - i" "\<lambda>g. g = 0" "drop i gs"] nth_mem [of "j - i" "takeWhile (\<lambda>g. g = 0) (drop i gs)"]
        set_takeWhileD [of _ "\<lambda>g. g = 0" "drop i gs"] by simp
      then show ?thesis using that Cons.prems(2) assms(1) by simp
    qed
    then show ?thesis using le that Cons.prems(2) by (auto simp: ok_def)
  qed
  obtain s e where p: "p = (s, e)" by (cases p)
  show ?case using Cons.IH [of "(i, i + zrun gs i)"] Cons.IH [of p] Cons.prems run by (auto simp: p Let_def)
qed simp

lemma zero_run_cases:
  assumes "length gs = 8"
  obtains "zero_run gs = (255, 255)"
  | s e where "zero_run gs = (s, e)" "s \<noteq> 255" "s < e" "e \<le> 8" "\<forall>i. s \<le> i \<and> i < e \<longrightarrow> gs ! i = 0"
proof -
  have "zero_run gs = (255, 255) \<or> (fst (zero_run gs) < snd (zero_run gs) \<and> snd (zero_run gs) \<le> 8 \<and>
      (\<forall>i. fst (zero_run gs) \<le> i \<and> i < snd (zero_run gs) \<longrightarrow> gs ! i = 0))"
    unfolding zero_run_def by (rule zero_run_fold [OF assms]) auto
  then show ?thesis using that by (cases "zero_run gs") auto
qed

text \<open>Reading the groups back: the ones before the empty piece, zeros, and the ones after it.\<close>

definition ipv6_untext :: "string \<Rightarrow> nat list" where
  "ipv6_untext t =
     (let L = split_on (CHR '':'') t; read = map (radix_val 16) in
      if [] \<notin> set L then read L
      else let B = takeWhile (\<lambda>s. s \<noteq> []) L; A = rev (takeWhile (\<lambda>s. s \<noteq> []) (rev L))
           in read B @ replicate (8 - length B - length A) 0 @ read A)"

lemma zeros_between:
  assumes "s \<le> e" "e \<le> length gs" "\<forall>i. s \<le> i \<and> i < e \<longrightarrow> gs ! i = 0"
  shows "gs = take s gs @ replicate (e - s) 0 @ drop e gs"
proof -
  have "take (e - s) (drop s gs) = replicate (e - s) 0"
    by (rule replicate_eqI) (use assms in \<open>auto simp: in_set_conv_nth\<close>)
  moreover have "drop (e - s) (drop s gs) = drop e gs" using assms(1) by simp
  ultimately show ?thesis using append_take_drop_id [of s gs] append_take_drop_id [of "e - s" "drop s gs"] by simp
qed

lemma ipv6_roundtrip:
  assumes "length gs = 8"
  shows "ipv6_untext (ipv6_text gs) = gs"
proof -
  let ?hex = "map (radix 16)"
  have free: "\<forall>s \<in> set (?hex xs). CHR '':'' \<notin> set s" for xs
    using hextable_sep(1) radix_chars [of 16] by fastforce
  have ne: "\<forall>s \<in> set (?hex xs). s \<noteq> []" for xs by auto
  have read: "map (radix_val 16) (?hex xs) = xs" for xs
    by (induction xs) (simp_all add: radix_roundtrip)
  show ?thesis
  proof (cases rule: zero_run_cases [OF assms])
    case 1
    have "split_on (CHR '':'') (str_join (CHR '':'') (?hex gs)) = ?hex gs"
      using split_on_join [OF free [of gs]] assms by auto
    moreover have "[] \<notin> set (?hex gs)" using ne [of gs] by metis
    ultimately show ?thesis using 1 read [of gs] by (simp add: ipv6_text_def ipv6_untext_def)
  next
    case (2 s e)
    let ?B = "?hex (take s gs)" and ?A = "?hex (drop e gs)"
    have L: "split_on (CHR '':'') (ipv6_text gs) = (if ?B = [] then [[]] else ?B) @ [[]] @ (if ?A = [] then [[]] else ?A)"
      using 2 split_on_join [OF free [of "take s gs"]] split_on_join [OF free [of "drop e gs"]]
      by (simp add: ipv6_text_def Let_def split_on_append del: map_is_Nil_conv take_eq_Nil drop_eq_Nil)
    have tw: "takeWhile (\<lambda>s. s \<noteq> []) (xs @ [] # ys) = xs" if "\<forall>s \<in> set xs. s \<noteq> []" for xs ys :: "'z list list"
      using that by (induction xs) auto
    have B: "takeWhile (\<lambda>s. s \<noteq> []) (split_on (CHR '':'') (ipv6_text gs)) = ?B"
      unfolding L using tw [OF ne [of "take s gs"]] by simp
    have "\<forall>s \<in> set (rev ?A). s \<noteq> []" using ne [of "drop e gs"] by simp
    then have "takeWhile (\<lambda>s. s \<noteq> []) (rev (split_on (CHR '':'') (ipv6_text gs))) = rev ?A"
      unfolding L using tw [of "rev ?A"] by simp
    then have A: "rev (takeWhile (\<lambda>s. s \<noteq> []) (rev (split_on (CHR '':'') (ipv6_text gs)))) = ?A" by simp
    have z: "gs = take s gs @ replicate (e - s) 0 @ drop e gs"
      by (rule zeros_between) (use 2 assms in simp_all)
    have e: "[] \<in> set (split_on (CHR '':'') (ipv6_text gs))" unfolding L by simp
    have "ipv6_untext (ipv6_text gs) = take s gs @ replicate (8 - length ?B - length ?A) 0 @ drop e gs"
      unfolding ipv6_untext_def Let_def A B using e read [of "take s gs"] read [of "drop e gs"] by simp
    moreover have "8 - length ?B - length ?A = e - s" using 2 assms by (simp add: min_def)
    ultimately show ?thesis using z by simp
  qed
qed

lemma groups16_inject: "length a = length b \<Longrightarrow> even (length a) \<Longrightarrow> groups16 a = groups16 b \<Longrightarrow> a = b"
proof (induction a arbitrary: b rule: groups16.induct)
  case (1 x y r)
  then obtain x' y' r' where b: "b = x' # y' # r'" by (cases b rule: groups16.cases) auto
  have "unat x * 256 + unat y = unat x' * 256 + unat y'" "groups16 r = groups16 r'" using 1(4) b by auto
  moreover have "unat y < 256" "unat y' < 256" by (rule unat_byte_less)+
  ultimately have ux: "unat x = unat x'" by linarith
  then have "unat y = unat y'" using \<open>unat x * 256 + unat y = unat x' * 256 + unat y'\<close> by linarith
  with ux have "x = x'" "y = y'" using unsigned_word_eqI by blast+
  moreover have "r = r'" using 1 b by simp
  ultimately show ?case using b by simp
qed auto

lemma length_groups16 [simp]: "length (groups16 a) = length a div 2"
  by (induction a rule: groups16.induct) auto

lemma ip_text_chars:
  "set (ipv4_text b) \<subseteq> insert (CHR ''.'') (set hextable)"
  "set (ipv6_text gs) \<subseteq> insert (CHR '':'') (set hextable)"
  "set (hex_encode ip) \<subseteq> set hextable"
proof -
  have "\<Union> (set ` set (map (radix n) xs)) \<subseteq> set hextable" if "2 \<le> n" "n \<le> 16" for n xs
    using radix_chars [OF that] by auto
  note r = this
  show "set (ipv4_text b) \<subseteq> insert (CHR ''.'') (set hextable)"
    using set_str_join [of "CHR ''.''" "map (radix 10) (map unat b)"] r [of 10 "map unat b"]
    by (auto simp: ipv4_text_def o_def)
  have j: "set (str_join (CHR '':'') (map (radix 16) xs)) \<subseteq> insert (CHR '':'') (set hextable)" for xs
    using set_str_join [of "CHR '':''" "map (radix 16) xs"] r [of 16 xs] by auto
  show "set (ipv6_text gs) \<subseteq> insert (CHR '':'') (set hextable)"
    using j by (auto simp: ipv6_text_def Let_def split: prod.split)
  have n: "hextable ! (unat x div 16) \<in> set hextable" "hextable ! (unat x mod 16) \<in> set hextable" for x :: byte
  proof -
    have "unat x div 16 < 16" "unat x mod 16 < 16" using unat_byte_less [of x] by simp_all
    moreover have "length hextable = 16" by (simp add: hextable_def)
    ultimately show "hextable ! (unat x div 16) \<in> set hextable" "hextable ! (unat x mod 16) \<in> set hextable" by (metis nth_mem)+
  qed
  then show "set (hex_encode ip) \<subseteq> set hextable" by (auto simp: hex_encode_def)
qed

lemma ipv6_text_colon: "length gs = 8 \<Longrightarrow> CHR '':'' \<in> set (ipv6_text gs)"
proof -
  assume l: "length gs = 8"
  have "CHR '':'' \<in> set (str_join (CHR '':'') (a # b # r))" for a b r by simp
  moreover obtain a b r where "gs = a # b # r" using l by (cases gs rule: remdups_adj.cases) auto
  ultimately show ?thesis by (cases "zero_run gs") (auto simp: ipv6_text_def Let_def)
qed

lemma ip_text_nonempty: "b \<noteq> [] \<Longrightarrow> ipv4_text b \<noteq> []"
  by (cases b rule: remdups_adj.cases) (auto simp: ipv4_text_def)

text \<open>Texts tell addresses apart.\<close>

lemma hex_encode_inject: "hex_encode a = hex_encode b \<Longrightarrow> a = b"
  by (metis hex_roundtrip option.inject)

lemma To4_length: "To4 ip = Some p \<Longrightarrow> length p = 4"
  by (auto simp: To4_def split: if_splits)

text \<open>The four shapes of a text, told apart by their characters.\<close>

lemma ip_String_cases [case_names empty odd v4 v6]:
  obtains "ip = []" "ip_String ip = ''<nil>''"
  | "ip \<noteq> []" "length ip \<notin> {4, 16}" "ip_String ip = CHR ''?'' # hex_encode ip"
  | p where "To4 ip = Some p" "ip_String ip = ipv4_text p" "p \<noteq> []"
  | "length ip = 16" "To4 ip = None" "ip_String ip = ipv6_text (groups16 ip)"
proof -
  consider "ip = []" | "ip \<noteq> []" "length ip \<notin> {4, 16}" | "ip \<noteq> []" "length ip \<in> {4, 16}" by blast
  then show ?thesis
  proof cases
    case 3
    show ?thesis
    proof (cases "To4 ip")
      case None
      then have "length ip = 16" using 3 by (auto simp: To4_def)
      then show ?thesis using that(4) 3 None by (simp add: ip_String_def)
    next
      case (Some p)
      then show ?thesis using that(3) [OF Some] 3 To4_length [OF Some] by (cases p) (auto simp: ip_String_def)
    qed
  qed (use that(1,2) in \<open>auto simp: ip_String_def\<close>)
qed

definition text_kind :: "string \<Rightarrow> nat" where
  "text_kind s = (if CHR ''<'' \<in> set s then 0 else if CHR ''?'' \<in> set s then 1 else if CHR '':'' \<in> set s then 3 else 2)"

lemma text_kinds:
  "text_kind ''<nil>'' = 0" "text_kind (CHR ''?'' # hex_encode ip) = 1" "text_kind (ipv4_text p) = 2"
  "length gs = 8 \<Longrightarrow> text_kind (ipv6_text gs) = 3"
proof -
  have 4: "CHR ''<'' \<notin> set (ipv4_text p)" "CHR ''?'' \<notin> set (ipv4_text p)" "CHR '':'' \<notin> set (ipv4_text p)"
    using ip_text_chars(1) [of p] hextable_sep by auto
  have 6: "CHR ''<'' \<notin> set (ipv6_text gs)" "CHR ''?'' \<notin> set (ipv6_text gs)"
    using ip_text_chars(2) [of gs] hextable_sep by auto
  have h: "CHR ''<'' \<notin> set (hex_encode ip)" using ip_text_chars(3) [of ip] hextable_sep by auto
  show "text_kind ''<nil>'' = 0" "text_kind (CHR ''?'' # hex_encode ip) = 1" "text_kind (ipv4_text p) = 2"
    "length gs = 8 \<Longrightarrow> text_kind (ipv6_text gs) = 3"
    using 4 6 h ipv6_text_colon by (simp_all add: text_kind_def)
qed

lemma ip_String_kinds [case_names empty odd v4 v6]:
  obtains "text_kind (ip_String ip) = 0" "ip = []"
  | "text_kind (ip_String ip) = 1" "ip_String ip = CHR ''?'' # hex_encode ip"
  | p where "text_kind (ip_String ip) = 2" "To4 ip = Some p" "ip_String ip = ipv4_text p" "p \<noteq> []"
  | "text_kind (ip_String ip) = 3" "length ip = 16" "ip_String ip = ipv6_text (groups16 ip)"
proof (cases ip rule: ip_String_cases)
  case empty
  then show ?thesis using that(1) text_kinds(1) by metis
next
  case odd
  then show ?thesis using that(2) text_kinds(2) by metis
next
  case (v4 p)
  then show ?thesis using that(3) text_kinds(3) by metis
next
  case v6
  then have "text_kind (ip_String ip) = 3" using text_kinds(4) [of "groups16 ip"] by simp
  then show ?thesis using that(4) v6 by blast
qed

lemma ip_String_inject:
  assumes "ip_String a = ip_String b"
  shows "same_ip a b"
proof -
  have k: "text_kind (ip_String a) = text_kind (ip_String b)" using assms by simp
  show ?thesis
  proof (cases a rule: ip_String_kinds)
    case empty
    then have "b = []" using k by (cases b rule: ip_String_kinds) simp_all
    then show ?thesis using empty by (simp add: same_ip_def)
  next
    case odd
    then have "ip_String b = CHR ''?'' # hex_encode b" using k by (cases b rule: ip_String_kinds) simp_all
    then have "hex_encode a = hex_encode b" using assms odd(2) by (metis list.inject)
    then show ?thesis using hex_encode_inject by (simp add: same_ip_def)
  next
    case (v4 p)
    then obtain q where q: "To4 b = Some q" "ip_String b = ipv4_text q" "q \<noteq> []"
      using k by (cases b rule: ip_String_kinds) simp_all
    have "ipv4_text p = ipv4_text q" using assms unfolding v4(3) q(2) .
    then have "p = q" using v4(4) q(3) by (rule ipv4_text_inject)
    then show ?thesis using v4(2) q(1) by (simp add: same_ip_def)
  next
    case v6
    then have b: "length b = 16" "ip_String b = ipv6_text (groups16 b)" using k by (cases b rule: ip_String_kinds; simp)+
    have "ipv6_text (groups16 a) = ipv6_text (groups16 b)" using assms unfolding v6(3) b(2) .
    moreover have "length (groups16 a) = 8" "length (groups16 b) = 8" using v6(2) b(1) by simp_all
    ultimately have "groups16 a = groups16 b" by (metis ipv6_roundtrip)
    then show ?thesis using groups16_inject [of a b] v6 b by (simp add: same_ip_def)
  qed
qed

section \<open>Addresses with ports\<close>

definition JoinHostPort :: "string \<Rightarrow> string \<Rightarrow> string" where
  "JoinHostPort host port =
     (if CHR '':'' \<in> set host then ''['' @ host @ '']:'' @ port else host @ '':'' @ port)"

text \<open>\<^verbatim>\<open>net.Addr\<close>: a UDP or TCP address with its zone, or some other implementation, known by its text.\<close>

datatype net_Addr = UDPAddr IP int string | TCPAddr IP int string | OtherAddr string

definition ipEmptyString :: "IP \<Rightarrow> string" where
  "ipEmptyString ip = (if ip = [] then [] else ip_String ip)"

definition host_text :: "IP \<Rightarrow> string \<Rightarrow> string" where
  "host_text ip zone = (if zone \<noteq> [] then ipEmptyString ip @ ''%'' @ zone else ipEmptyString ip)"

fun addr_String :: "net_Addr \<Rightarrow> string" where
  "addr_String (UDPAddr ip port zone) = JoinHostPort (host_text ip zone) (itoa port)"
| "addr_String (TCPAddr ip port zone) = JoinHostPort (host_text ip zone) (itoa port)"
| "addr_String (OtherAddr s) = s"

lemma last_sep:
  assumes "u @ x # p = v @ x # q" "x \<notin> set p" "x \<notin> set q"
  shows "u = v \<and> p = q"
proof -
  have r: "takeWhile (\<lambda>c. c \<noteq> x) (rev (u @ x # p)) = rev p" if "x \<notin> set p" for u p
  proof -
    have "takeWhile (\<lambda>c. c \<noteq> x) (rev p @ x # rev u) = rev p"
      by (rule takeWhile_tail [THEN trans]) (use that in \<open>auto simp: takeWhile_eq_all_conv\<close>)
    then show ?thesis by simp
  qed
  have "rev p = rev q" using r [OF assms(2), of u] r [OF assms(3), of v] assms(1) by metis
  then show ?thesis using assms(1) by simp
qed

lemma first_sep:
  assumes "u @ x # p = v @ x # q" "x \<notin> set u" "x \<notin> set v"
  shows "u = v"
proof -
  have "takeWhile (\<lambda>c. c \<noteq> x) (u @ x # p) = u" if "x \<notin> set u" for u p
    by (subst takeWhile_append2) (use that in auto)
  then show ?thesis using assms by metis
qed

lemma JoinHostPort_inject:
  assumes eq: "JoinHostPort h p = JoinHostPort k q" and pq: "CHR '':'' \<notin> set p" "CHR '':'' \<notin> set q"
  shows "h = k \<and> p = q"
proof -
  define wrap where "wrap h = (if CHR '':'' \<in> set h then ''['' @ h @ '']'' else h)" for h
  have w: "JoinHostPort h p = wrap h @ CHR '':'' # p" for h p by (simp add: JoinHostPort_def wrap_def)
  have "wrap h @ CHR '':'' # p = wrap k @ CHR '':'' # q" using eq unfolding w .
  then have e: "wrap h = wrap k \<and> p = q" using pq by (rule last_sep)
  have m: "CHR '':'' \<in> set (wrap h) \<longleftrightarrow> CHR '':'' \<in> set h" for h by (auto simp: wrap_def)
  have "(CHR '':'' \<in> set h) = (CHR '':'' \<in> set k)" using m [of h] m [of k] e by simp
  then show ?thesis using e by (auto simp: wrap_def split: if_splits)
qed

lemma itoa_colon: "CHR '':'' \<notin> set (itoa i)"
  using itoa_chars [of i] hextable_sep(1) by auto

lemma ipEmptyString_chars: "set (ipEmptyString ip) \<subseteq> set hextable \<union> {CHR ''.'', CHR '':'', CHR ''?''}"
proof (cases "ip = []")
  case False
  have "set (ip_String ip) \<subseteq> set hextable \<union> {CHR ''.'', CHR '':'', CHR ''?''}"
  proof (cases ip rule: ip_String_cases)
    case odd
    then show ?thesis using ip_text_chars(3) [of ip] by auto
  next
    case (v4 p)
    then show ?thesis using ip_text_chars(1) [of p] by auto
  next
    case v6
    then show ?thesis using ip_text_chars(2) [of "groups16 ip"] by auto
  qed (use False in simp)
  then show ?thesis using False by (simp add: ipEmptyString_def)
qed (simp add: ipEmptyString_def)

lemma ipEmptyString_inject: "ipEmptyString a = ipEmptyString b \<Longrightarrow> same_ip a b"
proof -
  assume eq: "ipEmptyString a = ipEmptyString b"
  have ne: "ip_String ip \<noteq> []" for ip
  proof (cases ip rule: ip_String_cases)
    case v6
    then show ?thesis using ipv6_text_colon [of "groups16 ip"] by auto
  qed (auto simp: ip_text_nonempty)
  show ?thesis
  proof (cases "a = [] \<or> b = []")
    case True
    then have "a = b" using eq ne [of a] ne [of b] by (auto simp: ipEmptyString_def split: if_splits)
    then show ?thesis by (simp add: same_ip_def)
  next
    case False
    then show ?thesis using eq by (auto simp: ipEmptyString_def intro: ip_String_inject)
  qed
qed

lemma host_text_ip: "takeWhile (\<lambda>c. c \<noteq> CHR ''%'') (host_text a z) = ipEmptyString a"
proof -
  have p: "CHR ''%'' \<notin> set (ipEmptyString a)" using ipEmptyString_chars [of a] hextable_sep(4) by auto
  have t: "takeWhile (\<lambda>c. c \<noteq> CHR ''%'') (ipEmptyString a) = ipEmptyString a"
    unfolding takeWhile_eq_all_conv using p by auto
  have "takeWhile (\<lambda>c. c \<noteq> CHR ''%'') (ipEmptyString a @ ''%'' @ z) = ipEmptyString a"
    using p by (subst takeWhile_append2) auto
  then show ?thesis using t by (simp add: host_text_def)
qed

lemma host_text_inject: "host_text a z = host_text b w \<Longrightarrow> same_ip a b"
  by (metis host_text_ip ipEmptyString_inject)

fun addr_ip_port :: "net_Addr \<Rightarrow> (IP \<times> int) option" where
  "addr_ip_port (UDPAddr ip port zone) = Some (ip, port)"
| "addr_ip_port (TCPAddr ip port zone) = Some (ip, port)"
| "addr_ip_port (OtherAddr s) = None"

lemma addr_String_inject:
  assumes "addr_String a = addr_String b" "addr_ip_port a = Some (ip, port)" "addr_ip_port b = Some (jp, qort)"
  shows "same_ip ip jp \<and> port = qort"
proof -
  obtain z w where s: "addr_String a = JoinHostPort (host_text ip z) (itoa port)" "addr_String b = JoinHostPort (host_text jp w) (itoa qort)"
    using assms(2,3) by (cases a; cases b) auto
  have "host_text ip z = host_text jp w \<and> itoa port = itoa qort"
    by (rule JoinHostPort_inject) (use s assms(1) itoa_colon in auto)
  then show ?thesis using host_text_inject by auto
qed
end
