(* ===== verification/Camouflage.thy ===== *)
theory Camouflage
  imports Auth GoAddr
begin

text \<open>
  The camouflage layer in front of the server (\<^verbatim>\<open>core/protocol/camo\<close>, \<^verbatim>\<open>selector_index.go\<close>,
  \<^verbatim>\<open>camouflage.go\<close>): a client of ours marks the random field of its TLS hello with a masked tag of its
  key and a MAC over the time window and its key share; everybody else is relayed to the site the
  server hides behind. HMAC-SHA256, SHA-256, X25519 and the hello parser of \<^verbatim>\<open>utls\<close> are parameters.
\<close>

unbundle bit_operations_syntax

section \<open>Markers and selectors\<close>

record camo_fns =
  cHMAC :: "bytes \<Rightarrow> bytes \<Rightarrow> bytes"
  cSHA256 :: "bytes \<Rightarrow> bytes"
  cECDH :: "bytes \<Rightarrow> bytes \<Rightarrow> bytes option"

definition WindowSeconds :: int where "WindowSeconds = 30"
definition WindowTol :: int where "WindowTol = 1"
definition driftProbeWindows :: int where "driftProbeWindows = 10"
definition SelectorSize :: nat where "SelectorSize = 8"
definition MarkerSize :: nat where "MarkerSize = 32 - SelectorSize"

text \<open>\<^verbatim>\<open>copy(out[:], src)\<close> into a zeroed array of \<open>n\<close> bytes.\<close>

definition copy_to :: "nat \<Rightarrow> bytes \<Rightarrow> bytes" where
  "copy_to n b = take n (b @ replicate n 0)"

lemma length_copy_to [simp]: "length (copy_to n b) = n"
  by (simp add: copy_to_def)


definition X25519 :: nat where "X25519 = 29"

fun ExtractX25519KeyShare :: "(nat \<times> bytes) list \<Rightarrow> bytes" where
  "ExtractX25519KeyShare [] = []"
| "ExtractX25519KeyShare (sh # shares) = (if fst sh = X25519 then snd sh else ExtractX25519KeyShare shares)"

definition markerForWindow :: "camo_fns \<Rightarrow> bytes \<Rightarrow> int \<Rightarrow> bytes \<Rightarrow> bytes" where
  "markerForWindow c key window keyShare = copy_to 32 (cHMAC c key (put64 (word_of_int window) @ keyShare))"

definition BuildMarker :: "camo_fns \<Rightarrow> int \<Rightarrow> bytes \<Rightarrow> bytes \<Rightarrow> bytes" where
  "BuildMarker c now key keyShare = markerForWindow c key (now div WindowSeconds) keyShare"

definition MarkerMatches :: "camo_fns \<Rightarrow> int \<Rightarrow> bytes list \<Rightarrow> bytes \<Rightarrow> bytes \<Rightarrow> bool" where
  "MarkerMatches c now keys random keyShare =
     (if length random \<noteq> 32 \<or> keys = [] \<or> keyShare = [] then False
      else let w = now div WindowSeconds in
        list_ex (\<lambda>key. key \<noteq> [] \<and> list_ex (\<lambda>cand. markerForWindow c key cand keyShare = random) [w - WindowTol .. w + WindowTol]) keys)"

definition drift_offset :: "camo_fns \<Rightarrow> int \<Rightarrow> bytes \<Rightarrow> bytes \<Rightarrow> bytes \<Rightarrow> int \<Rightarrow> int option" where
  "drift_offset c w key random keyShare offset =
     (if markerForWindow c key (w + offset) keyShare = random then Some offset
      else if markerForWindow c key (w - offset) keyShare = random then Some (- offset) else None)"

definition MarkerDrift :: "camo_fns \<Rightarrow> int \<Rightarrow> bytes list \<Rightarrow> bytes \<Rightarrow> bytes \<Rightarrow> int option" where
  "MarkerDrift c now keys random keyShare =
     (if length random \<noteq> 32 \<or> keys = [] \<or> keyShare = [] then None
      else let w = now div WindowSeconds in
        fold (\<lambda>key found. case found of Some d \<Rightarrow> Some d
          | None \<Rightarrow> if key = [] then None
              else fold (\<lambda>offset found. case found of Some d \<Rightarrow> Some d | None \<Rightarrow> drift_offset c w key random keyShare offset)
                     [WindowTol + 1 .. driftProbeWindows] None) keys None)"

definition UserTag :: "camo_fns \<Rightarrow> bytes \<Rightarrow> bytes" where
  "UserTag c psk = copy_to SelectorSize (cHMAC c psk (bytes_of ''whispera-uid-v1''))"

definition selectorMask :: "camo_fns \<Rightarrow> bytes \<Rightarrow> bytes" where
  "selectorMask c shared = copy_to SelectorSize (cSHA256 c (bytes_of ''whispera-sel-v1'' @ shared))"

definition xorTag :: "bytes \<Rightarrow> bytes \<Rightarrow> bytes" where
  "xorTag a b = map2 (XOR) a b"

text \<open>\<^verbatim>\<open>NewPublicKey\<close> refuses anything but 32 bytes.\<close>

definition ecdh_with :: "camo_fns \<Rightarrow> bytes \<Rightarrow> bytes \<Rightarrow> bytes option" where
  "ecdh_with c priv pub = (if length pub \<noteq> 32 then None else cECDH c priv pub)"


definition OpenSelector :: "camo_fns \<Rightarrow> bytes \<Rightarrow> bytes \<Rightarrow> bytes \<Rightarrow> bytes option" where
  "OpenSelector c selector serverPriv keyShare =
     map_option (\<lambda>shared. xorTag selector (selectorMask c shared)) (ecdh_with c serverPriv keyShare)"

definition markerFor :: "camo_fns \<Rightarrow> bytes \<Rightarrow> int \<Rightarrow> bytes \<Rightarrow> bytes" where
  "markerFor c key window keyShare = copy_to MarkerSize (cHMAC c key (put64 (word_of_int window) @ keyShare))"

definition SplitRandom :: "bytes \<Rightarrow> (bytes \<times> bytes) option" where
  "SplitRandom random = (if length random \<noteq> 32 then None else Some (take SelectorSize random, drop SelectorSize random))"


definition MarkerMatchesKey :: "camo_fns \<Rightarrow> bytes \<Rightarrow> bytes \<Rightarrow> bytes \<Rightarrow> int \<Rightarrow> bool" where
  "MarkerMatchesKey c key marker keyShare now =
     (if length marker \<noteq> MarkerSize \<or> key = [] \<or> keyShare = [] then False
      else let w = now div WindowSeconds in
        list_ex (\<lambda>cand. markerFor c key cand keyShare = marker) [w - WindowTol .. w + WindowTol])"

section \<open>The index of selectors\<close>

record selectorEntry =
  se_userID :: string
  se_psk :: bytes
  se_camoKey :: bytes

text \<open>Times in nanoseconds.\<close>

definition selectorIndexTTL :: int where "selectorIndexTTL = 1000000000"

record selectorIndex =
  si_builtAt :: int
  si_builtVer :: nat
  si_hasVer :: bool
  si_byTag :: "(bytes, selectorEntry) gomap option"
  si_keys :: "bytes list"

definition new_selectorIndex :: selectorIndex where
  "new_selectorIndex = \<lparr>si_builtAt = 0, si_builtVer = 0, si_hasVer = False, si_byTag = None, si_keys = []\<rparr>"

definition entry_of :: "camo_fns \<Rightarrow> string \<Rightarrow> bytes \<Rightarrow> selectorEntry" where
  "entry_of c uid psk = \<lparr>se_userID = uid, se_psk = psk, se_camoKey = cHMAC c psk (bytes_of ''whispera-camo-v1'')\<rparr>"

definition put_entry :: "camo_fns \<Rightarrow> string \<Rightarrow> bytes \<Rightarrow> (bytes, selectorEntry) gomap \<Rightarrow> (bytes, selectorEntry) gomap" where
  "put_entry c uid psk m = (if length psk = 32 then gm_put (UserTag c psk) (entry_of c uid psk) m else m)"

definition build_index :: "camo_fns \<Rightarrow> ServerConfig \<Rightarrow> (bytes, selectorEntry) gomap" where
  "build_index c cfg =
     (let m = put_entry c ''default'' (sc_SharedSecret cfg) [] in
      case sc_users cfg of None \<Rightarrow> m | Some us \<Rightarrow> fold (\<lambda>u. put_entry c (ue_UserID u) (ue_PSK u)) us m)"

definition index_fresh :: "nat option \<Rightarrow> int \<Rightarrow> selectorIndex \<Rightarrow> bool" where
  "index_fresh ver now s \<longleftrightarrow> si_byTag s \<noteq> None \<and>
     (case ver of Some v \<Rightarrow> if si_hasVer s then si_builtVer s = v else now - si_builtAt s < selectorIndexTTL
      | None \<Rightarrow> now - si_builtAt s < selectorIndexTTL)"

text \<open>\<^verbatim>\<open>snapshot\<close>, with what \<^verbatim>\<open>UsersVersion\<close> returns if it is set.\<close>

definition snapshot :: "camo_fns \<Rightarrow> ServerConfig \<Rightarrow> nat option \<Rightarrow> int \<Rightarrow> selectorIndex \<Rightarrow> selectorIndex \<times> (bytes, selectorEntry) gomap" where
  "snapshot c cfg ver now s =
     (if index_fresh ver now s then (s, the (si_byTag s))
      else let built = build_index c cfg in
        (\<lparr>si_builtAt = now, si_builtVer = (case ver of Some v \<Rightarrow> v | None \<Rightarrow> 0), si_hasVer = (ver \<noteq> None),
          si_byTag = Some built, si_keys = map (se_camoKey \<circ> snd) built\<rparr>, built))"

definition camoKeys :: "camo_fns \<Rightarrow> ServerConfig \<Rightarrow> nat option \<Rightarrow> int \<Rightarrow> selectorIndex \<Rightarrow> selectorIndex \<times> bytes list" where
  "camoKeys c cfg ver now s = (let (s, _) = snapshot c cfg ver now s in (s, si_keys s))"

datatype sel_reason = selReasonOK | selReasonShortFields | selReasonNoIdentity | selReasonNoKey | selReasonBadRandom
  | selReasonOpenFailed | selReasonUnknownTag | selReasonStaleMarker

text \<open>
  \<^verbatim>\<open>resolveBySelector\<close>; \<open>ident\<close> is the server's certificate identity, if any, with its selector key,
  if that can be derived. The two clock readings are \<open>now\<close> (nanoseconds) and \<open>unix\<close> (seconds).
\<close>

definition resolveBySelector ::
  "camo_fns \<Rightarrow> ServerConfig \<Rightarrow> nat option \<Rightarrow> bytes option option \<Rightarrow> int \<Rightarrow> int \<Rightarrow> bytes \<Rightarrow> bytes \<Rightarrow> selectorIndex \<Rightarrow>
   selectorIndex \<times> selectorEntry option \<times> sel_reason" where
  "resolveBySelector c cfg ver ident now unix random keyShare s =
     (if length random \<noteq> 32 \<or> length keyShare \<noteq> 32 then (s, None, selReasonShortFields)
      else case ident of None \<Rightarrow> (s, None, selReasonNoIdentity)
      | Some None \<Rightarrow> (s, None, selReasonNoKey)
      | Some (Some priv) \<Rightarrow>
          (case SplitRandom random of None \<Rightarrow> (s, None, selReasonBadRandom)
           | Some (sel, marker) \<Rightarrow>
               (case OpenSelector c sel priv keyShare of None \<Rightarrow> (s, None, selReasonOpenFailed)
                | Some tag \<Rightarrow>
                    let (s, idx) = snapshot c cfg ver now s in
                    case gm_get idx tag of None \<Rightarrow> (s, None, selReasonUnknownTag)
                    | Some entry \<Rightarrow>
                        if \<not> MarkerMatchesKey c (se_camoKey entry) marker keyShare unix then (s, None, selReasonStaleMarker)
                        else (s, Some entry, selReasonOK))))"

section \<open>Peeking at the hello\<close>

record clientHello =
  h_random :: bytes
  h_sni :: string
  h_keyShares :: "(nat \<times> bytes) list"

record peekedHello =
  ph_raw :: bytes
  ph_random :: bytes
  ph_sni :: string
  ph_keyShare :: bytes

datatype peek_error = HelloIncomplete | NotHandshakeRecord | InvalidRecordLength | HelloTooLarge | NotClientHello | HelloUnparsable

definition camoMaxHandshake :: nat where "camoMaxHandshake = 8192"

definition only_raw :: "bytes \<Rightarrow> peekedHello" where
  "only_raw raw = \<lparr>ph_raw = raw, ph_random = [], ph_sni = [], ph_keyShare = []\<rparr>"

lemma peek_shorter:
  assumes "(x, rest) = read_full 5 bs" "x = Inr hdr" "(x', rest') = read_full n rest" "x' = Inr body"
  shows "length rest' < length bs"
  using read_full_InrD [of 5 bs hdr rest] read_full_InrD [of n rest body rest'] assms by auto

text \<open>
  The loop over the records, on the bytes the peer sends: what was peeked, the error if any, and
  what is still unread. A read that ends early has taken what there was.
\<close>

function peek_loop ::
  "(bytes \<Rightarrow> clientHello option) \<Rightarrow> bytes \<Rightarrow> bytes \<Rightarrow> bytes \<Rightarrow> peekedHello \<times> peek_error option \<times> bytes" where
  "peek_loop unmarshal raw hs bs =
     (case read_full 5 bs of (Inl _, rest) \<Rightarrow> (only_raw raw, Some HelloIncomplete, rest)
      | (Inr hdr, rest) \<Rightarrow>
          let raw = raw @ hdr; recLen = unat (hdr ! 3) * 256 + unat (hdr ! 4) in
          if hdr ! 0 \<noteq> 0x16 then (only_raw raw, Some NotHandshakeRecord, rest)
          else if recLen = 0 \<or> recLen > 16384 then (only_raw raw, Some InvalidRecordLength, rest)
          else case read_full recLen rest of (Inl _, rest) \<Rightarrow> (only_raw raw, Some HelloIncomplete, rest)
          | (Inr body, rest) \<Rightarrow>
              let raw = raw @ body; hs = hs @ body;
                  want = 4 + (unat (hs ! 1) * 65536 + unat (hs ! 2) * 256 + unat (hs ! 3)) in
              if length hs > camoMaxHandshake then (only_raw raw, Some HelloTooLarge, rest)
              else if length hs < 4 then peek_loop unmarshal raw hs rest
              else if hs ! 0 \<noteq> 0x01 then (only_raw raw, Some NotClientHello, rest)
              else if length hs < want then peek_loop unmarshal raw hs rest
              else case unmarshal (take want hs) of None \<Rightarrow> (only_raw raw, Some HelloUnparsable, rest)
              | Some msg \<Rightarrow>
                  (\<lparr>ph_raw = raw, ph_random = h_random msg, ph_sni = h_sni msg, ph_keyShare = ExtractX25519KeyShare (h_keyShares msg)\<rparr>,
                   None, rest))"
  by pat_completeness auto
termination
  by (relation "measure (\<lambda>(_, _, _, bs). length bs)")
    (simp, unfold in_measure split_conv, (erule (3) peek_shorter)+)

declare peek_loop.simps [simp del]

definition peekClientHello :: "(bytes \<Rightarrow> clientHello option) \<Rightarrow> bytes \<Rightarrow> peekedHello \<times> peek_error option \<times> bytes" where
  "peekClientHello unmarshal bs = peek_loop unmarshal [] [] bs"

section \<open>The listener\<close>

definition decoyRateWindow :: int where "decoyRateWindow = 10 * 1000000000"
definition decoyRateMax :: nat where "decoyRateMax = 20"
definition markerDriftInterval :: int where "markerDriftInterval = 60 * 1000000000"

record decoyRate =
  dr_seen :: "(string, int) gomap"
  dr_count :: "(string, nat) gomap"
  dr_lastClean :: int

definition rate_clean :: "int \<Rightarrow> decoyRate \<Rightarrow> decoyRate" where
  "rate_clean now d =
     (if now - dr_lastClean d > 60 * 1000000000
      then let old = map fst (filter (\<lambda>(k, t). now - t > decoyRateWindow) (dr_seen d)) in
        \<lparr>dr_seen = fold gm_del old (dr_seen d), dr_count = fold gm_del old (dr_count d), dr_lastClean = now\<rparr>
      else d)"

text \<open>\<^verbatim>\<open>decoyIPRateAllow\<close> for the host part of the remote address.\<close>

definition decoyIPRateAllow :: "int \<Rightarrow> string \<Rightarrow> decoyRate \<Rightarrow> decoyRate \<times> bool" where
  "decoyIPRateAllow now ip d =
     (let d = rate_clean now d in
      case gm_get (dr_seen d) ip of
        Some t0 \<Rightarrow>
          if now - t0 > decoyRateWindow then (d\<lparr>dr_seen := gm_put ip now (dr_seen d), dr_count := gm_put ip 1 (dr_count d)\<rparr>, True)
          else let n = (case gm_get (dr_count d) ip of Some n \<Rightarrow> n | None \<Rightarrow> 0) + 1
               in (d\<lparr>dr_count := gm_put ip n (dr_count d)\<rparr>, n \<le> decoyRateMax)
      | None \<Rightarrow> (d\<lparr>dr_seen := gm_put ip now (dr_seen d), dr_count := gm_put ip 1 (dr_count d)\<rparr>, True))"

definition validSNI :: "string \<Rightarrow> bool" where
  "validSNI s \<longleftrightarrow> s \<noteq> [] \<and> ParseIP s = None"

text \<open>\<^verbatim>\<open>camoDecoyAddr\<close> with the host of the configured origin.\<close>

definition camoDecoyAddr :: "string \<Rightarrow> string \<Rightarrow> string" where
  "camoDecoyAddr fallbackHost sni =
     (let host = (if validSNI sni then sni else fallbackHost) in if host = [] then [] else JoinHostPort host ''443'')"

record camo_state =
  cs_driftLast :: int
  cs_rate :: decoyRate
  cs_index :: selectorIndex

definition driftProbeDue :: "int \<Rightarrow> camo_state \<Rightarrow> camo_state \<times> bool" where
  "driftProbeDue now st =
     (if now - cs_driftLast st < markerDriftInterval then (st, False) else (st\<lparr>cs_driftLast := now\<rparr>, True))"

text \<open>A connection whose first bytes were already read: \<^verbatim>\<open>prefixConn\<close> with its \<^verbatim>\<open>Read\<close> into \<open>n\<close> bytes.\<close>

record prefixConn =
  pc_prefix :: bytes
  pc_off :: nat
  pc_knownUser :: string
  pc_knownPSK :: bytes
  pc_decoy :: bool

definition prefix_Read :: "(nat \<Rightarrow> 'r \<Rightarrow> bytes \<times> 'r) \<Rightarrow> nat \<Rightarrow> prefixConn \<times> 'r \<Rightarrow> bytes \<times> prefixConn \<times> 'r" where
  "prefix_Read inner n = (\<lambda>(c, r).
     if pc_off c < length (pc_prefix c)
     then let b = take n (drop (pc_off c) (pc_prefix c)) in (b, c\<lparr>pc_off := pc_off c + length b\<rparr>, r)
     else let (b, r) = inner n r in (b, c, r))"

definition handOver :: "peekedHello \<Rightarrow> string \<Rightarrow> bytes \<Rightarrow> bool \<Rightarrow> prefixConn" where
  "handOver ph userID psk decoy =
     \<lparr>pc_prefix = ph_raw ph, pc_off = 0, pc_knownUser = userID, pc_knownPSK = psk, pc_decoy = decoy\<rparr>"

definition knownUserOf :: "prefixConn \<Rightarrow> knownUser" where
  "knownUserOf c = (if length (pc_knownPSK c) = 32 then \<lparr>k_id = pc_knownUser c, k_psk = pc_knownPSK c\<rparr> else \<lparr>k_id = [], k_psk = []\<rparr>)"

text \<open>What becomes of a connection: handed to the TLS server as a client or as a visitor, relayed, or closed.\<close>

datatype camo_out =
    HandOver prefixConn
  | RelayTo string bytes
  | CloseConn

text \<open>
  The environment of one connection: the clock, the server's configuration and identity, the peer's
  host, and whether the decoy origin can be reached.
\<close>

record camo_env =
  ce_now :: int
  ce_unix :: int
  ce_cfg :: ServerConfig
  ce_ver :: "nat option"
  ce_ident :: "bytes option option"
  ce_remote :: string
  ce_fallback :: string
  ce_dial :: "string \<Rightarrow> bool"
  ce_unmarshal :: "bytes \<Rightarrow> clientHello option"

definition camo_handle :: "camo_fns \<Rightarrow> camo_env \<Rightarrow> bytes \<Rightarrow> camo_state \<Rightarrow> camo_state \<times> camo_out \<times> bytes" where
  "camo_handle c e bs st =
     (let (ph, err, rest) = peekClientHello (ce_unmarshal e) bs;
          (idx, ent, reason) =
            (if err = None then resolveBySelector c (ce_cfg e) (ce_ver e) (ce_ident e) (ce_now e) (ce_unix e) (ph_random ph) (ph_keyShare ph) (cs_index st)
             else (cs_index st, None, selReasonShortFields));
          st = st\<lparr>cs_index := idx\<rparr> in
      case ent of Some en \<Rightarrow> (st, HandOver (handOver ph (se_userID en) (se_psk en) False), rest)
      | None \<Rightarrow>
          let (idx, keys) = (if err = None then camoKeys c (ce_cfg e) (ce_ver e) (ce_now e) (cs_index st) else (cs_index st, []));
              st = st\<lparr>cs_index := idx\<rparr> in
          if err = None \<and> MarkerMatches c (ce_unix e) keys (ph_random ph) (ph_keyShare ph)
          then (st, HandOver (handOver ph [] [] False), rest)
          else if ph_raw ph = [] then (st, CloseConn, rest)
          else if err = Some HelloIncomplete \<and> hd (ph_raw ph) = 0x16 then (st, CloseConn, rest)
          else
            let st = (if err = None then fst (driftProbeDue (ce_now e) st) else st);
                (rate, ok) = decoyIPRateAllow (ce_now e) (ce_remote e) (cs_rate st);
                st = st\<lparr>cs_rate := rate\<rparr> in
            if \<not> ok then (st, CloseConn, rest)
            else
              let target = camoDecoyAddr (ce_fallback e) (ph_sni ph) in
              if target \<noteq> [] \<and> ce_dial e target then (st, RelayTo target (ph_raw ph), rest)
              else (st, HandOver (handOver ph [] [] True), rest))"

section \<open>No byte is lost\<close>

lemma peek_loop_raw:
  "peek_loop f raw hs bs = (ph, err, rest) \<Longrightarrow> (err \<noteq> Some HelloIncomplete \<longrightarrow> ph_raw ph @ rest = raw @ bs) \<and>
     (raw = [] \<or> hd raw = 0x16 \<longrightarrow> err = Some HelloIncomplete \<longrightarrow> ph_raw ph = [] \<or> hd (ph_raw ph) = 0x16)"
proof (induction f raw hs bs arbitrary: ph err rest rule: peek_loop.induct)
  case (1 f raw hs bs)
  show ?case
  proof (cases "read_full 5 bs")
    case (Pair x r1)
    show ?thesis
    proof (cases x)
      case (Inl a)
      then show ?thesis using 1(3) Pair by (subst (asm) peek_loop.simps) (auto simp: only_raw_def)
    next
      case (Inr hdr)
      note rf1 = Pair [unfolded Inr]
      have h: "bs = hdr @ r1" "length hdr = 5" using read_full_InrD [OF rf1] by auto
      then have hd: "hdr \<noteq> []" "hd hdr = hdr ! 0" by (cases hdr; simp)+
      let ?n = "unat (hdr ! 3) * 256 + unat (hdr ! 4)"
      show ?thesis
      proof (cases "hdr ! 0 \<noteq> 0x16 \<or> ?n = 0 \<or> ?n > 16384")
        case True
        then have "ph_raw ph @ rest = raw @ bs \<and> err \<noteq> Some HelloIncomplete"
          using 1(3) rf1 h by (subst (asm) peek_loop.simps) (auto simp: only_raw_def Let_def split: if_splits)
        then show ?thesis by simp
      next
        case False
        then have ok: "\<not> hdr ! 0 \<noteq> 0x16" "\<not> (?n = 0 \<or> ?n > 16384)" by auto
        obtain y r2 where rf2: "read_full ?n r1 = (y, r2)" by fastforce
        have start: "raw = [] \<or> hd raw = 0x16 \<Longrightarrow> hd (raw @ hdr @ z) = 0x16" for z
          using ok(1) hd by (cases raw) auto
        show ?thesis
        proof (cases y)
          case (Inl a)
          then have e: "ph = only_raw (raw @ hdr) \<and> err = Some HelloIncomplete" using 1(3) rf1 rf2 ok
            by (subst (asm) peek_loop.simps) (auto simp: Let_def split: if_splits)
          then show ?thesis using start [of "[]"] by (simp add: only_raw_def)
        next
          case (Inr body)
          note rf2 = rf2 [unfolded Inr]
          have b: "r1 = body @ r2" using read_full_InrD [OF rf2] by simp
          let ?hs = "hs @ body" let ?raw = "(raw @ hdr) @ body"
          let ?want = "4 + (unat (?hs ! 1) * 65536 + unat (?hs ! 2) * 256 + unat (?hs ! 3))"
          consider (rec) "\<not> length ?hs > camoMaxHandshake" "length ?hs < 4 \<or> \<not> length ?hs < 4 \<and> \<not> ?hs ! 0 \<noteq> 0x01 \<and> length ?hs < ?want"
            | (stop) "length ?hs > camoMaxHandshake \<or> \<not> length ?hs < 4 \<and> (?hs ! 0 \<noteq> 0x01 \<or> \<not> length ?hs < ?want)" by blast
          then show ?thesis
          proof cases
            case stop
            then have "ph_raw ph @ rest = raw @ bs \<and> err \<noteq> Some HelloIncomplete"
              using 1(3) rf1 rf2 ok h b
              by (subst (asm) peek_loop.simps) (auto simp: only_raw_def Let_def split: if_splits option.splits)
            then show ?thesis by simp
          next
            case rec
            have "peek_loop f ?raw ?hs r2 = (ph, err, rest)"
              using 1(3) rf1 rf2 ok rec by (subst (asm) peek_loop.simps) (auto simp: Let_def split: if_splits)
            then have "(err \<noteq> Some HelloIncomplete \<longrightarrow> ph_raw ph @ rest = ?raw @ r2) \<and>
                (?raw = [] \<or> hd ?raw = 0x16 \<longrightarrow> err = Some HelloIncomplete \<longrightarrow> ph_raw ph = [] \<or> hd (ph_raw ph) = 0x16)"
              using rec 1(1) [OF rf1 [symmetric] refl refl refl ok rf2 [symmetric] refl refl refl refl rec(1)]
                1(2) [OF rf1 [symmetric] refl refl refl ok rf2 [symmetric] refl refl refl refl rec(1)] by blast
            then show ?thesis using start [of body] h b by simp
          qed
        qed
      qed
    qed
  qed
qed

lemma take_drop_length: "take n xs @ drop (length (take n xs)) xs = xs"
  by (metis append_eq_conv_conj append_take_drop_id)

lemma prefix_Read_keeps:
  "prefix_Read (\<lambda>n r. (take n r, drop n r)) n (c, r) = (b, c', r') \<Longrightarrow>
     b @ drop (pc_off c') (pc_prefix c') @ r' = drop (pc_off c) (pc_prefix c) @ r"
proof (cases "pc_off c < length (pc_prefix c)")
  case True
  assume "prefix_Read (\<lambda>n r. (take n r, drop n r)) n (c, r) = (b, c', r')"
  then have b: "b = take n (drop (pc_off c) (pc_prefix c))" "c' = c\<lparr>pc_off := pc_off c + length b\<rparr>" "r' = r"
    using True by (auto simp: prefix_Read_def Let_def)
  have "b @ drop (length b) (drop (pc_off c) (pc_prefix c)) = drop (pc_off c) (pc_prefix c)"
    unfolding b(1) by (rule take_drop_length)
  then show ?thesis using b(2,3) by (simp add: add.commute)
qed (auto simp: prefix_Read_def Let_def)

text \<open>What the server reads of a connection that is handed over.\<close>

definition pc_stream :: "prefixConn \<Rightarrow> bytes \<Rightarrow> bytes" where
  "pc_stream pc rest = drop (pc_off pc) (pc_prefix pc) @ rest"

lemma pc_stream_handOver [simp]: "pc_stream (handOver ph u k d) rest = ph_raw ph @ rest"
  by (simp add: pc_stream_def handOver_def)

text \<open>A hello of ours: the selector in its random field resolves, or one of the keys makes its marker.\<close>

definition camo_ours :: "camo_fns \<Rightarrow> camo_env \<Rightarrow> selectorIndex \<Rightarrow> peekedHello \<Rightarrow> string \<Rightarrow> bytes \<Rightarrow> bool" where
  "camo_ours c e idx ph user psk =
     (case resolveBySelector c (ce_cfg e) (ce_ver e) (ce_ident e) (ce_now e) (ce_unix e) (ph_random ph) (ph_keyShare ph) idx of
        (_, Some en, _) \<Rightarrow> user = se_userID en \<and> psk = se_psk en
      | (idx', None, _) \<Rightarrow> user = [] \<and> psk = [] \<and>
          MarkerMatches c (ce_unix e) (snd (camoKeys c (ce_cfg e) (ce_ver e) (ce_now e) idx')) (ph_random ph) (ph_keyShare ph))"

text \<open>
  C26: the camouflage layer forwards every connection unchanged: what the TLS server reads of a
  connection that is handed over, and what the decoy site is sent followed by what is still unread,
  is exactly what the peer sent. A connection goes through as a client only if its hello parsed and
  carries a selector the index resolves, and then with that user's key, or a marker that one of
  the registered keys makes, and then with no user.
\<close>

theorem camo_forwards_exactly:
  assumes "camo_handle c e bs st = (st', out, rest)"
  shows "(case out of
      HandOver pc \<Rightarrow> pc_stream pc rest = bs \<and>
        (\<not> pc_decoy pc \<longrightarrow> (\<exists>ph. peekClientHello (ce_unmarshal e) bs = (ph, None, rest) \<and>
           camo_ours c e (cs_index st) ph (pc_knownUser pc) (pc_knownPSK pc)))
    | RelayTo target pre \<Rightarrow> pre @ rest = bs \<and> target \<noteq> []
    | CloseConn \<Rightarrow> True)"
proof -
  obtain ph err r where pk: "peekClientHello (ce_unmarshal e) bs = (ph, err, r)" using prod_cases3 by blast
  note raw = peek_loop_raw [OF pk [unfolded peekClientHello_def]]
  have r: "rest = r" using assms pk by (auto simp: camo_handle_def Let_def split: prod.splits if_splits option.splits)
  have keep: "ph_raw ph @ rest = bs" if "err \<noteq> Some HelloIncomplete" using raw that r by simp
  have incomplete: "ph_raw ph = [] \<or> hd (ph_raw ph) = 0x16" if "err = Some HelloIncomplete" using raw that by simp
  show ?thesis
  proof (cases out)
    case (HandOver pc)
    have pre: "\<exists>u k d. pc = handOver ph u k d" and nerr: "err \<noteq> Some HelloIncomplete"
      using assms pk HandOver incomplete by (auto simp: camo_handle_def Let_def split: prod.splits if_splits option.splits)
    moreover have "err = None \<and> camo_ours c e (cs_index st) ph (pc_knownUser pc) (pc_knownPSK pc)" if "\<not> pc_decoy pc"
      using assms pk HandOver that
      by (auto simp: camo_handle_def camo_ours_def handOver_def Let_def split: prod.splits if_splits option.splits)
    ultimately show ?thesis using HandOver keep pk r by auto
  next
    case (RelayTo target pre)
    have "pre = ph_raw ph" "err \<noteq> Some HelloIncomplete" "target \<noteq> []"
      using assms pk RelayTo incomplete by (auto simp: camo_handle_def Let_def split: prod.splits if_splits option.splits)
    then show ?thesis using RelayTo keep by simp
  qed simp
qed

section \<open>Selectors\<close>


lemma length_selector [simp]: "length (UserTag c psk) = SelectorSize" "length (selectorMask c sh) = SelectorSize"
  "length (xorTag a b) = min (length a) (length b)" "length (markerFor c key w ks) = MarkerSize"
  by (simp_all add: UserTag_def selectorMask_def xorTag_def markerFor_def)




definition demo_camo :: camo_fns where
  "demo_camo = \<lparr>cHMAC = (\<lambda>k m. take 32 (k @ replicate 32 0)), cSHA256 = (\<lambda>m. replicate 32 5), cECDH = (\<lambda>a b. Some (replicate 32 9))\<rparr>"


text \<open>A connection of a peer that does not speak TLS.\<close>

definition demo_env :: camo_env where
  "demo_env = \<lparr>ce_now = 0, ce_unix = 0, ce_cfg = \<lparr>sc_SharedSecret = [], sc_users = None, sc_OnConn = True\<rparr>, ce_ver = None,
     ce_ident = None, ce_remote = ''203.0.113.9'', ce_fallback = ''example.org'', ce_dial = (\<lambda>_. True), ce_unmarshal = (\<lambda>_. None)\<rparr>"

definition demo_camo_state :: camo_state where
  "demo_camo_state = \<lparr>cs_driftLast = 0, cs_rate = \<lparr>dr_seen = [], dr_count = [], dr_lastClean = 0\<rparr>, cs_index = new_selectorIndex\<rparr>"

theorem camo_forwards_exactly_witness:
  "\<exists>st'. camo_handle demo_camo demo_env (bytes_of ''GET / HTTP/1.0'') demo_camo_state =
      (st', RelayTo ''example.org:443'' (bytes_of ''GET /''), bytes_of '' HTTP/1.0'') \<and>
    bytes_of ''GET /'' @ bytes_of '' HTTP/1.0'' = bytes_of ''GET / HTTP/1.0''"
proof -
  have "peekClientHello (\<lambda>_. None) (bytes_of ''GET / HTTP/1.0'') = (only_raw (bytes_of ''GET /''), Some NotHandshakeRecord, bytes_of '' HTTP/1.0'')"
    unfolding peekClientHello_def by (subst peek_loop.simps) (simp add: read_full_def bytes_of_def Let_def)
  moreover have "ParseIP [] = None" by (simp add: ParseIP_def ParseAddr_def)
  ultimately have "\<exists>st'. camo_handle demo_camo demo_env (bytes_of ''GET / HTTP/1.0'') demo_camo_state =
      (st', RelayTo ''example.org:443'' (bytes_of ''GET /''), bytes_of '' HTTP/1.0'')"
    by (simp add: camo_handle_def demo_env_def demo_camo_state_def only_raw_def decoyIPRateAllow_def rate_clean_def
        camoDecoyAddr_def validSNI_def JoinHostPort_def Let_def) (simp add: bytes_of_def)
  then obtain st' where st': "camo_handle demo_camo demo_env (bytes_of ''GET / HTTP/1.0'') demo_camo_state =
      (st', RelayTo ''example.org:443'' (bytes_of ''GET /''), bytes_of '' HTTP/1.0'')" ..
  then show ?thesis using camo_forwards_exactly [OF st'] by simp
qed

end
