(* ===== verification/Router.thy ===== *)
theory Router
  imports GoAddr "HOL-Library.Multiset"
begin

text \<open>
  The routing engine (\<^verbatim>\<open>core/router/router.go\<close>) and the cache it answers from
  (\<^verbatim>\<open>common/cache/cache.go\<close>). Rules are kept by falling priority and compiled once; the destination of
  a packet is remembered under the text of its destination address. The table under the cache
  is \<^verbatim>\<open>golang-lru\<close>, a parameter; \<^verbatim>\<open>sort.Slice\<close>, which leaves the order of equal elements open, is
  one too. A destination is a value here: the pointers the code hands out lead into arrays that
  only the operations below change, and those empty the cache.
\<close>

section \<open>The cache\<close>

record 'v lruEntry =
  le_value :: 'v
  le_counter :: int
  le_expiresAt :: "int option"

record ('c, 'v) lrulib =
  ll_Get :: "string \<Rightarrow> 'c \<Rightarrow> 'v lruEntry option \<times> 'c"
  ll_Add :: "string \<Rightarrow> 'v lruEntry \<Rightarrow> 'c \<Rightarrow> 'c"
  ll_Remove :: "string \<Rightarrow> 'c \<Rightarrow> 'c"
  ll_Purge :: "'c \<Rightarrow> 'c"
  ll_Len :: "'c \<Rightarrow> nat"

definition expired :: "int \<Rightarrow> 'v lruEntry \<Rightarrow> bool" where
  "expired now e = (case le_expiresAt e of None \<Rightarrow> False | Some t \<Rightarrow> now > t)"

definition cache_Get :: "('c, 'v) lrulib \<Rightarrow> 'v \<Rightarrow> int \<Rightarrow> string \<Rightarrow> 'c \<Rightarrow> 'v \<times> 'c" where
  "cache_Get lib zero now key c =
     (case ll_Get lib key c of
        (None, c) \<Rightarrow> (zero, c)
      | (Some e, c) \<Rightarrow> if expired now e then (zero, ll_Remove lib key c) else (le_value e, c))"

definition cache_Set :: "('c, 'v) lrulib \<Rightarrow> int \<Rightarrow> string \<Rightarrow> 'v \<Rightarrow> int \<Rightarrow> 'c \<Rightarrow> 'c" where
  "cache_Set lib now key v ttl c =
     ll_Add lib key \<lparr>le_value = v, le_counter = 0, le_expiresAt = (if ttl > 0 then Some (now + ttl) else None)\<rparr> c"

definition cache_Delete :: "('c, 'v) lrulib \<Rightarrow> string \<Rightarrow> 'c \<Rightarrow> 'c" where
  "cache_Delete lib key c = ll_Remove lib key c"

definition cache_Exists :: "('c, 'v) lrulib \<Rightarrow> int \<Rightarrow> string \<Rightarrow> 'c \<Rightarrow> bool \<times> 'c" where
  "cache_Exists lib now key c =
     (case ll_Get lib key c of
        (None, c) \<Rightarrow> (False, c)
      | (Some e, c) \<Rightarrow> if expired now e then (False, ll_Remove lib key c) else (True, c))"

definition cache_Clear :: "('c, 'v) lrulib \<Rightarrow> 'c \<Rightarrow> 'c" where
  "cache_Clear lib c = ll_Purge lib c"

definition cache_Len :: "('c, 'v) lrulib \<Rightarrow> 'c \<Rightarrow> nat" where
  "cache_Len lib c = ll_Len lib c"

text \<open>
  What \<^verbatim>\<open>golang-lru\<close> documents, over its contents: a lookup answers from them and keeps them, an
  added entry replaces the one under its key, other entries may be evicted, and entries go when removed.
\<close>

definition lru_lawful :: "('c, 'v) lrulib \<Rightarrow> ('c \<Rightarrow> string \<Rightarrow> 'v lruEntry option) \<Rightarrow> bool" where
  "lru_lawful lib cont \<longleftrightarrow>
     (\<forall>k c. fst (ll_Get lib k c) = cont c k \<and> cont (snd (ll_Get lib k c)) = cont c) \<and>
     (\<forall>k v c j x. cont (ll_Add lib k v c) j = Some x \<longrightarrow> (if j = k then x = v else cont c j = Some x)) \<and>
     (\<forall>k c j x. cont (ll_Remove lib k c) j = Some x \<longrightarrow> j \<noteq> k \<and> cont c j = Some x) \<and>
     (\<forall>c j. cont (ll_Purge lib c) j = None)"

section \<open>Rules and packets\<close>

text \<open>Of rules and packets, the fields the engine reads.\<close>

datatype DestinationType = DestinationDirect | DestinationProxy | DestinationBlock | DestinationTUN

record Destination =
  d_Type :: DestinationType
  d_Address :: string
  d_Port :: "16 word"
  d_Tag :: string

text \<open>The dynamic types of \<^verbatim>\<open>Value\<close> the engine asks for, and all others.\<close>

datatype cond_value =
    VString string
  | VStrings "string list"
  | VInt int
  | VInts "int list"
  | VUint32 "32 word"
  | VUint32s "32 word list"
  | VOther

record RuleCondition =
  c_Field :: string
  c_Operator :: string
  c_Value :: cond_value

record RoutingRule =
  rr_ID :: string
  rr_Priority :: int
  rr_Conditions :: "RuleCondition list"
  rr_Destination :: Destination

record Packet =
  p_SessionID :: "32 word"
  p_SrcAddr :: "net_Addr option"
  p_DstAddr :: "net_Addr option"

record Config =
  cf_DefaultDestination :: Destination
  cf_MaxRules :: int
  cf_EnableCache :: bool
  cf_CacheSize :: int

definition DefaultConfig :: Config where
  "DefaultConfig =
     \<lparr>cf_DefaultDestination = \<lparr>d_Type = DestinationDirect, d_Address = [], d_Port = 0, d_Tag = []\<rparr>,
      cf_MaxRules = 1000, cf_EnableCache = True, cf_CacheSize = 10000\<rparr>"

definition Validate :: "Config \<Rightarrow> Config" where
  "Validate c =
     (let c = (if cf_MaxRules c \<le> 0 then c\<lparr>cf_MaxRules := 1000\<rparr> else c)
      in if cf_CacheSize c \<le> 0 then c\<lparr>cf_CacheSize := 10000\<rparr> else c)"

record compiledCond =
  cc_field :: string
  cc_cidr :: "IPNet option"
  cc_ip :: "IP option"
  cc_raw :: RuleCondition

record compiledRule =
  cr_conds :: "compiledCond list"
  cr_dest :: Destination

definition is_ip_field :: "string \<Rightarrow> bool" where
  "is_ip_field f \<longleftrightarrow> f = ''dst_ip'' \<or> f = ''src_ip''"

definition compileCond :: "RuleCondition \<Rightarrow> compiledCond" where
  "compileCond cond =
     (let cc = \<lparr>cc_field = c_Field cond, cc_cidr = None, cc_ip = None, cc_raw = cond\<rparr> in
      case c_Value cond of
        VString s \<Rightarrow>
          if \<not> is_ip_field (c_Field cond) then cc
          else if c_Operator cond = ''cidr'' then cc\<lparr>cc_cidr := map_option snd (ParseCIDR s)\<rparr>
          else if c_Operator cond = ''eq'' then cc\<lparr>cc_ip := ParseIP s\<rparr>
          else cc
      | _ \<Rightarrow> cc)"

definition compileRule :: "RoutingRule \<Rightarrow> compiledRule" where
  "compileRule r = \<lparr>cr_conds = map compileCond (rr_Conditions r), cr_dest = rr_Destination r\<rparr>"

section \<open>Matching\<close>

fun addrIP :: "net_Addr option \<Rightarrow> IP option" where
  "addrIP (Some (UDPAddr ip port zone)) = Some ip"
| "addrIP (Some (TCPAddr ip port zone)) = Some ip"
| "addrIP _ = None"

fun addrPort :: "net_Addr option \<Rightarrow> int option" where
  "addrPort (Some (UDPAddr ip port zone)) = Some port"
| "addrPort (Some (TCPAddr ip port zone)) = Some port"
| "addrPort _ = None"

definition matchIP :: "net_Addr option \<Rightarrow> RuleCondition \<Rightarrow> bool" where
  "matchIP addr cond =
     (case addrIP addr of None \<Rightarrow> False
      | Some ip \<Rightarrow>
          if c_Operator cond = ''eq'' then (case c_Value cond of VString s \<Rightarrow> ip_String ip = s | _ \<Rightarrow> False)
          else if c_Operator cond = ''cidr''
          then (case c_Value cond of VString s \<Rightarrow> (case ParseCIDR s of None \<Rightarrow> False | Some (_, cidr) \<Rightarrow> net_Contains cidr ip) | _ \<Rightarrow> False)
          else if c_Operator cond = ''in'' then (case c_Value cond of VStrings l \<Rightarrow> ip_String ip \<in> set l | _ \<Rightarrow> False)
          else False)"

definition matchPort :: "net_Addr option \<Rightarrow> RuleCondition \<Rightarrow> bool" where
  "matchPort addr cond =
     (case addrPort addr of None \<Rightarrow> False
      | Some port \<Rightarrow>
          if c_Operator cond = ''eq'' then (case c_Value cond of VInt v \<Rightarrow> port = v | _ \<Rightarrow> False)
          else if c_Operator cond = ''in'' then (case c_Value cond of VInts l \<Rightarrow> port \<in> set l | _ \<Rightarrow> False)
          else if c_Operator cond = ''range''
          then (case c_Value cond of VInts [lo, hi] \<Rightarrow> port \<ge> lo \<and> port \<le> hi | _ \<Rightarrow> False)
          else False)"

definition matchSessionID :: "Packet \<Rightarrow> RuleCondition \<Rightarrow> bool" where
  "matchSessionID packet cond =
     (if c_Operator cond = ''eq'' then (case c_Value cond of VUint32 v \<Rightarrow> p_SessionID packet = v | _ \<Rightarrow> False)
      else if c_Operator cond = ''in'' then (case c_Value cond of VUint32s l \<Rightarrow> p_SessionID packet \<in> set l | _ \<Rightarrow> False)
      else False)"

definition matchCondition :: "RuleCondition \<Rightarrow> Packet \<Rightarrow> bool" where
  "matchCondition cond packet =
     (if c_Field cond = ''dst_ip'' then matchIP (p_DstAddr packet) cond
      else if c_Field cond = ''src_ip'' then matchIP (p_SrcAddr packet) cond
      else if c_Field cond = ''dst_port'' then matchPort (p_DstAddr packet) cond
      else if c_Field cond = ''src_port'' then matchPort (p_SrcAddr packet) cond
      else if c_Field cond = ''session_id'' then matchSessionID packet cond
      else False)"

definition matchCompiledCond :: "compiledCond \<Rightarrow> Packet \<Rightarrow> bool" where
  "matchCompiledCond c packet =
     (if cc_cidr c = None \<and> cc_ip c = None then matchCondition (cc_raw c) packet
      else let addr = (if cc_field c = ''src_ip'' then p_SrcAddr packet else p_DstAddr packet) in
        case addrIP addr of None \<Rightarrow> False
        | Some ip \<Rightarrow>
            (case cc_cidr c of None \<Rightarrow> True | Some cidr \<Rightarrow> net_Contains cidr ip) \<and>
            (case cc_ip c of None \<Rightarrow> True | Some i \<Rightarrow> ip_equal i ip))"

definition matchCompiled :: "compiledRule \<Rightarrow> Packet \<Rightarrow> bool" where
  "matchCompiled cr packet = list_all (\<lambda>c. matchCompiledCond c packet) (cr_conds cr)"

section \<open>The engine\<close>

record 'c Engine =
  en_config :: Config
  en_rules :: "RoutingRule list"
  en_compiled :: "compiledRule list"
  en_byID :: "(string, RoutingRule) gomap"
  en_cache :: 'c
  en_routeHits :: "64 word"
  en_routeMisses :: "64 word"
  en_cacheHits :: "64 word"
  en_cacheMisses :: "64 word"

definition New_Engine :: "Config option \<Rightarrow> 'c \<Rightarrow> 'c Engine" where
  "New_Engine cfg c0 =
     \<lparr>en_config = Validate (case cfg of None \<Rightarrow> DefaultConfig | Some c \<Rightarrow> c), en_rules = [], en_compiled = [], en_byID = [],
      en_cache = c0, en_routeHits = 0, en_routeMisses = 0, en_cacheHits = 0, en_cacheMisses = 0\<rparr>"

definition recompileLocked :: "'c Engine \<Rightarrow> 'c Engine" where
  "recompileLocked e = e\<lparr>en_compiled := map compileRule (en_rules e)\<rparr>"

definition RoutesOnAddress :: "'c Engine \<Rightarrow> bool" where
  "RoutesOnAddress e \<longleftrightarrow> list_ex (\<lambda>r. list_ex (\<lambda>c. is_ip_field (c_Field c)) (rr_Conditions r)) (en_rules e)"

type_synonym 'c dest_lib = "('c, Destination option) lrulib"

definition checkCache :: "'c dest_lib \<Rightarrow> int \<Rightarrow> Packet \<Rightarrow> 'c Engine \<Rightarrow> Destination option \<times> 'c Engine" where
  "checkCache lib now packet e =
     (case p_DstAddr packet of None \<Rightarrow> (None, e)
      | Some a \<Rightarrow> let (d, c) = cache_Get lib None now (addr_String a) (en_cache e) in (d, e\<lparr>en_cache := c\<rparr>))"

definition updateCache :: "'c dest_lib \<Rightarrow> int \<Rightarrow> Packet \<Rightarrow> Destination \<Rightarrow> 'c Engine \<Rightarrow> 'c Engine" where
  "updateCache lib now packet dest e =
     (case p_DstAddr packet of None \<Rightarrow> e
      | Some a \<Rightarrow> e\<lparr>en_cache := cache_Set lib now (addr_String a) (Some dest) 0 (en_cache e)\<rparr>)"

definition clearCache :: "'c dest_lib \<Rightarrow> 'c Engine \<Rightarrow> 'c Engine" where
  "clearCache lib e = e\<lparr>en_cache := cache_Clear lib (en_cache e)\<rparr>"

text \<open>
  \<^verbatim>\<open>Route\<close> in its two halves: asking the cache and taking the compiled rules, and matching them and
  storing the result. Nothing holds the engine's lock in between.
\<close>

definition route_lookup :: "'c dest_lib \<Rightarrow> int \<Rightarrow> Packet \<Rightarrow> 'c Engine \<Rightarrow> (Destination + compiledRule list) \<times> 'c Engine" where
  "route_lookup lib now packet e =
     (if \<not> cf_EnableCache (en_config e) then (Inr (en_compiled e), e)
      else case checkCache lib now packet e of
        (Some dest, e) \<Rightarrow> (Inl dest, e\<lparr>en_cacheHits := en_cacheHits e + 1, en_routeHits := en_routeHits e + 1\<rparr>)
      | (None, e) \<Rightarrow> (Inr (en_compiled e), e\<lparr>en_cacheMisses := en_cacheMisses e + 1\<rparr>))"

definition route_match :: "'c dest_lib \<Rightarrow> int \<Rightarrow> Packet \<Rightarrow> compiledRule list \<Rightarrow> 'c Engine \<Rightarrow> Destination \<times> 'c Engine" where
  "route_match lib now packet rules e =
     (let (dest, e) = (case find (\<lambda>r. matchCompiled r packet) rules of
            Some r \<Rightarrow> (cr_dest r, e\<lparr>en_routeHits := en_routeHits e + 1\<rparr>)
          | None \<Rightarrow> (cf_DefaultDestination (en_config e), e\<lparr>en_routeMisses := en_routeMisses e + 1\<rparr>))
      in (dest, if cf_EnableCache (en_config e) then updateCache lib now packet dest e else e))"

definition Route :: "'c dest_lib \<Rightarrow> int \<Rightarrow> Packet \<Rightarrow> 'c Engine \<Rightarrow> Destination \<times> 'c Engine" where
  "Route lib now packet e =
     (case route_lookup lib now packet e of
        (Inl dest, e) \<Rightarrow> (dest, e)
      | (Inr rules, e) \<Rightarrow> route_match lib now packet rules e)"

datatype router_error = RuleIDRequired | RuleExists string | MaxRulesReached int | RuleNotFound string | DuplicateRule string

text \<open>\<open>srt\<close> is \<^verbatim>\<open>sort.Slice\<close> by falling priority.\<close>

definition index_rules :: "RoutingRule list \<Rightarrow> (string, RoutingRule) gomap" where
  "index_rules rs = fold (\<lambda>r. gm_put (rr_ID r) r) rs []"

definition AddRule :: "'c dest_lib \<Rightarrow> (RoutingRule list \<Rightarrow> RoutingRule list) \<Rightarrow> RoutingRule \<Rightarrow> 'c Engine \<Rightarrow> 'c Engine \<times> router_error option" where
  "AddRule lib srt rule e =
     (if rr_ID rule = [] then (e, Some RuleIDRequired)
      else if gm_get (en_byID e) (rr_ID rule) \<noteq> None then (e, Some (RuleExists (rr_ID rule)))
      else if int (length (en_rules e)) \<ge> cf_MaxRules (en_config e) then (e, Some (MaxRulesReached (cf_MaxRules (en_config e))))
      else let rules = srt (en_rules e @ [rule])
           in (clearCache lib (recompileLocked (e\<lparr>en_rules := rules, en_byID := index_rules rules\<rparr>)), None))"

definition RemoveRule :: "'c dest_lib \<Rightarrow> string \<Rightarrow> 'c Engine \<Rightarrow> 'c Engine \<times> router_error option" where
  "RemoveRule lib ident e =
     (if gm_get (en_byID e) ident = None then (e, Some (RuleNotFound ident))
      else let e = recompileLocked (e\<lparr>en_rules := filter (\<lambda>r. rr_ID r \<noteq> ident) (en_rules e)\<rparr>)
           in (clearCache lib (e\<lparr>en_byID := gm_del ident (en_byID e)\<rparr>), None))"

fun check_ids :: "string list \<Rightarrow> RoutingRule list \<Rightarrow> router_error option" where
  "check_ids seen [] = None"
| "check_ids seen (r # rs) =
     (if rr_ID r = [] then Some RuleIDRequired
      else if rr_ID r \<in> set seen then Some (DuplicateRule (rr_ID r))
      else check_ids (rr_ID r # seen) rs)"

definition UpdateRules :: "'c dest_lib \<Rightarrow> (RoutingRule list \<Rightarrow> RoutingRule list) \<Rightarrow> RoutingRule list \<Rightarrow> 'c Engine \<Rightarrow> 'c Engine \<times> router_error option" where
  "UpdateRules lib srt rules e =
     (case check_ids [] rules of Some err \<Rightarrow> (e, Some err)
      | None \<Rightarrow>
          let rules = srt rules; e = recompileLocked (e\<lparr>en_rules := rules\<rparr>)
          in (clearCache lib (e\<lparr>en_byID := index_rules rules\<rparr>), None))"

definition GetRules :: "'c Engine \<Rightarrow> RoutingRule list" where
  "GetRules e = en_rules e"

definition GetRule :: "'c Engine \<Rightarrow> string \<Rightarrow> RoutingRule option" where
  "GetRule e ident = gm_get (en_byID e) ident"

definition CacheDomain :: "'c dest_lib \<Rightarrow> int \<Rightarrow> string \<Rightarrow> Destination option \<Rightarrow> 'c Engine \<Rightarrow> 'c Engine" where
  "CacheDomain lib now domain dest e =
     e\<lparr>en_cache := cache_Set lib now (''domain:'' @ to_lower domain) dest 0 (en_cache e)\<rparr>"

definition LookupDomain :: "'c dest_lib \<Rightarrow> int \<Rightarrow> string \<Rightarrow> 'c Engine \<Rightarrow> Destination option \<times> 'c Engine" where
  "LookupDomain lib now domain e =
     (let (d, c) = cache_Get lib None now (''domain:'' @ to_lower domain) (en_cache e) in (d, e\<lparr>en_cache := c\<rparr>))"

text \<open>Any sequence of uses, each with its time.\<close>

datatype router_op =
    OpAdd RoutingRule
  | OpRemove string
  | OpUpdate "RoutingRule list"
  | OpRoute Packet
  | OpCacheDomain string "Destination option"
  | OpLookupDomain string

fun router_step :: "'c dest_lib \<Rightarrow> (RoutingRule list \<Rightarrow> RoutingRule list) \<Rightarrow> int \<times> router_op \<Rightarrow> 'c Engine \<Rightarrow> 'c Engine" where
  "router_step lib srt (now, OpAdd r) e = fst (AddRule lib srt r e)"
| "router_step lib srt (now, OpRemove ident) e = fst (RemoveRule lib ident e)"
| "router_step lib srt (now, OpUpdate rs) e = fst (UpdateRules lib srt rs e)"
| "router_step lib srt (now, OpRoute p) e = snd (Route lib now p e)"
| "router_step lib srt (now, OpCacheDomain d x) e = CacheDomain lib now d x e"
| "router_step lib srt (now, OpLookupDomain d) e = snd (LookupDomain lib now d e)"

definition router_run :: "'c dest_lib \<Rightarrow> (RoutingRule list \<Rightarrow> RoutingRule list) \<Rightarrow> (int \<times> router_op) list \<Rightarrow> 'c Engine \<Rightarrow> 'c Engine" where
  "router_run lib srt ops e = fold (router_step lib srt) ops e"

section \<open>Well-formed engines\<close>

text \<open>What \<^verbatim>\<open>sort.Slice\<close> promises with the comparison the engine gives it.\<close>

definition falling :: "RoutingRule list \<Rightarrow> bool" where
  "falling = sorted_wrt (\<lambda>a b. rr_Priority a \<ge> rr_Priority b)"

definition sort_Slice_ok :: "(RoutingRule list \<Rightarrow> RoutingRule list) \<Rightarrow> bool" where
  "sort_Slice_ok srt \<longleftrightarrow> (\<forall>rs. mset (srt rs) = mset rs \<and> falling (srt rs))"

definition engine_ok :: "'c Engine \<Rightarrow> bool" where
  "engine_ok e \<longleftrightarrow>
     distinct (map rr_ID (en_rules e)) \<and> (\<forall>r \<in> set (en_rules e). rr_ID r \<noteq> []) \<and> falling (en_rules e) \<and>
     en_compiled e = map compileRule (en_rules e) \<and>
     (\<forall>k r. GetRule e k = Some r \<longleftrightarrow> r \<in> set (en_rules e) \<and> rr_ID r = k)"

lemma index_rules_get:
  assumes "distinct (map rr_ID rs)"
  shows "gm_get (index_rules rs) k = Some r \<longleftrightarrow> r \<in> set rs \<and> rr_ID r = k"
proof -
  have "gm_get (fold (\<lambda>r. gm_put (rr_ID r) r) rs m) k = Some r \<longleftrightarrow>
      (r \<in> set rs \<and> rr_ID r = k) \<or> (gm_get m k = Some r \<and> k \<notin> rr_ID ` set rs)" for m
    using assms
  proof (induction rs arbitrary: m)
    case (Cons x xs)
    then show ?case by (auto simp: image_iff)
  qed simp
  then show ?thesis by (simp add: index_rules_def)
qed

lemma check_ids_None: "check_ids seen rs = None \<longleftrightarrow>
    distinct (map rr_ID rs) \<and> (\<forall>r \<in> set rs. rr_ID r \<noteq> []) \<and> set (map rr_ID rs) \<inter> set seen = {}"
  by (induction seen rs rule: check_ids.induct) auto

lemma sort_Slice_distinct:
  assumes "sort_Slice_ok srt" "distinct (map rr_ID rs)"
  shows "distinct (map rr_ID (srt rs))" "set (srt rs) = set rs" "falling (srt rs)"
proof -
  have m: "mset (srt rs) = mset rs" using assms(1) by (simp add: sort_Slice_ok_def)
  then have "mset (map rr_ID (srt rs)) = mset (map rr_ID rs)" by simp
  then show "distinct (map rr_ID (srt rs))" using assms(2) by (metis mset_eq_imp_distinct_iff)
  show "set (srt rs) = set rs" using m by (metis set_mset_mset)
  show "falling (srt rs)" using assms(1) by (simp add: sort_Slice_ok_def)
qed

lemma engine_ok_install:
  assumes "sort_Slice_ok srt" "distinct (map rr_ID rs)" "\<forall>r \<in> set rs. rr_ID r \<noteq> []"
    "en_rules e = srt rs" "en_byID e = index_rules (srt rs)" "en_compiled e = map compileRule (en_rules e)"
  shows "engine_ok e"
  using sort_Slice_distinct [OF assms(1,2)] index_rules_get [OF sort_Slice_distinct(1) [OF assms(1,2)]] assms(3-6)
  by (simp add: engine_ok_def GetRule_def)

lemma engine_ok_New [simp]: "engine_ok (New_Engine cfg c0)"
  by (simp add: engine_ok_def New_Engine_def GetRule_def falling_def)

lemma engine_ok_same:
  "engine_ok e \<Longrightarrow> en_rules e' = en_rules e \<Longrightarrow> en_byID e' = en_byID e \<Longrightarrow> en_compiled e' = en_compiled e \<Longrightarrow> engine_ok e'"
  by (simp add: engine_ok_def GetRule_def)

lemma Route_keeps:
  "en_rules (snd (Route lib now p e)) = en_rules e" "en_byID (snd (Route lib now p e)) = en_byID e"
  "en_compiled (snd (Route lib now p e)) = en_compiled e" "en_config (snd (Route lib now p e)) = en_config e"
  by (auto simp: Route_def route_lookup_def route_match_def checkCache_def updateCache_def Let_def
      split: option.split prod.split sum.split)

lemma engine_ok_AddRule: "sort_Slice_ok srt \<Longrightarrow> engine_ok e \<Longrightarrow> engine_ok (fst (AddRule lib srt r e))"
proof -
  assume s: "sort_Slice_ok srt" and ok: "engine_ok e"
  show ?thesis
  proof (cases "snd (AddRule lib srt r e) = None")
    case True
    then have g: "rr_ID r \<noteq> []" "gm_get (en_byID e) (rr_ID r) = None"
      by (auto simp: AddRule_def Let_def split: if_splits)
    have "gm_get (en_byID e) (rr_ID x) = Some x" if "x \<in> set (en_rules e)" for x
      using ok that by (simp add: engine_ok_def GetRule_def)
    with g(2) have "rr_ID r \<notin> rr_ID ` set (en_rules e)" by force
    then have "distinct (map rr_ID (en_rules e @ [r]))" "\<forall>x \<in> set (en_rules e @ [r]). rr_ID x \<noteq> []"
      using ok g(1) by (auto simp: engine_ok_def)
    from engine_ok_install [OF s this, of "fst (AddRule lib srt r e)"] True show ?thesis
      by (auto simp: AddRule_def Let_def clearCache_def recompileLocked_def split: if_splits)
  next
    case False
    then have "fst (AddRule lib srt r e) = e" by (auto simp: AddRule_def Let_def)
    then show ?thesis using ok by simp
  qed
qed

lemma engine_ok_RemoveRule: "engine_ok e \<Longrightarrow> engine_ok (fst (RemoveRule lib k e))"
proof -
  assume ok: "engine_ok e"
  have d: "distinct (map rr_ID (filter P (en_rules e)))" "falling (filter P (en_rules e))" for P
    using ok by (auto simp: engine_ok_def falling_def distinct_map_filter sorted_wrt_filter)
  show ?thesis using ok d
    by (auto simp: RemoveRule_def Let_def clearCache_def recompileLocked_def engine_ok_def GetRule_def)
qed

lemma engine_ok_UpdateRules: "sort_Slice_ok srt \<Longrightarrow> engine_ok e \<Longrightarrow> engine_ok (fst (UpdateRules lib srt rs e))"
proof (cases "check_ids [] rs")
  case None
  assume s: "sort_Slice_ok srt"
  from None have i: "distinct (map rr_ID rs)" "\<forall>r \<in> set rs. rr_ID r \<noteq> []" by (simp_all add: check_ids_None)
  from engine_ok_install [OF s i, of "fst (UpdateRules lib srt rs e)"] None show ?thesis
    by (simp add: UpdateRules_def Let_def clearCache_def recompileLocked_def)
qed (simp add: UpdateRules_def)

lemma engine_ok_step:
  assumes "sort_Slice_ok srt" "engine_ok e"
  shows "engine_ok (router_step lib srt op e)"
proof (cases "snd op")
  case (OpRoute p)
  then show ?thesis using engine_ok_same [OF assms(2) Route_keeps(1-3)] by (cases op) simp
qed (use assms in \<open>cases op; auto simp: engine_ok_AddRule engine_ok_RemoveRule engine_ok_UpdateRules CacheDomain_def LookupDomain_def Let_def
    split: prod.split elim!: engine_ok_same\<close>)+

lemma router_run_invariant:
  assumes "P e" "\<And>op e. op \<in> set ops \<Longrightarrow> P e \<Longrightarrow> P (router_step lib srt op e)"
  shows "P (router_run lib srt ops e)"
  using assms unfolding router_run_def by (induction ops arbitrary: e) auto

section \<open>Rules by their meaning\<close>

definition ip_cond_holds :: "IP \<Rightarrow> string \<Rightarrow> cond_value \<Rightarrow> bool" where
  "ip_cond_holds ip op v =
     (case v of
        VString s \<Rightarrow>
          if op = ''cidr'' then (case ParseCIDR s of Some (_, n) \<Rightarrow> net_Contains n ip | None \<Rightarrow> False)
          else op = ''eq'' \<and> (case ParseIP s of Some i \<Rightarrow> ip_equal i ip | None \<Rightarrow> ip_String ip = s)
      | VStrings l \<Rightarrow> op = ''in'' \<and> ip_String ip \<in> set l
      | _ \<Rightarrow> False)"

definition cond_holds :: "Packet \<Rightarrow> RuleCondition \<Rightarrow> bool" where
  "cond_holds p c =
     (if c_Field c = ''dst_ip'' then (case addrIP (p_DstAddr p) of Some ip \<Rightarrow> ip_cond_holds ip (c_Operator c) (c_Value c) | None \<Rightarrow> False)
      else if c_Field c = ''src_ip'' then (case addrIP (p_SrcAddr p) of Some ip \<Rightarrow> ip_cond_holds ip (c_Operator c) (c_Value c) | None \<Rightarrow> False)
      else matchCondition c p)"

definition rule_holds :: "Packet \<Rightarrow> RoutingRule \<Rightarrow> bool" where
  "rule_holds p r \<longleftrightarrow> (\<forall>c \<in> set (rr_Conditions r). cond_holds p c)"

definition best_destination :: "RoutingRule list \<Rightarrow> Destination \<Rightarrow> Packet \<Rightarrow> Destination" where
  "best_destination rules dflt p = (case find (rule_holds p) rules of Some r \<Rightarrow> rr_Destination r | None \<Rightarrow> dflt)"

lemma matchCompiledCond_holds: "matchCompiledCond (compileCond c) p = cond_holds p c"
proof (cases "c_Value c")
  case (VString s)
  show ?thesis
  proof (cases "is_ip_field (c_Field c)")
    case True
    then show ?thesis using VString
      by (auto simp: compileCond_def matchCompiledCond_def cond_holds_def ip_cond_holds_def matchCondition_def matchIP_def is_ip_field_def Let_def
          split: option.split)
  next
    case False
    then show ?thesis using VString
      by (auto simp: compileCond_def matchCompiledCond_def cond_holds_def is_ip_field_def Let_def)
  qed
qed (auto simp: compileCond_def matchCompiledCond_def cond_holds_def ip_cond_holds_def matchCondition_def matchIP_def Let_def split: option.split)

lemma matchCompiled_holds: "matchCompiled (compileRule r) p = rule_holds p r"
  by (simp add: matchCompiled_def compileRule_def rule_holds_def list_all_iff matchCompiledCond_holds)

lemma find_map: "find P (map f xs) = map_option f (find (\<lambda>x. P (f x)) xs)"
  by (induction xs) auto

lemma compiled_best:
  "(case find (\<lambda>r. matchCompiled r p) (map compileRule rs) of Some r \<Rightarrow> cr_dest r | None \<Rightarrow> d) = best_destination rs d p"
proof -
  have "find (\<lambda>r. matchCompiled r p) (map compileRule rs) = map_option compileRule (find (rule_holds p) rs)"
    unfolding find_map matchCompiled_holds by (rule refl)
  then show ?thesis by (cases "find (rule_holds p) rs") (simp_all add: best_destination_def compileRule_def)
qed

text \<open>The first rule that holds has the highest priority of all that hold.\<close>

lemma find_falling:
  assumes "falling rs" "find P rs = Some r"
  shows "r \<in> set rs \<and> P r \<and> (\<forall>q \<in> set rs. P q \<longrightarrow> rr_Priority q \<le> rr_Priority r)"
  using assms
proof (induction rs)
  case (Cons x xs)
  then show ?case by (cases "P x") (auto simp: falling_def)
qed simp

lemma best_destination_cases:
  assumes "falling rs"
  shows "(\<exists>r \<in> set rs. rule_holds p r \<and> (\<forall>q \<in> set rs. rule_holds p q \<longrightarrow> rr_Priority q \<le> rr_Priority r) \<and>
      best_destination rs d p = rr_Destination r) \<or>
    ((\<forall>r \<in> set rs. \<not> rule_holds p r) \<and> best_destination rs d p = d)"
proof (cases "find (rule_holds p) rs")
  case None
  then have "\<forall>r \<in> set rs. \<not> rule_holds p r" by (auto simp: find_None_iff)
  then show ?thesis using None by (simp add: best_destination_def)
next
  case (Some r)
  from find_falling [OF assms Some] Some show ?thesis by (auto simp: best_destination_def)
qed

section \<open>Addresses with the same text\<close>

lemma same_ip_forms:
  assumes "same_ip a b" "a \<noteq> b"
  obtains x where "To4 a = Some x" "To4 b = Some x" "To16 a = Some (v4InV6Prefix @ x)" "To16 b = Some (v4InV6Prefix @ x)"
    "length a \<in> {4, 16}" "length b \<in> {4, 16}"
proof -
  obtain x where x: "To4 a = Some x" "To4 b = Some x" using assms by (cases "To4 a") (auto simp: same_ip_def)
  have f: "To16 c = Some (v4InV6Prefix @ x) \<and> length c \<in> {4, 16}" if "To4 c = Some x" for c
    using that by (auto simp: To4_def To16_def split: if_splits) (metis append_take_drop_id)
  from that [OF x] f [OF x(1)] f [OF x(2)] show ?thesis by blast
qed

lemma same_ip_Contains: "same_ip a b \<Longrightarrow> net_Contains n a = net_Contains n b"
  by (cases "a = b") (auto simp: net_Contains_def elim: same_ip_forms)

lemma same_ip_equal: "same_ip a b \<Longrightarrow> To16 i = Some j \<Longrightarrow> ip_equal i a = ip_equal i b"
  using ip_equal_To16 by (cases "a = b") (auto elim!: same_ip_forms)

lemma same_ip_String: "same_ip a b \<Longrightarrow> ip_String a = ip_String b"
proof (cases "a = b")
  case False
  assume "same_ip a b"
  then obtain x where "To4 a = Some x" "To4 b = Some x" "length a \<in> {4, 16}" "length b \<in> {4, 16}"
    using False by (rule same_ip_forms)
  then show ?thesis by (auto simp: ip_String_def)
qed simp

lemma ParseIP_To16: "ParseIP s = Some i \<Longrightarrow> \<exists>j. To16 i = Some j"
  using ParseIP_length [of s i] by (simp add: To16_def)

lemma same_ip_cond:
  assumes "same_ip a b"
  shows "ip_cond_holds a op v = ip_cond_holds b op v"
proof -
  have "ip_equal i a = ip_equal i b" if "ParseIP s = Some i" for s i
    using same_ip_equal [OF assms] ParseIP_To16 [OF that] by blast
  then have "(case ParseIP s of Some i \<Rightarrow> ip_equal i a | None \<Rightarrow> ip_String a = s) =
      (case ParseIP s of Some i \<Rightarrow> ip_equal i b | None \<Rightarrow> ip_String b = s)" for s
    by (cases "ParseIP s") (simp_all add: same_ip_String [OF assms])
  then show ?thesis by (simp only: ip_cond_holds_def same_ip_Contains [OF assms] same_ip_String [OF assms])
qed

text \<open>Rules that look at the destination only, and fields the engine does not know.\<close>

definition dest_cond :: "RuleCondition \<Rightarrow> bool" where
  "dest_cond c \<longleftrightarrow> c_Field c \<notin> {''src_ip'', ''src_port'', ''session_id''}"

definition dest_rule :: "RoutingRule \<Rightarrow> bool" where
  "dest_rule r \<longleftrightarrow> (\<forall>c \<in> set (rr_Conditions r). dest_cond c)"

definition plain_dst :: "Packet \<Rightarrow> bool" where
  "plain_dst p \<longleftrightarrow> (case p_DstAddr p of None \<Rightarrow> True | Some a \<Rightarrow> addr_ip_port a \<noteq> None)"

lemma addr_ip_port_eqs:
  "addr_ip_port a = Some (ip, port) \<Longrightarrow> addrIP (Some a) = Some ip \<and> addrPort (Some a) = Some port"
  by (cases a) auto

lemma same_text_cond:
  assumes "p_DstAddr p = Some a" "p_DstAddr q = Some b" "addr_String a = addr_String b"
    "addr_ip_port a \<noteq> None" "addr_ip_port b \<noteq> None" "dest_cond c"
  shows "cond_holds p c = cond_holds q c"
proof -
  obtain ip port where a: "addr_ip_port a = Some (ip, port)" using assms(4) by auto
  obtain jp qort where b: "addr_ip_port b = Some (jp, qort)" using assms(5) by auto
  have s: "same_ip ip jp" "port = qort" using addr_String_inject [OF assms(3) a b] by auto
  show ?thesis using assms(1,2,6) addr_ip_port_eqs [OF a] addr_ip_port_eqs [OF b] same_ip_cond [OF s(1)] s(2)
    by (simp add: cond_holds_def dest_cond_def matchCondition_def matchPort_def)
qed

lemma same_text_best:
  assumes "p_DstAddr p = Some a" "p_DstAddr q = Some b" "addr_String a = addr_String b"
    "addr_ip_port a \<noteq> None" "addr_ip_port b \<noteq> None" "\<forall>r \<in> set rs. dest_rule r"
  shows "best_destination rs d p = best_destination rs d q"
proof -
  have "find (rule_holds p) rs = find (rule_holds q) rs"
    using assms(6) same_text_cond [OF assms(1-5)] by (intro find_cong) (auto simp: rule_holds_def dest_rule_def)
  then show ?thesis by (simp add: best_destination_def)
qed

text \<open>The keys of names and of addresses do not meet.\<close>

lemma addr_text_not_domain:
  assumes "addr_ip_port a \<noteq> None"
  shows "addr_String a \<noteq> ''domain:'' @ x"
proof -
  obtain ip port z where a: "addr_String a = JoinHostPort (host_text ip z) (itoa port)" using assms by (cases a) auto
  show ?thesis
  proof (cases "CHR '':'' \<in> set (host_text ip z)")
    case True
    then show ?thesis by (simp add: a JoinHostPort_def)
  next
    case False
    show ?thesis
    proof
      assume "addr_String a = ''domain:'' @ x"
      then have "host_text ip z @ CHR '':'' # itoa port = ''domain'' @ CHR '':'' # x" using False by (simp add: a JoinHostPort_def)
      then have h: "host_text ip z = ''domain''" by (rule first_sep) (use False in simp_all)
      have "ipEmptyString ip = ''domain''" using host_text_ip [of ip z] unfolding h by simp
      then have "CHR ''o'' \<in> set (ipEmptyString ip)" by simp
      moreover have "CHR ''o'' \<notin> set hextable" by (simp add: hextable_def)
      ultimately show False using ipEmptyString_chars [of ip] by auto
    qed
  qed
qed

section \<open>The cache answers as the rules would\<close>

definition coherent :: "('c \<Rightarrow> string \<Rightarrow> Destination option lruEntry option) \<Rightarrow> 'c Engine \<Rightarrow> bool" where
  "coherent cont e \<longleftrightarrow>
     (\<forall>p a en d. p_DstAddr p = Some a \<longrightarrow> addr_ip_port a \<noteq> None \<longrightarrow> cont (en_cache e) (addr_String a) = Some en \<longrightarrow>
        le_value en = Some d \<longrightarrow> best_destination (en_rules e) (cf_DefaultDestination (en_config e)) p = d)"

definition router_inv :: "('c \<Rightarrow> string \<Rightarrow> Destination option lruEntry option) \<Rightarrow> 'c Engine \<Rightarrow> bool" where
  "router_inv cont e \<longleftrightarrow> engine_ok e \<and> (\<forall>r \<in> set (en_rules e). dest_rule r) \<and> coherent cont e"

text \<open>Operations about destinations.\<close>

fun dest_op :: "router_op \<Rightarrow> bool" where
  "dest_op (OpAdd r) = dest_rule r"
| "dest_op (OpUpdate rs) = (\<forall>r \<in> set rs. dest_rule r)"
| "dest_op (OpRoute p) = plain_dst p"
| "dest_op _ = True"

lemma lru_lawfulD:
  assumes "lru_lawful lib cont"
  shows "fst (ll_Get lib k c) = cont c k" "cont (snd (ll_Get lib k c)) = cont c"
    "cont (ll_Add lib k v c) j = Some x \<Longrightarrow> (if j = k then x = v else cont c j = Some x)"
    "cont (ll_Remove lib k c) j = Some x \<Longrightarrow> cont c j = Some x"
    "cont (ll_Purge lib c) j = None"
  using assms unfolding lru_lawful_def by blast+

lemma cache_Get_spec:
  assumes "lru_lawful lib cont" "cache_Get lib zero now k c = (v, c')"
  shows "(v = zero \<or> (\<exists>en. cont c k = Some en \<and> v = le_value en)) \<and> (\<forall>j x. cont c' j = Some x \<longrightarrow> cont c j = Some x)"
proof -
  obtain g c1 where g: "ll_Get lib k c = (g, c1)" by (cases "ll_Get lib k c")
  have "g = cont c k" "cont c1 = cont c" using lru_lawfulD(1,2) [OF assms(1), of k c] by (simp_all add: g)
  then show ?thesis using assms(2) lru_lawfulD(4) [OF assms(1), of k c1]
    by (auto simp: cache_Get_def g split: option.splits if_splits)
qed

lemma coherent_less:
  assumes "coherent cont e" "\<forall>j x. cont (en_cache e') j = Some x \<longrightarrow> cont (en_cache e) j = Some x"
    "en_rules e' = en_rules e" "en_config e' = en_config e"
  shows "coherent cont e'"
  using assms unfolding coherent_def by metis

lemma coherent_Set:
  assumes "lru_lawful lib cont" "coherent cont e" "en_rules e' = en_rules e" "en_config e' = en_config e"
    "en_cache e' = cache_Set lib now k v 0 (en_cache e)"
    "\<forall>p a d. p_DstAddr p = Some a \<longrightarrow> addr_ip_port a \<noteq> None \<longrightarrow> addr_String a = k \<longrightarrow> v = Some d \<longrightarrow>
       best_destination (en_rules e) (cf_DefaultDestination (en_config e)) p = d"
  shows "coherent cont e'"
  unfolding coherent_def
proof (intro allI impI)
  fix p :: Packet and a en d
  assume p: "p_DstAddr p = Some a" "addr_ip_port a \<noteq> None" "cont (en_cache e') (addr_String a) = Some en" "le_value en = Some d"
  from lru_lawfulD(3) [OF assms(1) p(3) [unfolded assms(5) cache_Set_def]]
  show "best_destination (en_rules e') (cf_DefaultDestination (en_config e')) p = d"
    using assms(2,3,4,6) p(1,2,4) unfolding coherent_def by (cases "addr_String a = k") auto
qed

lemma coherent_clear: "lru_lawful lib cont \<Longrightarrow> coherent cont (clearCache lib e)"
  using lru_lawfulD(5) [of lib cont] by (simp add: coherent_def clearCache_def cache_Clear_def)

text \<open>\<^verbatim>\<open>Route\<close> answers as the rules do, and keeps the cache right.\<close>

lemma route_lookup_spec:
  assumes "lru_lawful lib cont" "router_inv cont e" "plain_dst p" "route_lookup lib now p e = (res, e')"
  shows "router_inv cont e' \<and> en_rules e' = en_rules e \<and> en_config e' = en_config e \<and>
    (case res of Inl d \<Rightarrow> d = best_destination (en_rules e) (cf_DefaultDestination (en_config e)) p
     | Inr rs \<Rightarrow> rs = map compileRule (en_rules e))"
proof -
  have comp: "en_compiled e = map compileRule (en_rules e)" using assms(2) by (simp add: router_inv_def engine_ok_def)
  show ?thesis
  proof (cases "cf_EnableCache (en_config e) \<and> p_DstAddr p \<noteq> None")
    case True
    then obtain a where a: "p_DstAddr p = Some a" by auto
    obtain v c' where g: "cache_Get lib None now (addr_String a) (en_cache e) = (v, c')"
      by (cases "cache_Get lib None now (addr_String a) (en_cache e)")
    note spec = cache_Get_spec [OF assms(1) g]
    have fields: "en_cache e' = c'" "en_rules e' = en_rules e" "en_config e' = en_config e" "en_byID e' = en_byID e" "en_compiled e' = en_compiled e"
      and res: "res = (case v of Some d \<Rightarrow> Inl d | None \<Rightarrow> Inr (en_compiled e))"
      using assms(4) True by (auto simp: route_lookup_def checkCache_def a g split: option.splits)
    have "router_inv cont e'" using assms(2) spec fields coherent_less [of cont e e'] engine_ok_same [of e e']
      by (simp add: router_inv_def)
    moreover have "d = best_destination (en_rules e) (cf_DefaultDestination (en_config e)) p" if vd: "v = Some d" for d
    proof -
      obtain en where en: "cont (en_cache e) (addr_String a) = Some en" "le_value en = Some d" using spec vd by auto
      have "addr_ip_port a \<noteq> None" using assms(3) a by (simp add: plain_dst_def)
      then show ?thesis using assms(2) en a unfolding router_inv_def coherent_def by metis
    qed
    ultimately show ?thesis using fields res comp by (auto split: option.splits)
  next
    case False
    then have "res = Inr (en_compiled e)" "en_cache e' = en_cache e" "en_rules e' = en_rules e" "en_config e' = en_config e"
      "en_byID e' = en_byID e" "en_compiled e' = en_compiled e"
      using assms(4) by (auto simp: route_lookup_def checkCache_def split: if_splits option.splits)
    then show ?thesis using assms(2) comp coherent_less [of cont e e'] engine_ok_same [of e e'] by (simp add: router_inv_def)
  qed
qed

lemma route_match_spec:
  assumes "lru_lawful lib cont" "router_inv cont e" "plain_dst p" "route_match lib now p (map compileRule (en_rules e)) e = (d, e')"
  shows "router_inv cont e' \<and> d = best_destination (en_rules e) (cf_DefaultDestination (en_config e)) p"
proof -
  have d: "d = best_destination (en_rules e) (cf_DefaultDestination (en_config e)) p"
    using assms(4) compiled_best [where p = p and rs = "en_rules e" and d = "cf_DefaultDestination (en_config e)"]
    by (auto simp: route_match_def Let_def split: option.splits prod.splits)
  have f: "en_rules e' = en_rules e" "en_config e' = en_config e" "en_byID e' = en_byID e" "en_compiled e' = en_compiled e"
    using assms(4) by (auto simp: route_match_def updateCache_def Let_def split: option.splits prod.splits if_splits)
  have c: "en_cache e' = en_cache e \<or> (\<exists>a. p_DstAddr p = Some a \<and> en_cache e' = cache_Set lib now (addr_String a) (Some d) 0 (en_cache e))"
    using assms(4) by (auto simp: route_match_def updateCache_def Let_def split: option.splits prod.splits if_splits)
  have "coherent cont e'"
  proof (cases "en_cache e' = en_cache e")
    case True
    then show ?thesis using assms(2) f coherent_less [of cont e e'] by (simp add: router_inv_def)
  next
    case False
    then obtain a where a: "p_DstAddr p = Some a" "en_cache e' = cache_Set lib now (addr_String a) (Some d) 0 (en_cache e)" using c by auto
    have "best_destination (en_rules e) (cf_DefaultDestination (en_config e)) q = d"
      if "p_DstAddr q = Some b" "addr_ip_port b \<noteq> None" "addr_String b = addr_String a" for q :: Packet and b
      unfolding d by (rule same_text_best [OF that(1) a(1) that(3) that(2)]) (use a(1) assms(2,3) in \<open>auto simp: router_inv_def plain_dst_def\<close>)
    then show ?thesis using assms(2) f by (intro coherent_Set [OF assms(1) _ f(1,2) a(2)]) (auto simp: router_inv_def)
  qed
  then show ?thesis using assms(2) f d engine_ok_same [of e e'] by (simp add: router_inv_def)
qed

lemma Route_spec:
  assumes "lru_lawful lib cont" "router_inv cont e" "plain_dst p"
  shows "fst (Route lib now p e) = best_destination (en_rules e) (cf_DefaultDestination (en_config e)) p"
    and "router_inv cont (snd (Route lib now p e))"
proof -
  obtain res e1 where l: "route_lookup lib now p e = (res, e1)" by (cases "route_lookup lib now p e")
  note s = route_lookup_spec [OF assms l]
  have "fst (Route lib now p e) = best_destination (en_rules e) (cf_DefaultDestination (en_config e)) p \<and> router_inv cont (snd (Route lib now p e))"
  proof (cases res)
    case (Inl d)
    then show ?thesis using s by (simp add: Route_def l)
  next
    case (Inr rs)
    obtain d e2 where m: "route_match lib now p rs e1 = (d, e2)" by (cases "route_match lib now p rs e1")
    from route_match_spec [OF assms(1) _ assms(3), of e1 now d e2] m s Inr show ?thesis by (simp add: Route_def l)
  qed
  then show "fst (Route lib now p e) = best_destination (en_rules e) (cf_DefaultDestination (en_config e)) p"
    "router_inv cont (snd (Route lib now p e))" by simp_all
qed

lemma dest_rules_step:
  assumes "sort_Slice_ok srt" "dest_op (snd op)" "\<forall>r \<in> set (en_rules e). dest_rule r"
  shows "\<forall>r \<in> set (en_rules (router_step lib srt op e)). dest_rule r"
proof -
  have s: "set (srt rs) = set rs" for rs using assms(1) by (metis sort_Slice_ok_def set_mset_mset)
  show ?thesis
  proof (cases "snd op")
    case (OpRoute p)
    then show ?thesis using assms(3) by (cases op) (simp add: Route_keeps)
  qed (use assms s in \<open>cases op; auto simp: AddRule_def RemoveRule_def UpdateRules_def CacheDomain_def LookupDomain_def
      clearCache_def recompileLocked_def Let_def split: prod.split option.split\<close>)+
qed

lemma coherent_step:
  assumes l: "lru_lawful lib cont" and inv: "router_inv cont e" and op: "dest_op (snd op)"
  shows "coherent cont (router_step lib srt op e)"
proof -
  have c: "coherent cont e" using inv by (simp add: router_inv_def)
  obtain now x where [simp]: "op = (now, x)" by (cases op)
  show ?thesis
  proof (cases x)
    case (OpRoute p)
    then show ?thesis using Route_spec(2) [OF l inv] op by (simp add: router_inv_def)
  next
    case (OpCacheDomain d v)
    then show ?thesis using addr_text_not_domain [of _ "to_lower d"]
      by (auto simp: CacheDomain_def intro!: coherent_Set [OF l c, of _ now "''domain:'' @ to_lower d" v])
  next
    case (OpLookupDomain d)
    obtain v c' where g: "cache_Get lib None now (''domain:'' @ to_lower d) (en_cache e) = (v, c')"
      by (cases "cache_Get lib None now (''domain:'' @ to_lower d) (en_cache e)")
    then show ?thesis using cache_Get_spec [OF l g] OpLookupDomain by (auto simp: LookupDomain_def intro: coherent_less [OF c])
  qed (use c coherent_clear [OF l] in \<open>auto simp: AddRule_def RemoveRule_def UpdateRules_def Let_def split: option.split\<close>)
qed

lemma router_inv_run:
  assumes "lru_lawful lib cont" "sort_Slice_ok srt" "\<forall>k. cont c0 k = None" "\<forall>op \<in> set ops. dest_op (snd op)"
  shows "router_inv cont (router_run lib srt ops (New_Engine cfg c0))"
proof (rule router_run_invariant)
  show "router_inv cont (New_Engine cfg c0)" using assms(3)
    by (simp add: router_inv_def coherent_def) (simp add: New_Engine_def)
  show "router_inv cont (router_step lib srt op e)" if "op \<in> set ops" "router_inv cont e" for op e
    unfolding router_inv_def
    using that(2) engine_ok_step [OF assms(2), of e] dest_rules_step [OF assms(2), of op e] coherent_step [OF assms(1) that(2)] assms(4) that(1)
    by (metis router_inv_def)
qed

lemma router_config [simp]: "en_config (router_step lib srt op e) = en_config e"
proof (cases "snd op")
  case (OpRoute p)
  then show ?thesis by (cases op) (simp add: Route_keeps)
qed (cases op; auto simp: AddRule_def RemoveRule_def UpdateRules_def CacheDomain_def LookupDomain_def
      clearCache_def recompileLocked_def Let_def split: prod.split option.split)+

lemma router_run_config: "en_config (router_run lib srt ops (New_Engine cfg c0)) = Validate (case cfg of None \<Rightarrow> DefaultConfig | Some c \<Rightarrow> c)"
  by (rule router_run_invariant [where P = "\<lambda>e. en_config e = _"]) (simp_all add: New_Engine_def)

section \<open>Properties\<close>

fun is_update :: "router_op \<Rightarrow> bool" where
  "is_update (OpUpdate rs) = True"
| "is_update _ = False"

lemma max_rules_step:
  assumes "sort_Slice_ok srt" "\<not> is_update (snd op)" "int (length (en_rules e)) \<le> cf_MaxRules (en_config e)"
  shows "int (length (en_rules (router_step lib srt op e))) \<le> cf_MaxRules (en_config e)"
proof -
  have s: "length (srt rs) = length rs" for rs using assms(1) by (metis sort_Slice_ok_def size_mset)
  have f: "int (length (filter P (en_rules e))) \<le> cf_MaxRules (en_config e)" for P
    using length_filter_le [of P "en_rules e"] assms(3) by linarith
  show ?thesis
  proof (cases "snd op")
    case (OpRoute p)
    then show ?thesis using assms(3) by (cases op) (simp add: Route_keeps)
  qed (use assms s f in \<open>cases op; auto simp: AddRule_def RemoveRule_def CacheDomain_def LookupDomain_def
      clearCache_def recompileLocked_def Let_def split: prod.split option.split\<close>)+
qed

text \<open>
  C28: whatever operations an engine sees, its rules have distinct, non-empty identifiers and stand by
  falling priority, the compiled rules are the compilation of the rules, looking up an identifier
  gives exactly the rule with it, and their number stays within the limit as long as they
  are added one by one.
\<close>

theorem engine_well_formed:
  assumes "sort_Slice_ok srt"
  shows "engine_ok (router_run lib srt ops (New_Engine cfg c0)) \<and>
    ((\<forall>op \<in> set ops. \<not> is_update (snd op)) \<longrightarrow>
      int (length (en_rules (router_run lib srt ops (New_Engine cfg c0)))) \<le> cf_MaxRules (en_config (router_run lib srt ops (New_Engine cfg c0))))"
proof (intro conjI impI)
  show "engine_ok (router_run lib srt ops (New_Engine cfg c0))"
    by (rule router_run_invariant) (simp_all add: engine_ok_step assms)
  assume "\<forall>op \<in> set ops. \<not> is_update (snd op)"
  then show "int (length (en_rules (router_run lib srt ops (New_Engine cfg c0)))) \<le> cf_MaxRules (en_config (router_run lib srt ops (New_Engine cfg c0)))"
    by (intro router_run_invariant [where P = "\<lambda>e. int (length (en_rules e)) \<le> cf_MaxRules (en_config e)"])
      (auto simp: max_rules_step assms New_Engine_def Validate_def Let_def)
qed

text \<open>
  C29: after any operations on rules that look at destinations only, the engine routes a packet to the
  destination of a rule that holds for it and has the highest priority of those that do, or to
  the default destination if none holds, whether it answers from the cache or from the
  compiled rules. The hypotheses are what golang-lru and \<^verbatim>\<open>sort.Slice\<close> document.
\<close>

theorem route_by_priority:
  fixes cfg :: Config
  assumes "lru_lawful lib cont" "sort_Slice_ok srt" "\<forall>k. cont c0 k = None" "\<forall>op \<in> set ops. dest_op (snd op)" "plain_dst p"
  defines "e \<equiv> router_run lib srt ops (New_Engine (Some cfg) c0)"
  shows "(\<exists>r \<in> set (en_rules e). rule_holds p r \<and> (\<forall>q \<in> set (en_rules e). rule_holds p q \<longrightarrow> rr_Priority q \<le> rr_Priority r) \<and>
      fst (Route lib now p e) = rr_Destination r) \<or>
    ((\<forall>r \<in> set (en_rules e). \<not> rule_holds p r) \<and> fst (Route lib now p e) = cf_DefaultDestination cfg)"
proof -
  have inv: "router_inv cont e" unfolding e_def by (rule router_inv_run) (use assms in auto)
  then have "falling (en_rules e)" by (simp add: router_inv_def engine_ok_def)
  moreover have "cf_DefaultDestination (en_config e) = cf_DefaultDestination cfg"
    unfolding e_def router_run_config by (simp add: Validate_def Let_def)
  ultimately show ?thesis using best_destination_cases [of "en_rules e" p "cf_DefaultDestination cfg"] Route_spec(1) [OF assms(1) inv assms(5), of now] by simp
qed

section \<open>Where the cache is wrong\<close>

text \<open>A cache that keeps at least the entry just added.\<close>

definition lru_keeps :: "('c, 'v) lrulib \<Rightarrow> ('c \<Rightarrow> string \<Rightarrow> 'v lruEntry option) \<Rightarrow> bool" where
  "lru_keeps lib cont \<longleftrightarrow> (\<forall>k v c. cont (ll_Add lib k v c) k = Some v)"

lemma Route_cached:
  assumes "lru_lawful lib cont" "cf_EnableCache (en_config e)" "p_DstAddr p = Some a"
    "cont (en_cache e) (addr_String a) = Some \<lparr>le_value = Some d, le_counter = 0, le_expiresAt = None\<rparr>"
  shows "fst (Route lib now p e) = d"
proof -
  obtain c' where "ll_Get lib (addr_String a) (en_cache e) = (Some \<lparr>le_value = Some d, le_counter = 0, le_expiresAt = None\<rparr>, c')"
    using lru_lawfulD(1) [OF assms(1), of "addr_String a" "en_cache e"] assms(4) by (metis prod.collapse)
  then show ?thesis using assms(2,3)
    by (simp add: Route_def route_lookup_def checkCache_def cache_Get_def expired_def)
qed

lemma route_match_stores:
  assumes "lru_keeps lib cont" "cf_EnableCache (en_config e)" "p_DstAddr p = Some a" "route_match lib now p rules e = (d, e')"
  shows "cont (en_cache e') (addr_String a) = Some \<lparr>le_value = Some d, le_counter = 0, le_expiresAt = None\<rparr> \<and> en_config e' = en_config e \<and>
    en_rules e' = en_rules e"
  using assms by (auto simp: route_match_def updateCache_def cache_Set_def lru_keeps_def Let_def split: option.splits prod.splits)

lemma cache_Get_absent:
  "lru_lawful lib cont \<Longrightarrow> cont c k = None \<Longrightarrow> \<exists>c'. cache_Get lib zero now k c = (zero, c') \<and> cont c' = cont c"
  using lru_lawfulD(1,2) [of lib cont k c] by (cases "ll_Get lib k c") (auto simp: cache_Get_def)

lemma route_lookup_miss:
  assumes "lru_lawful lib cont" "cf_EnableCache (en_config e)" "p_DstAddr p = Some a" "cont (en_cache e) (addr_String a) = None"
  shows "\<exists>e1. route_lookup lib now p e = (Inr (en_compiled e), e1) \<and> en_config e1 = en_config e \<and> en_rules e1 = en_rules e \<and>
    en_byID e1 = en_byID e \<and> en_compiled e1 = en_compiled e"
  using assms(2,3) cache_Get_absent [OF assms(1,4), of None now]
  by (auto simp: route_lookup_def checkCache_def)

text \<open>
  C30: the cache is keyed by the destination alone. A rule that looks at the source or the session
  therefore decides also for packets it does not hold for: once a packet it holds for was routed,
  every packet to the same destination gets the destination of that rule.
\<close>

theorem route_ignores_source:
  assumes "lru_lawful lib cont" "lru_keeps lib cont" "cf_EnableCache (en_config e)" "engine_ok e" "en_rules e = [r]"
    "p_DstAddr p = Some a" "p_DstAddr q = Some a" "cont (en_cache e) (addr_String a) = None"
    "rule_holds p r" "\<not> rule_holds q r"
  shows "fst (Route lib now q (snd (Route lib now p e))) = rr_Destination r \<and>
    best_destination (en_rules e) (cf_DefaultDestination (en_config e)) q = cf_DefaultDestination (en_config e)"
proof -
  obtain e1 where l: "route_lookup lib now p e = (Inr (en_compiled e), e1)" "en_config e1 = en_config e"
    using route_lookup_miss [OF assms(1,3,6,8), of now] by auto
  obtain d e2 where m: "route_match lib now p (en_compiled e) e1 = (d, e2)" by (cases "route_match lib now p (en_compiled e) e1")
  have "en_compiled e = [compileRule r]" using assms(4,5) by (simp add: engine_ok_def)
  then have d: "d = rr_Destination r" using m assms(9) by (auto simp: route_match_def matchCompiled_holds Let_def) (simp add: compileRule_def)
  have "cf_EnableCache (en_config e2)" "cont (en_cache e2) (addr_String a) = Some \<lparr>le_value = Some d, le_counter = 0, le_expiresAt = None\<rparr>"
    using route_match_stores [OF assms(2) _ assms(6) m] l(2) assms(3) by simp_all
  then have "fst (Route lib now q e2) = d" using assms(1,7) by (intro Route_cached)
  moreover have "snd (Route lib now p e) = e2" by (simp add: Route_def l(1) m)
  ultimately show ?thesis using d assms(5,10) by (simp add: best_destination_def)
qed

text \<open>
  C31: \<^verbatim>\<open>Route\<close> stores its result after it let go of the rules. If a rule is added between its two
  halves, the result of the old rules is stored after the cache was emptied, and from then on the
  engine answers with it although the new rule holds.
\<close>

theorem route_stores_stale:
  assumes "lru_lawful lib cont" "lru_keeps lib cont" "sort_Slice_ok srt" "cf_EnableCache (en_config e)" "engine_ok e" "en_rules e = []"
    "p_DstAddr p = Some a" "cont (en_cache e) (addr_String a) = None" "rule_holds p r"
    "route_lookup lib now p e = (Inr rules, e1)" "AddRule lib srt r e1 = (e2, None)" "route_match lib now p rules e2 = (d, e3)"
  shows "fst (Route lib later p e3) = cf_DefaultDestination (en_config e) \<and>
    best_destination (en_rules e3) (cf_DefaultDestination (en_config e3)) p = rr_Destination r"
proof -
  have l: "rules = en_compiled e" "en_config e1 = en_config e" "en_rules e1 = en_rules e"
    using route_lookup_miss [OF assms(1,4,7,8), of now] assms(10) by auto
  have e2: "en_config e2 = en_config e1" "en_rules e2 = srt (en_rules e1 @ [r])"
    using assms(11) by (auto simp: AddRule_def clearCache_def recompileLocked_def Let_def split: if_splits)
  have "mset (srt [r]) = {#r#}" using assms(3) by (simp add: sort_Slice_ok_def)
  then have "srt [r] = [r]" by (metis mset_single_iff_right)
  then have r2: "en_rules e2 = [r]" using e2 l assms(6) by simp
  have "en_compiled e = []" using assms(5,6) by (simp add: engine_ok_def)
  then have d: "d = cf_DefaultDestination (en_config e)" using assms(12) l e2 by (auto simp: route_match_def Let_def)
  have en: "cf_EnableCache (en_config e2)" using assms(4) e2 l by simp
  note st = route_match_stores [OF assms(2) en assms(7,12)]
  have "fst (Route lib later p e3) = d" using st en by (intro Route_cached [OF assms(1) _ assms(7)]) simp_all
  moreover have "best_destination (en_rules e3) x p = rr_Destination r" for x
    using st r2 assms(9) by (simp add: best_destination_def)
  ultimately show ?thesis using d by simp
qed

section \<open>Witnesses\<close>

definition demo_lib :: "((string, 'v lruEntry) gomap, 'v) lrulib" where
  "demo_lib = \<lparr>ll_Get = (\<lambda>k c. (gm_get c k, c)), ll_Add = gm_put, ll_Remove = gm_del, ll_Purge = (\<lambda>_. []), ll_Len = length\<rparr>"

definition demo_sort :: "RoutingRule list \<Rightarrow> RoutingRule list" where
  "demo_sort = sort_key (\<lambda>r. - rr_Priority r)"

lemma demo_lawful: "lru_lawful demo_lib gm_get" "lru_keeps demo_lib gm_get"
  by (auto simp: lru_lawful_def lru_keeps_def demo_lib_def split: if_splits)

lemma demo_sort_ok: "sort_Slice_ok demo_sort"
proof -
  have "falling (sort_key (\<lambda>r. - rr_Priority r) rs)" for rs
    using sorted_sort_key [of "\<lambda>r. - rr_Priority r" rs] by (simp add: falling_def sorted_wrt_map)
  then show ?thesis by (simp add: sort_Slice_ok_def demo_sort_def)
qed

definition demo_dest :: "DestinationType \<Rightarrow> Destination" where
  "demo_dest t = \<lparr>d_Type = t, d_Address = [], d_Port = 0, d_Tag = []\<rparr>"

definition demo_route_rule :: "string \<Rightarrow> int \<Rightarrow> string \<Rightarrow> int list \<Rightarrow> DestinationType \<Rightarrow> RoutingRule" where
  "demo_route_rule ident prio field ports t =
     \<lparr>rr_ID = ident, rr_Priority = prio, rr_Conditions = [\<lparr>c_Field = field, c_Operator = ''in'', c_Value = VInts ports\<rparr>], rr_Destination = demo_dest t\<rparr>"

definition demo_packet :: "int \<Rightarrow> Packet" where
  "demo_packet sport = \<lparr>p_SessionID = 7, p_SrcAddr = Some (TCPAddr [10, 0, 0, 1] sport []), p_DstAddr = Some (TCPAddr [192, 0, 2, 1] 443 [])\<rparr>"

definition demo_engine :: "RoutingRule list \<Rightarrow> (string, Destination option lruEntry) gomap Engine" where
  "demo_engine rs = \<lparr>en_config = DefaultConfig, en_rules = rs, en_compiled = map compileRule rs, en_byID = index_rules rs, en_cache = [],
     en_routeHits = 0, en_routeMisses = 0, en_cacheHits = 0, en_cacheMisses = 0\<rparr>"

lemmas demo_router = demo_route_rule_def demo_packet_def demo_dest_def rule_holds_def cond_holds_def matchCondition_def matchPort_def

theorem engine_well_formed_witness:
  "engine_ok (router_run demo_lib demo_sort [(0, OpAdd (demo_route_rule ''a'' 1 ''dst_port'' [443] DestinationBlock))] (New_Engine None []))"
  by (rule conjunct1 [OF engine_well_formed [OF demo_sort_ok]])

theorem route_by_priority_witness:
  "fst (Route demo_lib 9 (demo_packet 1)
     (router_run demo_lib demo_sort
       [(0, OpAdd (demo_route_rule ''a'' 1 ''dst_port'' [443] DestinationBlock)),
        (1, OpAdd (demo_route_rule ''b'' 5 ''dst_port'' [443] DestinationProxy))] (New_Engine (Some DefaultConfig) []))) = demo_dest DestinationProxy"
  (is "fst (Route _ _ _ (router_run _ _ ?ops _)) = _")
proof -
  let ?e = "router_run demo_lib demo_sort ?ops (New_Engine (Some DefaultConfig) [])"
  have rs: "en_rules ?e = [demo_route_rule ''b'' 5 ''dst_port'' [443] DestinationProxy, demo_route_rule ''a'' 1 ''dst_port'' [443] DestinationBlock]"
    by (simp add: router_run_def AddRule_def New_Engine_def Validate_def DefaultConfig_def clearCache_def recompileLocked_def
        demo_sort_def index_rules_def demo_route_rule_def Let_def)
  have "\<forall>op \<in> set ?ops. dest_op (snd op)" "plain_dst (demo_packet 1)"
    by (simp_all add: dest_rule_def dest_cond_def demo_route_rule_def plain_dst_def demo_packet_def)
  from route_by_priority [OF demo_lawful(1) demo_sort_ok _ this, of "[]" DefaultConfig 9] show ?thesis
    unfolding rs by (auto simp: demo_router)
qed

theorem route_ignores_source_witness:
  "fst (Route demo_lib 0 (demo_packet 2) (snd (Route demo_lib 0 (demo_packet 1)
     (demo_engine [demo_route_rule ''a'' 1 ''src_port'' [1] DestinationBlock])))) = demo_dest DestinationBlock"
proof -
  let ?r = "demo_route_rule ''a'' 1 ''src_port'' [1] DestinationBlock"
  have "engine_ok (demo_engine [?r])"
    by (auto simp: engine_ok_def demo_engine_def falling_def GetRule_def index_rules_def demo_route_rule_def)
  moreover have "rule_holds (demo_packet 1) ?r" "\<not> rule_holds (demo_packet 2) ?r" by (simp_all add: demo_router)
  ultimately show ?thesis
    using route_ignores_source [OF demo_lawful, of "demo_engine [?r]" ?r "demo_packet 1" "TCPAddr [192, 0, 2, 1] 443 []" "demo_packet 2" 0]
    by (simp add: demo_engine_def DefaultConfig_def demo_packet_def) (simp add: demo_route_rule_def)
qed

theorem route_stores_stale_witness:
  "\<exists>rules e1 e2 e3 d. route_lookup demo_lib 0 (demo_packet 1) (demo_engine []) = (Inr rules, e1) \<and>
     AddRule demo_lib demo_sort (demo_route_rule ''a'' 1 ''dst_port'' [443] DestinationBlock) e1 = (e2, None) \<and>
     route_match demo_lib 0 (demo_packet 1) rules e2 = (d, e3) \<and>
     fst (Route demo_lib 1 (demo_packet 1) e3) = demo_dest DestinationDirect"
proof -
  let ?r = "demo_route_rule ''a'' 1 ''dst_port'' [443] DestinationBlock" and ?a = "TCPAddr [192, 0, 2, 1] 443 []"
  have ok: "engine_ok (demo_engine [])" by (simp add: engine_ok_def demo_engine_def falling_def GetRule_def index_rules_def)
  have c: "cf_EnableCache (en_config (demo_engine []))" "en_rules (demo_engine []) = []" "p_DstAddr (demo_packet 1) = Some ?a"
    "gm_get (en_cache (demo_engine [])) (addr_String ?a) = None" "en_byID (demo_engine []) = []"
    by (simp_all add: demo_engine_def DefaultConfig_def demo_packet_def index_rules_def)
  have h: "rule_holds (demo_packet 1) ?r" by (simp add: demo_router)
  obtain e1 where l: "route_lookup demo_lib 0 (demo_packet 1) (demo_engine []) = (Inr (en_compiled (demo_engine [])), e1)"
    "en_rules e1 = []" "en_byID e1 = []" "en_config e1 = DefaultConfig"
    using route_lookup_miss [OF demo_lawful(1) c(1,3,4), of 0] c by (auto simp: demo_engine_def)
  obtain e2 where a: "AddRule demo_lib demo_sort ?r e1 = (e2, None)"
    using l by (auto simp: AddRule_def demo_route_rule_def DefaultConfig_def Let_def)
  obtain d e3 where m: "route_match demo_lib 0 (demo_packet 1) (en_compiled (demo_engine [])) e2 = (d, e3)"
    by (cases "route_match demo_lib 0 (demo_packet 1) (en_compiled (demo_engine [])) e2")
  from route_stores_stale [OF demo_lawful demo_sort_ok c(1) ok c(2-4) h l(1) a m, of 1]
  have "fst (Route demo_lib 1 (demo_packet 1) e3) = demo_dest DestinationDirect"
    by (simp add: demo_engine_def DefaultConfig_def demo_dest_def)
  then show ?thesis using l(1) a m by blast
qed

end
