(* ===== verification/Spec2Isabelle.thy ===== *)
theory Spec2Isabelle
  imports Framed Fec Keylimits SplitTunnel Auth Camouflage Router
begin

text \<open>
  Verification development for whispera, a tunnelling client and server in Go.
\<close>

end
